(* ===== verification/Prelude.thy ===== *)
theory Prelude
  imports Main "HOL-Library.Word"
begin

section \<open>Shared types, error values, block copies and ring arithmetic\<close>

text \<open>
  What every component of the queue uses: the machine integer types, the result type of
  operations that may fault, \<^verbatim>\<open>memcpy\<close> between arrays with its bounds made explicit, and
  the arithmetic of positions on a ring of \<open>n\<close> slots, once over \<open>nat\<close> and once over
  64-bit words. No definition of this theory models code of the repository by itself.
\<close>

type_synonym u64 = "64 word"
type_synonym u32 = "32 word"
type_synonym i32 = "32 word" \<comment> \<open>read through \<open>sint\<close>\<close>

named_theorems ring_simps \<open>equations that move index arithmetic from words to nat\<close>
named_theorems memcpy_simps \<open>behaviour of in-range block copies\<close>

subsection \<open>Faults and their sequencing\<close>

text \<open>
  A fault is what the language leaves undefined (an access outside an array or through a
  null or unmapped pointer) or ends the process (a failed \<^verbatim>\<open>assert\<close>).
\<close>

datatype fault = OutOfBounds | BadPointer | AssertFailed | DivByZero

definition bindE :: "'e + 'a \<Rightarrow> ('a \<Rightarrow> 'e + 'b) \<Rightarrow> 'e + 'b" where
  "bindE m f = (case m of Inl e \<Rightarrow> Inl e | Inr x \<Rightarrow> f x)"

lemma bindE_simps [simp]:
  "bindE (Inl e) f = Inl e"
  "bindE (Inr x) f = f x"
  by (simp_all add: bindE_def)

lemma bindE_eq_Inr [simp]: "bindE m f = Inr y \<longleftrightarrow> (\<exists>x. m = Inr x \<and> f x = Inr y)"
  by (cases m) auto

subsection \<open>Block copies\<close>

definition memcpy :: "'a list \<Rightarrow> nat \<Rightarrow> 'a list \<Rightarrow> nat \<Rightarrow> nat \<Rightarrow> fault + 'a list" where
  "memcpy dst d src s n =
     (if d + n \<le> length dst \<and> s + n \<le> length src
      then Inr (take d dst @ take n (drop s src) @ drop (d + n) dst)
      else Inl OutOfBounds)"

definition splice :: "'a list \<Rightarrow> nat \<Rightarrow> 'a list \<Rightarrow> 'a list" where
  "splice dst d xs = take d dst @ xs @ drop (d + length xs) dst"

lemma memcpy_ok [memcpy_simps]:
  assumes "d + n \<le> length dst" and "s + n \<le> length src"
  shows "memcpy dst d src s n = Inr (splice dst d (take n (drop s src)))"
  using assms by (simp add: memcpy_def splice_def min_absorb1)

lemma memcpy_InrD:
  "memcpy dst d src s n = Inr r \<Longrightarrow>
   d + n \<le> length dst \<and> s + n \<le> length src \<and> r = splice dst d (take n (drop s src))"
  by (auto simp: memcpy_def splice_def min_absorb1 split: if_splits)

lemma length_splice [simp]: "d + length xs \<le> length dst \<Longrightarrow> length (splice dst d xs) = length dst"
  by (simp add: splice_def)

lemma nth_splice:
  assumes "d + length xs \<le> length dst" and "i < length dst"
  shows "splice dst d xs ! i = (if d \<le> i \<and> i < d + length xs then xs ! (i - d) else dst ! i)"
  using assms by (auto simp: splice_def nth_append min_def)

lemma splice_Nil [simp]: "splice dst d [] = dst"
  by (simp add: splice_def)

lemma splice_single: "d < length dst \<Longrightarrow> splice dst d [x] = dst[d := x]"
  by (simp add: splice_def upd_conv_take_nth_drop)

subsection \<open>Positions on a ring of \<open>n\<close> slots\<close>

text \<open>
  \<open>used n w r\<close> is the distance from the read position to the write position, and
  \<open>ring n xs r w\<close> the elements between them, oldest first.
\<close>

definition used :: "nat \<Rightarrow> nat \<Rightarrow> nat \<Rightarrow> nat" where
  "used n w r = (if r \<le> w then w - r else w + n - r)"

definition ring :: "nat \<Rightarrow> 'a list \<Rightarrow> nat \<Rightarrow> nat \<Rightarrow> 'a list" where
  "ring n xs r w = map (\<lambda>i. xs ! ((r + i) mod n)) [0..<used n w r]"

lemma mod_below_double: "a < n + n \<Longrightarrow> a mod n = (if a < n then a else a - n)" for a n :: nat
  by (simp add: le_mod_geq)

lemma used_mod: "w < n \<Longrightarrow> r < n \<Longrightarrow> used n w r = (w + n - r) mod n"
  by (auto simp: used_def mod_below_double)

lemma used_less: "w < n \<Longrightarrow> r < n \<Longrightarrow> used n w r < n"
  by (auto simp: used_def)

lemma used_self [simp]: "used n w w = 0"
  by (simp add: used_def)

lemma used_eq_0_iff: "w < n \<Longrightarrow> r < n \<Longrightarrow> used n w r = 0 \<longleftrightarrow> w = r"
  by (auto simp: used_def split: if_splits)

lemma read_plus_used: "w < n \<Longrightarrow> r < n \<Longrightarrow> (r + used n w r) mod n = w"
  by (auto simp: used_def)

lemma used_advance_write:
  assumes "w < n" "r < n" "used n w r + k < n"
  shows "used n ((w + k) mod n) r = used n w r + k"
  using assms by (auto simp: used_def mod_below_double split: if_splits)

lemma used_advance_read:
  assumes "w < n" "r < n" "k \<le> used n w r"
  shows "used n w ((r + k) mod n) = used n w r - k"
  using assms by (auto simp: used_def mod_below_double split: if_splits)

lemma used_of_totals:
  assumes "r \<le> w" "w < r + n"
  shows "used n (w mod n) (r mod n) = w - r"
proof -
  obtain d where d: "w = r + d" "d < n"
    using assms by (metis add_less_cancel_left le_iff_add)
  have "used n ((r mod n + d) mod n) (r mod n) = used n (r mod n) (r mod n) + d"
    using d by (intro used_advance_write) auto
  then show ?thesis using d by (simp add: mod_add_left_eq)
qed

lemma mod_eq_window:
  assumes "a mod n = b mod n" "a \<le> b" "b < a + n"
  shows "a = (b::nat)"
  using used_of_totals [of a b n] assms by simp

lemma length_ring [simp]: "length (ring n xs r w) = used n w r"
  by (simp add: ring_def)

lemma nth_ring: "i < used n w r \<Longrightarrow> ring n xs r w ! i = xs ! ((r + i) mod n)"
  by (simp add: ring_def)

lemma ring_Nil_iff: "w < n \<Longrightarrow> r < n \<Longrightarrow> ring n xs r w = [] \<longleftrightarrow> w = r"
  using used_eq_0_iff [of w n r] by (simp flip: length_0_conv)

text \<open>
  Publishing \<open>k\<close> elements behind the write position appends them; the slots of the elements
  already there must not change.
\<close>

lemma ring_append:
  assumes w: "w < n" and r: "r < n" and room: "used n w r + length ys < n"
    and old: "\<And>i. i < used n w r \<Longrightarrow> xs' ! ((r + i) mod n) = xs ! ((r + i) mod n)"
    and new: "\<And>i. i < length ys \<Longrightarrow> xs' ! ((w + i) mod n) = ys ! i"
  shows "ring n xs' r ((w + length ys) mod n) = ring n xs r w @ ys"
proof (rule nth_equalityI)
  show "length (ring n xs' r ((w + length ys) mod n)) = length (ring n xs r w @ ys)"
    using used_advance_write [OF w r room] by simp
next
  fix i assume "i < length (ring n xs' r ((w + length ys) mod n))"
  then have i: "i < used n w r + length ys"
    using used_advance_write [OF w r room] by simp
  show "ring n xs' r ((w + length ys) mod n) ! i = (ring n xs r w @ ys) ! i"
  proof (cases "i < used n w r")
    case True
    then show ?thesis
      using i by (simp add: nth_ring nth_append used_advance_write [OF w r room] old)
  next
    case False
    define j where "j = i - used n w r"
    have "i = used n w r + j" using False by (simp add: j_def)
    then have "(r + i) mod n = ((r + used n w r) mod n + j) mod n"
      by (simp add: mod_add_left_eq add.assoc)
    then have "(r + i) mod n = (w + j) mod n"
      by (simp add: read_plus_used [OF w r])
    moreover have "j < length ys" using i False by (simp add: j_def)
    ultimately show ?thesis
      using i False new [of j]
      by (simp add: nth_ring nth_append used_advance_write [OF w r room] j_def)
  qed
qed

lemma ring_drop:
  assumes w: "w < n" and r: "r < n" and k: "k \<le> used n w r"
  shows "ring n xs ((r + k) mod n) w = drop k (ring n xs r w)"
proof (rule nth_equalityI)
  show "length (ring n xs ((r + k) mod n) w) = length (drop k (ring n xs r w))"
    using used_advance_read [OF w r k] by simp
next
  fix i assume "i < length (ring n xs ((r + k) mod n) w)"
  then show "ring n xs ((r + k) mod n) w ! i = drop k (ring n xs r w) ! i"
    using used_advance_read [OF w r k] k
    by (simp add: nth_ring add.assoc mod_add_left_eq)
qed

subsection \<open>Index arithmetic at 64 bits\<close>

lemma unat_u64_less [simp]: "unat (x :: u64) < 18446744073709551616"
  proof -
  have "unat x < 2 ^ LENGTH(64)" by (rule unsigned_less)
  then show ?thesis by simp
qed

lemma unat_of_nat_u64: "m < 18446744073709551616 \<Longrightarrow> unat (of_nat m :: u64) = m"
  by (simp add: unat_of_nat)

lemma unat_step [ring_simps]:
  fixes w c :: u64
  assumes "unat w < unat c"
  shows "unat (if w + 1 = c then 0 else w + 1) = (unat w + 1) mod unat c"
proof -
  have w: "unat (w + 1) = unat w + 1"
  proof -
    have "unat w + 1 < 18446744073709551616" using assms unat_u64_less [of c] by linarith
    then show ?thesis by (simp add: unat_word_ariths)
  qed
  show ?thesis
  proof (cases "w + 1 = c")
    case True
    then show ?thesis using w by simp
  next
    case False
    then have "unat (w + 1) \<noteq> unat c" by (auto dest: unsigned_word_eqI)
    then show ?thesis using False w assms by simp
  qed
qed

lemma unat_advance [ring_simps]:
  fixes w c k :: u64
  assumes "unat w < unat c" "unat k \<le> unat c" "unat c \<le> 2 ^ 63"
  shows "unat (if w + k \<ge> c then w + k - c else w + k) = (unat w + unat k) mod unat c"
proof -
  have s: "unat (w + k) = unat w + unat k"
    using assms by (simp add: unat_word_ariths)
  show ?thesis
  proof (cases "w + k \<ge> c")
    case True
    then have "unat c \<le> unat (w + k)" by (simp only: word_le_nat_alt)
    then have "unat (w + k - c) = unat w + unat k - unat c"
      using s by (simp add: unat_sub_if')
    moreover have "unat w + unat k - unat c < unat c" "unat c \<le> unat w + unat k"
      using assms s \<open>unat c \<le> unat (w + k)\<close> by linarith+
    ultimately show ?thesis using True by (simp add: le_mod_geq)
  next
    case False
    then have "unat (w + k) < unat c" by (simp only: word_le_nat_alt not_le)
    then show ?thesis using False s by simp
  qed
qed

lemma unat_ring_diff [ring_simps]:
  fixes w r c :: u64
  assumes "unat w < unat c" "unat r < unat c"
  shows "unat (if w \<ge> r then w - r else w + c - r) = used (unat c) (unat w) (unat r)"
proof (cases "w \<ge> r")
  case True
  then have "unat r \<le> unat w" by (simp only: word_le_nat_alt)
  then show ?thesis using True by (simp add: used_def unat_sub)
next
  case False
  then have lt: "unat w < unat r" by (simp only: word_le_nat_alt not_le)
  have "w + c - r = of_nat (unat w + unat c - unat r)"
    using assms by (simp add: of_nat_diff)
  moreover have "unat w + unat c - unat r < 18446744073709551616"
    using lt unat_u64_less [of c] by linarith
  ultimately have "unat (w + c - r) = unat w + unat c - unat r"
    by (simp only: unat_of_nat_u64)
  then show ?thesis using False lt by (simp add: used_def)
qed

lemma sint_nonneg_u64:
  fixes x :: u64
  assumes "0 \<le> sint x"
  shows "sint x = int (unat x) \<and> unat x < 2 ^ 63"
proof -
  have s: "sint x = signed_take_bit 63 (uint x)" by (simp add: sint_uint)
  have nb: "\<not> bit (uint x) 63" using assms unfolding s by simp
  have e: "sint x = take_bit 63 (uint x)"
    unfolding s using nb by (simp add: signed_take_bit_eq_if_positive)
  have "take_bit 64 (uint x) = take_bit 63 (uint x)"
    using nb take_bit_Suc_from_most [of 63 "uint x"] by simp
  moreover have "take_bit 64 (uint x) = uint x"
    by (simp add: take_bit_eq_mod mod_pos_pos_trivial uint_lt2p [of x, simplified])
  ultimately have u: "sint x = uint x" using e by simp
  have "take_bit 63 (uint x) < 2 ^ 63" by (rule take_bit_int_less_exp)
  then have lt: "uint x < 9223372036854775808" using e u by simp
  have i: "int (unat x) = uint x" by simp
  have "unat x < 9223372036854775808" using lt i by linarith
  then show ?thesis using u i by simp
qed

subsection \<open>Copies that wrap around the end of the ring\<close>

lemma step_hits_iff:
  assumes "w < n" "x < n"
  shows "(w + 1) mod n = x \<longleftrightarrow> used n w x = n - 1"
  using assms by (auto simp: used_def mod_below_double split: if_splits)

lemma ring_slot_neq_write:
  assumes "w < n" "r < n" "i < used n w r"
  shows "(r + i) mod n \<noteq> w"
  using used_advance_read [of w n r i] assms by auto

lemma mod_shift_inj:
  assumes "(w + i) mod n = (w + j) mod n" "i < n" "j < n"
  shows "i = (j :: nat)"
proof (cases "i \<le> j")
  case True
  then show ?thesis using mod_eq_window [of "w + i" n "w + j"] assms by simp
next
  case False
  then show ?thesis using mod_eq_window [of "w + j" n "w + i"] assms by simp
qed

text \<open>A write of \<open>k\<close> elements at \<open>w\<close>, in two pieces when it passes the end.\<close>

definition wrap_write :: "nat \<Rightarrow> 'a list \<Rightarrow> nat \<Rightarrow> 'a list \<Rightarrow> nat \<Rightarrow> 'a list" where
  "wrap_write n xs w ys k =
     (let f = min k (n - w) in splice (splice xs w (take f ys)) 0 (take (k - f) (drop f ys)))"

lemma wrap_write_props:
  assumes n: "n \<le> length xs" and w: "w < n" and k: "k \<le> n" "k \<le> length ys"
  shows "length (wrap_write n xs w ys k) = length xs"
    and "i < k \<Longrightarrow> wrap_write n xs w ys k ! ((w + i) mod n) = ys ! i"
    and "j < length xs \<Longrightarrow> (\<And>i. i < k \<Longrightarrow> (w + i) mod n \<noteq> j) \<Longrightarrow> wrap_write n xs w ys k ! j = xs ! j"
proof -
  define f where "f = min k (n - w)"
  have f: "f \<le> k" "w + f \<le> n" using w by (auto simp: f_def)
  define s where "s = splice xs w (take f ys)"
  have ls: "length s = length xs" using f k n by (simp add: s_def)
  have ww: "wrap_write n xs w ys k = splice s 0 (take (k - f) (drop f ys))"
    by (simp add: wrap_write_def f_def s_def Let_def)
  have kf: "k - f \<le> w" using k w by (auto simp: f_def min_def)
  have lp: "length (take (k - f) (drop f ys)) = k - f" using k by simp
  have fit: "0 + length (take (k - f) (drop f ys)) \<le> length s"
    using lp kf ls n w by simp
  show "length (wrap_write n xs w ys k) = length xs"
    using fit ls by (simp add: ww)
  have nth: "wrap_write n xs w ys k ! j =
      (if j < k - f then ys ! (f + j) else if w \<le> j \<and> j < w + f then ys ! (j - w) else xs ! j)"
    if "j < length xs" for j
    using that f k n fit ls lp
    by (simp add: ww nth_splice) (auto simp: s_def nth_splice)
  show "wrap_write n xs w ys k ! ((w + i) mod n) = ys ! i" if i: "i < k"
  proof (cases "w + i < n")
    case True
    then have "i < f" using i by (simp add: f_def)
    then show ?thesis using True kf n by (simp add: nth)
  next
    case False
    then have "(w + i) mod n = w + i - n" using w i k by (simp add: mod_below_double)
    moreover have "f = n - w" using False i by (simp add: f_def)
    moreover have "w + i - n < length xs" "f + (w + i - n) = i" "w + i - n < k - f"
      using False i w n k \<open>f = n - w\<close> by linarith+
    ultimately show ?thesis by (simp add: nth)
  qed
  show "wrap_write n xs w ys k ! j = xs ! j"
    if j: "j < length xs" and out: "\<And>i. i < k \<Longrightarrow> (w + i) mod n \<noteq> j"
  proof -
    have "\<not> j < k - f"
    proof
      assume *: "j < k - f"
      then have "f = n - w" by (auto simp: f_def min_def split: if_splits)
      then have "(w + (f + j)) mod n = j" using * kf w by (simp add: mod_below_double)
      then show False using out [of "f + j"] * by simp
    qed
    moreover have "\<not> (w \<le> j \<and> j < w + f)"
    proof
      assume *: "w \<le> j \<and> j < w + f"
      then have "(w + (j - w)) mod n = j" using f by simp
      moreover have "j - w < k" using * f by linarith
      ultimately show False using out by blast
    qed
    ultimately show ?thesis using j by (auto simp: nth)
  qed
qed

lemma wrap_read:
  assumes n: "n \<le> length xs" and r: "r < n" and k: "k \<le> n"
  defines "f \<equiv> min k (n - r)"
  shows "take f (drop r xs) @ take (k - f) xs = map (\<lambda>i. xs ! ((r + i) mod n)) [0..<k]"
proof (rule nth_equalityI)
  have f: "f \<le> k" "r + f \<le> n" "k - f \<le> r" using r k by (auto simp: f_def min_def)
  then show len: "length (take f (drop r xs) @ take (k - f) xs) = length (map (\<lambda>i. xs ! ((r + i) mod n)) [0..<k])"
    using n r by simp
  fix i assume "i < length (take f (drop r xs) @ take (k - f) xs)"
  then have i: "i < k" using len by simp
  show "(take f (drop r xs) @ take (k - f) xs) ! i = map (\<lambda>i. xs ! ((r + i) mod n)) [0..<k] ! i"
  proof (cases "i < f")
    case True
    then show ?thesis using f n i by (simp add: nth_append)
  next
    case False
    then have "f = n - r" using i by (simp add: f_def)
    moreover have "(r + i) mod n = r + i - n"
      using False i k r \<open>f = n - r\<close> by (simp add: mod_below_double) linarith
    moreover have "i - f = r + i - n" using \<open>f = n - r\<close> r by simp
    ultimately show ?thesis using False f n r i by (simp add: nth_append)
  qed
qed

end
