(* ===== verification/Segment.thy ===== *)
theory Segment
  imports Prelude
begin

section \<open>ShmSegment: the owner of one mapped POSIX shared-memory object\<close>

text \<open>
  \<^verbatim>\<open>include/shmspsc/ShmSegment.h\<close>. The system calls it makes are a parameter, the record
  \<open>posix\<close> of functions on a kernel state \<open>'k\<close>; the locale \<open>posix_shm\<close> holds what the
  manual pages promise of them, stated over a view of the kernel (which names are linked to
  which objects, the objects' sizes, this process's descriptors and mappings). The operations
  of the class follow in the order of the header; each returns its value or exception with the
  kernel state it leaves. \<open>ref_posix\<close> is a kernel that satisfies the locale for every
  schedule of failing calls.
\<close>

type_synonym errno = nat
type_synonym fd = nat
type_synonym addr = nat
type_synonym oid = nat

datatype oflag = O_CREAT | O_EXCL | O_RDWR | O_RDONLY

record 'k posix =
  sys_shm_unlink :: "string \<Rightarrow> 'k \<Rightarrow> 'k" \<comment> \<open>no caller reads its result\<close>
  sys_shm_open :: "string \<Rightarrow> oflag list \<Rightarrow> nat \<Rightarrow> 'k \<Rightarrow> (errno + fd) \<times> 'k"
  sys_ftruncate :: "fd \<Rightarrow> int \<Rightarrow> 'k \<Rightarrow> errno option \<times> 'k"
  sys_fstat :: "fd \<Rightarrow> 'k \<Rightarrow> (errno + int) \<times> 'k" \<comment> \<open>\<open>st_size\<close>\<close>
  sys_mmap :: "u64 \<Rightarrow> fd \<Rightarrow> 'k \<Rightarrow> (errno + addr) \<times> 'k"
  sys_munmap :: "addr \<Rightarrow> u64 \<Rightarrow> 'k \<Rightarrow> 'k"
  sys_close :: "fd \<Rightarrow> 'k \<Rightarrow> 'k"
  backing :: "'k \<Rightarrow> addr \<Rightarrow> oid option" \<comment> \<open>the object a load or store at a mapped address reaches\<close>

text \<open>The exceptions of the library, with the text of \<^verbatim>\<open>what()\<close>.\<close>

datatype exn =
    Invalid_argument string
  | Runtime_error string
  | System_error errno string
  | Length_error string
  | Bad_alloc

record shm_segment =
  addr_m :: "addr option" \<comment> \<open>None is nullptr\<close>
  size_m :: u64
  owner_m :: bool
  name_m :: string

definition ShmSegment :: shm_segment where
  "ShmSegment = \<lparr>addr_m = None, size_m = 0, owner_m = False, name_m = ''''\<rparr>"

definition kMaxShmNameLen :: nat where
  "kMaxShmNameLen = 31"

text \<open>\<^verbatim>\<open>std::string::c_str\<close> as the kernel reads it: up to the first zero byte.\<close>

definition c_str :: "string \<Rightarrow> string" where
  "c_str s = takeWhile (\<lambda>c. c \<noteq> CHR 0x00) s"

definition throwErrno :: "string \<Rightarrow> errno \<Rightarrow> exn" where
  "throwErrno what e = System_error e what"

definition validateName :: "string \<Rightarrow> exn + unit" where
  "validateName name =
     (if length name < 2 \<or> name ! 0 \<noteq> CHR ''/''
      then Inl (Invalid_argument (''shm name must start with '' @ [CHR 0x27, CHR ''/'', CHR 0x27] @ '': '' @ name))
      else if kMaxShmNameLen < length name
      then Inl (Invalid_argument (''shm name exceeds 31 chars: '' @ name))
      else if CHR ''/'' \<in> set (drop 1 name)
      then Inl (Invalid_argument (''shm name may only contain a leading '' @ [CHR 0x27, CHR ''/'', CHR 0x27] @ '': '' @ name))
      else Inr ())"

definition mapAndClose ::
  "'k posix \<Rightarrow> fd \<Rightarrow> string \<Rightarrow> u64 \<Rightarrow> bool \<Rightarrow> 'k \<Rightarrow> (exn + shm_segment) \<times> 'k" where
  "mapAndClose P fd name bytes owner k =
     (let (addr, k1) = sys_mmap P bytes fd k;
          k2 = sys_close P fd k1
      in case addr of
           Inl e \<Rightarrow>
             (let k3 = (if owner then sys_shm_unlink P (c_str name) k2 else k2)
              in (Inl (throwErrno (''mmap '' @ name) e), k3))
         | Inr a \<Rightarrow> (Inr \<lparr>addr_m = Some a, size_m = bytes, owner_m = owner, name_m = name\<rparr>, k2))"

definition seg_create ::
  "'k posix \<Rightarrow> string \<Rightarrow> u64 \<Rightarrow> 'k \<Rightarrow> (exn + shm_segment) \<times> 'k" where
  "seg_create P name bytes k =
     (case validateName name of
        Inl e \<Rightarrow> (Inl e, k)
      | Inr _ \<Rightarrow>
          if bytes = 0
          then (Inl (Invalid_argument ''ShmSegment::create: bytes must be > 0''), k)
          else
            (let k1 = sys_shm_unlink P (c_str name) k
             in case sys_shm_open P (c_str name) [O_CREAT, O_EXCL, O_RDWR] 384 k1 of
                  (Inl e, k2) \<Rightarrow> (Inl (throwErrno (''shm_open(O_CREAT) '' @ name) e), k2)
                | (Inr fd, k2) \<Rightarrow>
                    (case sys_ftruncate P fd (sint bytes) k2 of
                       (Some e, k3) \<Rightarrow>
                         (let k4 = sys_close P fd k3;
                              k5 = sys_shm_unlink P (c_str name) k4
                          in (Inl (throwErrno (''ftruncate '' @ name) e), k5))
                     | (None, k3) \<Rightarrow> mapAndClose P fd name bytes True k3)))"

definition seg_open :: "'k posix \<Rightarrow> string \<Rightarrow> 'k \<Rightarrow> (exn + shm_segment) \<times> 'k" where
  "seg_open P name k =
     (case validateName name of
        Inl e \<Rightarrow> (Inl e, k)
      | Inr _ \<Rightarrow>
          (case sys_shm_open P (c_str name) [O_RDWR] 384 k of
             (Inl e, k1) \<Rightarrow> (Inl (throwErrno (''shm_open '' @ name @ '' (is the peer running?)'') e), k1)
           | (Inr fd, k1) \<Rightarrow>
               (case sys_fstat P fd k1 of
                  (Inl e, k2) \<Rightarrow> (let k3 = sys_close P fd k2 in (Inl (throwErrno (''fstat '' @ name) e), k3))
                | (Inr st_size, k2) \<Rightarrow>
                    if st_size \<le> 0
                    then (let k3 = sys_close P fd k2
                          in (Inl (Runtime_error (''shm object '' @ name @
                                    '' has zero size (peer still initialising?)'')), k3))
                    else mapAndClose P fd name (word_of_int st_size) False k2)))"

definition seg_exists :: "'k posix \<Rightarrow> string \<Rightarrow> 'k \<Rightarrow> bool \<times> 'k" where
  "seg_exists P name k =
     (case sys_shm_open P (c_str name) [O_RDONLY] 384 k of
        (Inl _, k1) \<Rightarrow> (False, k1)
      | (Inr fd, k1) \<Rightarrow> (True, sys_close P fd k1))"

definition seg_remove :: "'k posix \<Rightarrow> string \<Rightarrow> 'k \<Rightarrow> 'k" where
  "seg_remove P name k = sys_shm_unlink P (c_str name) k"

definition seg_release :: "shm_segment \<Rightarrow> shm_segment" where
  "seg_release s = s\<lparr>owner_m := False\<rparr>"

definition seg_valid :: "shm_segment \<Rightarrow> bool" where
  "seg_valid s \<longleftrightarrow> addr_m s \<noteq> None"

definition seg_reset :: "'k posix \<Rightarrow> shm_segment \<Rightarrow> 'k \<Rightarrow> shm_segment \<times> 'k" where
  "seg_reset P s k =
     (let (s1, k1) = (case addr_m s of
                        Some a \<Rightarrow> (s\<lparr>addr_m := None\<rparr>, sys_munmap P a (size_m s) k)
                      | None \<Rightarrow> (s, k));
          k2 = (if owner_m s1 \<and> name_m s1 \<noteq> '''' then sys_shm_unlink P (c_str (name_m s1)) k1 else k1)
      in (s1\<lparr>owner_m := False, size_m := 0, name_m := ''''\<rparr>, k2))"

text \<open>Swapping exchanges the four members; the move constructor swaps with a fresh segment.\<close>

definition seg_swap :: "shm_segment \<Rightarrow> shm_segment \<Rightarrow> shm_segment \<times> shm_segment" where
  "seg_swap s t =
     (\<lparr>addr_m = addr_m t, size_m = size_m t, owner_m = owner_m t, name_m = name_m t\<rparr>,
      \<lparr>addr_m = addr_m s, size_m = size_m s, owner_m = owner_m s, name_m = name_m s\<rparr>)"

definition seg_move :: "shm_segment \<Rightarrow> shm_segment \<times> shm_segment" where
  "seg_move src = seg_swap ShmSegment src"

text \<open>
  Move assignment. \<open>same\<close> is \<^verbatim>\<open>this == &o\<close>; the result is the target, the source and the
  kernel after the temporary's destructor.
\<close>

definition seg_move_assign ::
  "'k posix \<Rightarrow> bool \<Rightarrow> shm_segment \<Rightarrow> shm_segment \<Rightarrow> 'k \<Rightarrow> shm_segment \<times> shm_segment \<times> 'k" where
  "seg_move_assign P same dst src k =
     (if same then (dst, src, k)
      else let (tmp, src') = seg_move src;
               (dst', tmp') = seg_swap dst tmp;
               (_, k') = seg_reset P tmp' k
           in (dst', src', k'))"

subsection \<open>What the manual pages promise\<close>

text \<open>
  \<open>links\<close> are the names of the shared-memory name space, \<open>osize\<close> the size of an object,
  \<open>known\<close> the objects that ever existed, \<open>owned\<close> the objects this process created (and may unlink), \<open>fds\<close> and \<open>maps\<close> the
  descriptors and mappings of this process.
\<close>

record kview =
  links :: "string \<rightharpoonup> oid"
  osize :: "oid \<Rightarrow> int"
  known :: "oid set"
  owned :: "oid set"
  fds :: "fd \<rightharpoonup> oid"
  maps :: "addr \<rightharpoonup> oid \<times> u64"

definition unlinked :: "string \<Rightarrow> kview \<Rightarrow> kview" where
  "unlinked n v = v\<lparr>links := (links v)(n := None)\<rparr>"

text \<open>Descriptors and mappings are the same, so nothing this process holds was lost or leaked.\<close>

definition same_resources :: "kview \<Rightarrow> kview \<Rightarrow> bool" where
  "same_resources v v' \<longleftrightarrow> fds v' = fds v \<and> maps v' = maps v"

definition seg_mapped :: "kview \<Rightarrow> shm_segment \<Rightarrow> bool" where
  "seg_mapped v s \<longleftrightarrow> (case addr_m s of None \<Rightarrow> True | Some a \<Rightarrow> \<exists>ob. maps v a = Some (ob, size_m s))"

locale posix_shm =
  fixes P :: "'k posix" and view :: "'k \<Rightarrow> kview"
  assumes unlink_law:
      "view (sys_shm_unlink P n k) = unlinked n (view k) \<or> view (sys_shm_unlink P n k) = view k"
    and unlink_own_law:
      "links (view k) n = Some ob \<Longrightarrow> ob \<in> owned (view k) \<Longrightarrow>
       view (sys_shm_unlink P n k) = unlinked n (view k)"
    and open_fail_law: "sys_shm_open P n fl md k = (Inl e, k') \<Longrightarrow> view k' = view k"
    and open_creat_law:
      "sys_shm_open P n fl md k = (Inr fd, k') \<Longrightarrow> O_CREAT \<in> set fl \<Longrightarrow> O_EXCL \<in> set fl \<Longrightarrow>
       links (view k) n = None \<and> fds (view k) fd = None \<and>
       (\<exists>ob. ob \<notin> known (view k) \<and>
             view k' = (view k)\<lparr>links := (links (view k))(n \<mapsto> ob), osize := (osize (view k))(ob := 0),
                                 known := insert ob (known (view k)), owned := insert ob (owned (view k)), fds := (fds (view k))(fd \<mapsto> ob)\<rparr>)"
    and open_law:
      "sys_shm_open P n fl md k = (Inr fd, k') \<Longrightarrow> O_CREAT \<notin> set fl \<Longrightarrow>
       fds (view k) fd = None \<and>
       (\<exists>ob. links (view k) n = Some ob \<and> view k' = (view k)\<lparr>fds := (fds (view k))(fd \<mapsto> ob)\<rparr>)"
    and ftruncate_fail_law: "sys_ftruncate P fd len k = (Some e, k') \<Longrightarrow> view k' = view k"
    and ftruncate_law:
      "sys_ftruncate P fd len k = (None, k') \<Longrightarrow> fds (view k) fd = Some ob \<Longrightarrow>
       0 \<le> len \<and> view k' = (view k)\<lparr>osize := (osize (view k))(ob := len)\<rparr>"
    and fstat_law:
      "sys_fstat P fd k = (res, k') \<Longrightarrow> fds (view k) fd = Some ob \<Longrightarrow>
       view k' = view k \<and> (\<forall>sz. res = Inr sz \<longrightarrow> sz = osize (view k) ob)"
    and mmap_fail_law: "sys_mmap P bytes fd k = (Inl e, k') \<Longrightarrow> view k' = view k"
    and mmap_law:
      "sys_mmap P bytes fd k = (Inr a, k') \<Longrightarrow> fds (view k) fd = Some ob \<Longrightarrow>
       maps (view k) a = None \<and> view k' = (view k)\<lparr>maps := (maps (view k))(a \<mapsto> (ob, bytes))\<rparr>"
    and munmap_law:
      "maps (view k) a = Some (ob, bytes) \<Longrightarrow>
       view (sys_munmap P a bytes k) = (view k)\<lparr>maps := (maps (view k))(a := None)\<rparr>"
    and close_law:
      "fds (view k) fd = Some ob \<Longrightarrow>
       view (sys_close P fd k) = (view k)\<lparr>fds := (fds (view k))(fd := None)\<rparr>"
    and backing_law: "backing P k a = map_option fst (maps (view k) a)"
begin

lemma unlink_cases:
  obtains "view (sys_shm_unlink P n k) = unlinked n (view k)" | "view (sys_shm_unlink P n k) = view k"
  using unlink_law by blast

lemma unlink_frame [simp]:
  "osize (view (sys_shm_unlink P n k)) = osize (view k)"
  "known (view (sys_shm_unlink P n k)) = known (view k)"
  "owned (view (sys_shm_unlink P n k)) = owned (view k)"
  "fds (view (sys_shm_unlink P n k)) = fds (view k)"
  "maps (view (sys_shm_unlink P n k)) = maps (view k)"
  by (rule unlink_cases [of n k]; simp add: unlinked_def)+

lemma unlink_other [simp]: "m \<noteq> n \<Longrightarrow> links (view (sys_shm_unlink P n k)) m = links (view k) m"
  by (rule unlink_cases [of n k]; simp add: unlinked_def)

text \<open>\<^verbatim>\<open>mapAndClose\<close> always gives the descriptor back, and maps the object on success.\<close>

lemma mapAndClose_ok:
  assumes run: "mapAndClose P fd name bytes owner k = (Inr s, k')" and fd: "fds (view k) fd = Some ob"
  obtains a where "s = \<lparr>addr_m = Some a, size_m = bytes, owner_m = owner, name_m = name\<rparr>"
    and "maps (view k) a = None"
    and "view k' = (view k)\<lparr>fds := (fds (view k))(fd := None), maps := (maps (view k))(a \<mapsto> (ob, bytes))\<rparr>"
proof -
  obtain res k1 where m: "sys_mmap P bytes fd k = (res, k1)" by force
  with run obtain a where res: "res = Inr a"
    by (auto simp: mapAndClose_def Let_def split: sum.splits)
  note law = mmap_law [OF m [unfolded res] fd]
  then have "view (sys_close P fd k1) = (view k1)\<lparr>fds := (fds (view k1))(fd := None)\<rparr>"
    using fd by (intro close_law) simp
  moreover have "k' = sys_close P fd k1" and "s = \<lparr>addr_m = Some a, size_m = bytes, owner_m = owner, name_m = name\<rparr>"
    using run m res by (auto simp: mapAndClose_def)
  ultimately show ?thesis using that law by simp
qed

lemma mapAndClose_fail:
  assumes run: "mapAndClose P fd name bytes owner k = (Inl e, k')" and fd: "fds (view k) fd = Some ob"
  defines "v \<equiv> (view k)\<lparr>fds := (fds (view k))(fd := None)\<rparr>"
  shows "(\<not> owner \<longrightarrow> view k' = v) \<and> (owner \<longrightarrow> view k' = unlinked (c_str name) v \<or> view k' = v) \<and>
         (owner \<longrightarrow> links (view k) (c_str name) = Some ob \<longrightarrow> ob \<in> owned (view k) \<longrightarrow>
            view k' = unlinked (c_str name) v)"
proof -
  obtain res k1 where m: "sys_mmap P bytes fd k = (res, k1)" by force
  with run obtain e' where res: "res = Inl e'"
    by (auto simp: mapAndClose_def Let_def split: sum.splits)
  have "view k1 = view k" using m res mmap_fail_law by blast
  then have v: "view (sys_close P fd k1) = v"
    using close_law fd by (simp add: v_def)
  have k': "k' = (if owner then sys_shm_unlink P (c_str name) (sys_close P fd k1) else sys_close P fd k1)"
    using run m res by (auto simp: mapAndClose_def Let_def)
  show ?thesis
  proof (cases owner)
    case False
    then show ?thesis by (simp add: k' v)
  next
    case True
    have own: "view k' = unlinked (c_str name) v"
      if "links (view k) (c_str name) = Some ob" "ob \<in> owned (view k)"
      using unlink_own_law [of "sys_close P fd k1" "c_str name" ob] that True
      unfolding k' v by (simp add: v_def)
    show ?thesis
      using unlink_law [of "c_str name" "sys_close P fd k1"] own True
      unfolding k' v by simp
  qed
qed

lemma seg_create_ok:
  assumes run: "seg_create P name bytes k = (Inr s, k')"
  obtains ob a where "s = \<lparr>addr_m = Some a, size_m = bytes, owner_m = True, name_m = name\<rparr>"
    and "validateName name = Inr ()" and "bytes \<noteq> 0" and "0 \<le> sint bytes"
    and "ob \<notin> known (view k)" and "maps (view k) a = None"
    and "view k' = (view k)\<lparr>links := (links (view k))(c_str name \<mapsto> ob),
                          osize := (osize (view k))(ob := sint bytes),
                          known := insert ob (known (view k)), owned := insert ob (owned (view k)),
                          maps := (maps (view k))(a \<mapsto> (ob, bytes))\<rparr>"
proof -
  let ?n = "c_str name"
  define k1 where "k1 = sys_shm_unlink P ?n k"
  from run obtain fd k2 k3 where valid: "validateName name = Inr ()" and bytes: "bytes \<noteq> 0"
    and op: "sys_shm_open P ?n [O_CREAT, O_EXCL, O_RDWR] 384 k1 = (Inr fd, k2)"
    and tr: "sys_ftruncate P fd (sint bytes) k2 = (None, k3)"
    and mc: "mapAndClose P fd name bytes True k3 = (Inr s, k')"
    by (auto simp: seg_create_def Let_def k1_def split: sum.splits if_splits prod.splits option.splits)
  from open_creat_law [OF op] obtain ob where free: "links (view k1) ?n = None" "fds (view k1) fd = None"
    and ob: "ob \<notin> known (view k1)"
    and v2: "view k2 = (view k1)\<lparr>links := (links (view k1))(?n \<mapsto> ob), osize := (osize (view k1))(ob := 0),
               known := insert ob (known (view k1)), owned := insert ob (owned (view k1)), fds := (fds (view k1))(fd \<mapsto> ob)\<rparr>" by auto
  have v3: "0 \<le> sint bytes" "view k3 = (view k2)\<lparr>osize := (osize (view k2))(ob := sint bytes)\<rparr>"
    using ftruncate_law [OF tr, of ob] v2 by auto
  have links1: "(links (view k1))(?n \<mapsto> ob) = (links (view k))(?n \<mapsto> ob)"
    by (auto simp: fun_eq_iff k1_def)
  have ob': "ob \<notin> known (view k)"
    using ob by (simp add: k1_def)
  from mapAndClose_ok [OF mc, of ob] v2 v3
  obtain a where a: "s = \<lparr>addr_m = Some a, size_m = bytes, owner_m = True, name_m = name\<rparr>"
    and am: "maps (view k3) a = None"
    and v': "view k' = (view k3)\<lparr>fds := (fds (view k3))(fd := None), maps := (maps (view k3))(a \<mapsto> (ob, bytes))\<rparr>"
    by auto
  show ?thesis
  proof (rule that [OF a valid bytes v3(1) ob'])
    show "maps (view k) a = None" using am v3(2) v2 by (simp add: k1_def)
    show "view k' = (view k)\<lparr>links := (links (view k))(?n \<mapsto> ob), osize := (osize (view k))(ob := sint bytes),
            known := insert ob (known (view k)), owned := insert ob (owned (view k)), maps := (maps (view k))(a \<mapsto> (ob, bytes))\<rparr>"
      using free links1 by (simp add: v' v3(2) v2 fun_upd_idem) (simp add: k1_def)
  qed
qed

lemma seg_create_fail:
  assumes run: "seg_create P name bytes k = (Inl e, k')"
  shows "same_resources (view k) (view k') \<and>
         (\<forall>m. m \<noteq> c_str name \<longrightarrow> links (view k') m = links (view k) m) \<and>
         links (view k') (c_str name) \<in> {None, links (view k) (c_str name)}"
proof -
  let ?n = "c_str name"
  define k1 where "k1 = sys_shm_unlink P ?n k"
  have n1: "links (view k1) ?n \<in> {None, links (view k) ?n}"
    unfolding k1_def by (rule unlink_cases [of ?n k]) (auto simp: unlinked_def)
  consider (arg) "k' = k"
    | (creat) e' where "sys_shm_open P ?n [O_CREAT, O_EXCL, O_RDWR] 384 k1 = (Inl e', k')"
    | (truncating) fd k2 k3 e' where "sys_shm_open P ?n [O_CREAT, O_EXCL, O_RDWR] 384 k1 = (Inr fd, k2)"
        "sys_ftruncate P fd (sint bytes) k2 = (Some e', k3)"
        "k' = sys_shm_unlink P ?n (sys_close P fd k3)"
    | (mapping) fd k2 k3 where "sys_shm_open P ?n [O_CREAT, O_EXCL, O_RDWR] 384 k1 = (Inr fd, k2)"
        "sys_ftruncate P fd (sint bytes) k2 = (None, k3)"
        "mapAndClose P fd name bytes True k3 = (Inl e, k')"
    using run
    by (fastforce simp: seg_create_def Let_def k1_def split: sum.splits if_splits prod.splits option.splits)
  then show ?thesis
  proof cases
    case arg
    then show ?thesis by (simp add: same_resources_def)
  next
    case creat
    then have "view k' = view k1" by (rule open_fail_law)
    then show ?thesis using n1 by (simp add: same_resources_def k1_def)
  next
    case truncating
    obtain ob where fresh: "fds (view k1) fd = None"
      and v2: "view k2 = (view k1)\<lparr>links := (links (view k1))(?n \<mapsto> ob), osize := (osize (view k1))(ob := 0),
                known := insert ob (known (view k1)), owned := insert ob (owned (view k1)),
                fds := (fds (view k1))(fd \<mapsto> ob)\<rparr>"
      using open_creat_law [OF truncating(1)] by auto
    have c: "view (sys_close P fd k3) = (view k2)\<lparr>fds := (fds (view k2))(fd := None)\<rparr>"
      using ftruncate_fail_law [OF truncating(2)] close_law [of k3 fd ob] v2 by simp
    have "view k' = unlinked ?n (view (sys_close P fd k3))"
      unfolding truncating(3) by (rule unlink_own_law [of _ _ ob]) (simp_all add: c v2)
    then show ?thesis using fresh
      by (simp add: c v2 unlinked_def same_resources_def fun_upd_idem) (simp add: k1_def)
  next
    case mapping
    obtain ob where fresh: "fds (view k1) fd = None"
      and v2: "view k2 = (view k1)\<lparr>links := (links (view k1))(?n \<mapsto> ob), osize := (osize (view k1))(ob := 0),
                known := insert ob (known (view k1)), owned := insert ob (owned (view k1)),
                fds := (fds (view k1))(fd \<mapsto> ob)\<rparr>"
      using open_creat_law [OF mapping(1)] by auto
    have v3: "view k3 = (view k2)\<lparr>osize := (osize (view k2))(ob := sint bytes)\<rparr>"
      using ftruncate_law [OF mapping(2), of ob] v2 by simp
    have "view k' = unlinked ?n ((view k3)\<lparr>fds := (fds (view k3))(fd := None)\<rparr>)"
      using mapAndClose_fail [OF mapping(3), of ob] by (simp add: v3 v2)
    then show ?thesis using fresh
      by (simp add: v3 v2 unlinked_def same_resources_def fun_upd_idem) (simp add: k1_def)
  qed
qed

lemma seg_open_ok:
  assumes run: "seg_open P name k = (Inr s, k')"
  obtains ob a where "s = \<lparr>addr_m = Some a, size_m = word_of_int (osize (view k) ob), owner_m = False, name_m = name\<rparr>"
    and "links (view k) (c_str name) = Some ob" and "0 < osize (view k) ob" and "maps (view k) a = None"
    and "view k' = (view k)\<lparr>maps := (maps (view k))(a \<mapsto> (ob, word_of_int (osize (view k) ob)))\<rparr>"
proof -
  from run obtain fd k1 sz k2 where
    op: "sys_shm_open P (c_str name) [O_RDWR] 384 k = (Inr fd, k1)"
    and st: "sys_fstat P fd k1 = (Inr sz, k2)" and sz: "0 < sz"
    and mc: "mapAndClose P fd name (word_of_int sz) False k2 = (Inr s, k')"
    by (auto simp: seg_open_def Let_def split: sum.splits if_splits prod.splits)
  from open_law [OF op] obtain ob where fresh: "fds (view k) fd = None" and l: "links (view k) (c_str name) = Some ob"
    and v1: "view k1 = (view k)\<lparr>fds := (fds (view k))(fd \<mapsto> ob)\<rparr>" by auto
  have v2: "view k2 = view k1" "sz = osize (view k) ob"
    using fstat_law [OF st, of ob] v1 by auto
  have fd2: "fds (view k2) fd = Some ob" using v2 v1 by simp
  show ?thesis
  proof (rule mapAndClose_ok [OF mc fd2])
    fix a assume "s = \<lparr>addr_m = Some a, size_m = word_of_int sz, owner_m = False, name_m = name\<rparr>"
      "maps (view k2) a = None"
      "view k' = (view k2)\<lparr>fds := (fds (view k2))(fd := None), maps := (maps (view k2))(a \<mapsto> (ob, word_of_int sz))\<rparr>"
    then show ?thesis
      using that [of a ob] l sz v2 v1 fresh by (simp add: fun_upd_idem)
  qed
qed

lemma seg_open_fail:
  assumes run: "seg_open P name k = (Inl e, k')"
  shows "view k' = view k"
proof (cases "sys_shm_open P (c_str name) [O_RDWR] 384 k")
  case (Pair res k1)
  show ?thesis
  proof (cases res)
    case (Inl e')
    then show ?thesis using run Pair open_fail_law [of "c_str name" "[O_RDWR]" 384 k e' k1]
      by (auto simp: seg_open_def split: sum.splits)
  next
    case (Inr fd)
    with Pair open_law [of "c_str name" "[O_RDWR]" 384 k fd k1] obtain ob where fresh: "fds (view k) fd = None"
      and v1: "view k1 = (view k)\<lparr>fds := (fds (view k))(fd \<mapsto> ob)\<rparr>" by auto
    obtain st k2 where st: "sys_fstat P fd k1 = (st, k2)" by force
    have v2: "view k2 = view k1" using fstat_law [OF st, of ob] v1 by simp
    have close: "view (sys_close P fd k2) = view k"
      using close_law [of k2 fd ob] fresh by (simp add: v2 v1 fun_upd_idem)
    consider "k' = k" | "k' = sys_close P fd k2" | b where "mapAndClose P fd name b False k2 = (Inl e, k')"
      using run Pair Inr st
      by (auto simp: seg_open_def Let_def split: sum.splits if_splits prod.splits)
    then show ?thesis
    proof cases
      case 3
      then show ?thesis
        using mapAndClose_fail [OF 3, of ob] fresh by (simp add: v2 v1 fun_upd_idem)
    qed (simp_all add: close)
  qed
qed

lemma seg_exists_view:
  assumes run: "seg_exists P name k = (b, k')"
  shows "view k' = view k \<and> (b \<longrightarrow> links (view k) (c_str name) \<noteq> None)"
proof (cases "sys_shm_open P (c_str name) [O_RDONLY] 384 k")
  case (Pair res k1)
  show ?thesis
  proof (cases res)
    case (Inl e)
    then show ?thesis using run Pair open_fail_law [of "c_str name" "[O_RDONLY]" 384 k e k1]
      by (auto simp: seg_exists_def)
  next
    case (Inr fd)
    with Pair open_law [of "c_str name" "[O_RDONLY]" 384 k fd k1] obtain ob where fresh: "fds (view k) fd = None"
      and "links (view k) (c_str name) = Some ob"
      and v1: "view k1 = (view k)\<lparr>fds := (fds (view k))(fd \<mapsto> ob)\<rparr>" by auto
    moreover have "view (sys_close P fd k1) = view k"
      using close_law [of k1 fd ob] fresh by (simp add: v1 fun_upd_idem)
    ultimately show ?thesis using run Pair Inr by (auto simp: seg_exists_def)
  qed
qed

lemma seg_reset_view:
  assumes "seg_mapped (view k) s"
  shows "fds (view (snd (seg_reset P s k))) = fds (view k) \<and>
         maps (view (snd (seg_reset P s k))) =
           (case addr_m s of None \<Rightarrow> maps (view k) | Some a \<Rightarrow> (maps (view k))(a := None)) \<and>
         (\<forall>m. m \<noteq> c_str (name_m s) \<or> \<not> owner_m s \<longrightarrow>
            links (view (snd (seg_reset P s k))) m = links (view k) m)"
proof (cases "addr_m s")
  case None
  then show ?thesis by (auto simp: seg_reset_def Let_def)
next
  case (Some a)
  with assms obtain ob where "maps (view k) a = Some (ob, size_m s)"
    by (auto simp: seg_mapped_def)
  then have "view (sys_munmap P a (size_m s) k) = (view k)\<lparr>maps := (maps (view k))(a := None)\<rparr>"
    by (rule munmap_law)
  then show ?thesis using Some by (auto simp: seg_reset_def Let_def)
qed

lemma seg_reset_unlinks_own:
  assumes "seg_mapped (view k) s" "owner_m s" "name_m s \<noteq> []"
    and "links (view k) (c_str (name_m s)) = Some ob" "ob \<in> owned (view k)"
  shows "links (view (snd (seg_reset P s k))) (c_str (name_m s)) = None"
proof -
  define k1 where "k1 = (case addr_m s of Some a \<Rightarrow> sys_munmap P a (size_m s) k | None \<Rightarrow> k)"
  have "links (view k1) = links (view k)" "owned (view k1) = owned (view k)"
    using assms(1) munmap_law by (auto simp: k1_def seg_mapped_def split: option.splits)
  then have "view (sys_shm_unlink P (c_str (name_m s)) k1) = unlinked (c_str (name_m s)) (view k1)"
    using assms by (intro unlink_own_law) simp_all
  moreover have "snd (seg_reset P s k) = sys_shm_unlink P (c_str (name_m s)) k1"
    using assms by (auto simp: seg_reset_def k1_def Let_def split: option.splits)
  ultimately show ?thesis by (simp add: unlinked_def)
qed

end

subsection \<open>Equations of the operations that need no law\<close>

lemma seg_reset_empty [simp]: "fst (seg_reset P s k) = ShmSegment"
  by (simp add: seg_reset_def ShmSegment_def Let_def split: option.splits prod.splits)

lemma seg_reset_ShmSegment [simp]: "seg_reset P ShmSegment k = (ShmSegment, k)"
  by (simp add: seg_reset_def ShmSegment_def)

lemma seg_swap_eq [simp]: "seg_swap s t = (t, s)"
  by (simp add: seg_swap_def)

lemma seg_move_eq [simp]: "seg_move s = (s, ShmSegment)"
  by (simp add: seg_move_def)

lemma seg_move_assign_eq:
  "seg_move_assign P same dst src k =
     (if same then (dst, src, k) else (src, ShmSegment, snd (seg_reset P dst k)))"
  by (simp add: seg_move_assign_def split: prod.splits)

lemma validateName_ok_iff:
  "validateName name = Inr () \<longleftrightarrow>
     2 \<le> length name \<and> length name \<le> 31 \<and> hd name = CHR ''/'' \<and> CHR ''/'' \<notin> set (tl name)"
  by (cases name) (auto simp: validateName_def kMaxShmNameLen_def Suc_le_eq)

subsection \<open>A kernel that keeps the promises\<close>

text \<open>
  \<open>ref_posix ef\<close> is a single-process kernel in which the calls named by \<open>ef\<close> fail. It
  shows that the laws of \<open>posix_shm\<close> can hold together, whatever calls fail.
\<close>

datatype kcall = Call_creat | Call_open | Call_ftruncate | Call_fstat | Call_mmap

record kst =
  kv :: kview
  fresh :: nat

definition kst_init :: kst where
  "kst_init = \<lparr>kv = \<lparr>links = Map.empty, osize = (\<lambda>_. 0), known = {}, owned = {},
                     fds = Map.empty, maps = Map.empty\<rparr>, fresh = 1\<rparr>"

definition ref_open :: "(kcall \<Rightarrow> errno option) \<Rightarrow> string \<Rightarrow> oflag list \<Rightarrow> nat \<Rightarrow> kst \<Rightarrow> (errno + fd) \<times> kst" where
  "ref_open ef n fl md k =
     (let v = kv k; i = fresh k in
      if fds v i \<noteq> None \<or> i \<in> known v then (Inl 24, k)
      else if O_CREAT \<in> set fl then
        (case ef Call_creat of
           Some e \<Rightarrow> (Inl e, k)
         | None \<Rightarrow>
             if links v n \<noteq> None then (Inl 17, k)
             else (Inr i, \<lparr>kv = v\<lparr>links := (links v)(n \<mapsto> i), osize := (osize v)(i := 0),
                             known := insert i (known v), owned := insert i (owned v),
                             fds := (fds v)(i \<mapsto> i)\<rparr>, fresh = i + 1\<rparr>))
      else
        (case ef Call_open of
           Some e \<Rightarrow> (Inl e, k)
         | None \<Rightarrow>
             (case links v n of
                None \<Rightarrow> (Inl 2, k)
              | Some ob \<Rightarrow> (Inr i, \<lparr>kv = v\<lparr>fds := (fds v)(i \<mapsto> ob)\<rparr>, fresh = i + 1\<rparr>))))"

definition ref_posix :: "(kcall \<Rightarrow> errno option) \<Rightarrow> kst posix" where
  "ref_posix ef =
     \<lparr>sys_shm_unlink = (\<lambda>n k. k\<lparr>kv := unlinked n (kv k)\<rparr>),
      sys_shm_open = ref_open ef,
      sys_ftruncate = (\<lambda>fd len k.
        case (ef Call_ftruncate, fds (kv k) fd) of
          (Some e, _) \<Rightarrow> (Some e, k)
        | (None, None) \<Rightarrow> (Some 9, k)
        | (None, Some ob) \<Rightarrow>
            if len < 0 then (Some 22, k)
            else (None, k\<lparr>kv := (kv k)\<lparr>osize := (osize (kv k))(ob := len)\<rparr>\<rparr>)),
      sys_fstat = (\<lambda>fd k.
        case (ef Call_fstat, fds (kv k) fd) of
          (Some e, _) \<Rightarrow> (Inl e, k)
        | (None, None) \<Rightarrow> (Inl 9, k)
        | (None, Some ob) \<Rightarrow> (Inr (osize (kv k) ob), k)),
      sys_mmap = (\<lambda>bytes fd k.
        case (ef Call_mmap, fds (kv k) fd) of
          (Some e, _) \<Rightarrow> (Inl e, k)
        | (None, None) \<Rightarrow> (Inl 9, k)
        | (None, Some ob) \<Rightarrow>
            (case maps (kv k) (fresh k) of
               Some _ \<Rightarrow> (Inl 12, k)
             | None \<Rightarrow> (Inr (fresh k),
                  \<lparr>kv = (kv k)\<lparr>maps := (maps (kv k))(fresh k \<mapsto> (ob, bytes))\<rparr>, fresh = fresh k + 1\<rparr>))),
      sys_munmap = (\<lambda>a bytes k. k\<lparr>kv := (kv k)\<lparr>maps := (maps (kv k))(a := None)\<rparr>\<rparr>),
      sys_close = (\<lambda>fd k. k\<lparr>kv := (kv k)\<lparr>fds := (fds (kv k))(fd := None)\<rparr>\<rparr>),
      backing = (\<lambda>k a. map_option fst (maps (kv k) a))\<rparr>"

interpretation refk: posix_shm "ref_posix ef" kv for ef
  by unfold_locales
    (auto simp: ref_posix_def ref_open_def Let_def split: option.splits if_splits prod.splits)

subsection \<open>Properties\<close>

lemmas seg_eval = seg_create_def seg_open_def mapAndClose_def validateName_ok_iff validateName_def
  kMaxShmNameLen_def c_str_def ref_posix_def ref_open_def kst_init_def unlinked_def Let_def

lemma ref_create_runs:
  "\<exists>s k'. seg_create (ref_posix (\<lambda>_. None)) ''/q'' 4096 kst_init = (Inr s, k')"
  by (simp add: seg_eval)

lemma ref_create_mmap_fails:
  "\<exists>e k'. seg_create (ref_posix (\<lambda>c. if c = Call_mmap then Some 12 else None)) ''/q'' 4096 kst_init = (Inl e, k')"
  by (simp add: seg_eval)



text \<open>
  C29. \<^verbatim>\<open>ShmSegment::create\<close>, whichever call fails (bad name, zero size, \<^verbatim>\<open>shm_open\<close>,
  \<^verbatim>\<open>ftruncate\<close>, \<^verbatim>\<open>mmap\<close>), leaks neither a descriptor nor a mapping, leaves every other name
  alone, and leaves the requested name either unlinked or as it was, never bound to a
  half-initialised object.
\<close>

theorem seg_create_failure_leaks_nothing:
  assumes "posix_shm P view" and "seg_create P name bytes k = (Inl e, k')"
  shows "same_resources (view k) (view k') \<and>
         (\<forall>m. m \<noteq> c_str name \<longrightarrow> links (view k') m = links (view k) m) \<and>
         links (view k') (c_str name) \<in> {None, links (view k) (c_str name)}"
  by (rule posix_shm.seg_create_fail [OF assms])

theorem seg_create_failure_leaks_nothing_witness:
  "\<exists>e k'. seg_create (ref_posix (\<lambda>c. if c = Call_mmap then Some 12 else None)) ''/q'' 4096 kst_init = (Inl e, k') \<and>
     same_resources (kv kst_init) (kv k') \<and> links (kv k') ''/q'' = None"
proof -
  obtain e k' where run:
    "seg_create (ref_posix (\<lambda>c. if c = Call_mmap then Some 12 else None)) ''/q'' 4096 kst_init = (Inl e, k')"
    using ref_create_mmap_fails by blast
  show ?thesis
    using seg_create_failure_leaks_nothing [OF refk.posix_shm_axioms run] run
    by (auto simp: c_str_def kst_init_def)
qed

text \<open>
  \<^verbatim>\<open>ShmSegment::open\<close> never creates, resizes or unlinks anything: on success it maps the whole
  of the object the name is linked to and returns a segment that does not own it; on failure the
  kernel looks exactly as before.
\<close>

theorem seg_open_only_maps:
  assumes "posix_shm P view" and "seg_open P name k = (res, k')"
  shows "case res of
           Inl e \<Rightarrow> view k' = view k
         | Inr s \<Rightarrow> \<exists>ob a. links (view k) (c_str name) = Some ob \<and> 0 < osize (view k) ob \<and>
             s = \<lparr>addr_m = Some a, size_m = word_of_int (osize (view k) ob), owner_m = False, name_m = name\<rparr> \<and>
             maps (view k) a = None \<and>
             view k' = (view k)\<lparr>maps := (maps (view k))(a \<mapsto> (ob, word_of_int (osize (view k) ob)))\<rparr>"
proof (cases res)
  case (Inl e)
  then show ?thesis using posix_shm.seg_open_fail [OF assms(1), of name k e k'] assms(2) by simp
next
  case (Inr s)
  show ?thesis
    by (rule posix_shm.seg_open_ok [OF assms(1), of name k s k']) (use assms(2) Inr in auto)
qed

theorem seg_open_only_maps_witness:
  "\<exists>s k'. seg_open (ref_posix (\<lambda>_. None)) ''/q''
            (kst_init\<lparr>kv := (kv kst_init)\<lparr>links := [''/q'' \<mapsto> 0], osize := (\<lambda>_. 4096)\<rparr>\<rparr>) = (Inr s, k') \<and>
          size_m s = 4096 \<and> \<not> owner_m s \<and> links (kv k') = [''/q'' \<mapsto> 0]"
proof -
  let ?k = "kst_init\<lparr>kv := (kv kst_init)\<lparr>links := [''/q'' \<mapsto> 0], osize := (\<lambda>_. 4096)\<rparr>\<rparr>"
  obtain s k' where run: "seg_open (ref_posix (\<lambda>_. None)) ''/q'' ?k = (Inr s, k')"
    by (simp add: seg_eval)
  show ?thesis
    using seg_open_only_maps [OF refk.posix_shm_axioms run] run by (auto simp: c_str_def)
qed

text \<open>
  The lifetime of an owning segment is closed: \<^verbatim>\<open>reset\<close> (the destructor) after a successful
  \<^verbatim>\<open>create\<close> gives back the mapping and the name, so descriptors, mappings and every other name
  are as before the creation, and the name is free. A second \<^verbatim>\<open>reset\<close> does nothing.
\<close>

theorem seg_create_reset_roundtrip:
  assumes "posix_shm P view" and "seg_create P name bytes k = (Inr s, k1)"
    and "seg_reset P s k1 = (s2, k2)"
  shows "s2 = ShmSegment \<and> same_resources (view k) (view k2) \<and>
         links (view k2) = (links (view k))(c_str name := None) \<and> seg_reset P s2 k2 = (s2, k2)"
proof -
  from posix_shm.seg_create_ok [OF assms(1,2)] obtain ob a where
    s: "s = \<lparr>addr_m = Some a, size_m = bytes, owner_m = True, name_m = name\<rparr>"
    and name: "validateName name = Inr ()" and a: "maps (view k) a = None"
    and v: "view k1 = (view k)\<lparr>links := (links (view k))(c_str name \<mapsto> ob),
              osize := (osize (view k))(ob := sint bytes), known := insert ob (known (view k)),
              owned := insert ob (owned (view k)), maps := (maps (view k))(a \<mapsto> (ob, bytes))\<rparr>"
    by metis
  have m: "seg_mapped (view k1) s" by (simp add: s v seg_mapped_def)
  have k2: "k2 = snd (seg_reset P s k1)" and s2: "s2 = ShmSegment"
    using assms(3) seg_reset_empty [of P s k1] by auto
  have "name \<noteq> []" using name by (auto simp: validateName_ok_iff)
  then have "links (view k2) (c_str name) = None"
    unfolding k2 using posix_shm.seg_reset_unlinks_own [OF assms(1) m, of ob] by (simp add: s v)
  moreover note posix_shm.seg_reset_view [OF assms(1) m, folded k2]
  ultimately show ?thesis using s2 a
    by (auto simp: s v same_resources_def fun_upd_idem fun_eq_iff)
qed

theorem seg_create_reset_roundtrip_witness:
  "\<exists>s k1 s2 k2. seg_create (ref_posix (\<lambda>_. None)) ''/q'' 4096 kst_init = (Inr s, k1) \<and>
     seg_reset (ref_posix (\<lambda>_. None)) s k1 = (s2, k2) \<and> s2 = ShmSegment \<and>
     same_resources (kv kst_init) (kv k2) \<and> links (kv k2) ''/q'' = None"
proof -
  obtain s k1 where run: "seg_create (ref_posix (\<lambda>_. None)) ''/q'' 4096 kst_init = (Inr s, k1)"
    using ref_create_runs by blast
  obtain s2 k2 where reset: "seg_reset (ref_posix (\<lambda>_. None)) s k1 = (s2, k2)" by force
  show ?thesis
    using seg_create_reset_roundtrip [OF refk.posix_shm_axioms run reset] run reset
    by (auto simp: c_str_def)
qed

text \<open>
  Move assignment hands the source's mapping over without a leak: the target's old mapping (and
  only that) is unmapped, no descriptor changes, the target holds what the source held and the
  source is empty, so its destructor does nothing. Assigning a segment to itself changes nothing.
\<close>

theorem seg_move_assign_transfers:
  assumes "posix_shm P view" and "seg_mapped (view k) dst"
    and "seg_move_assign P same dst src k = (dst', src', k')"
  shows "if same then dst' = dst \<and> src' = src \<and> k' = k
         else dst' = src \<and> src' = ShmSegment \<and> seg_reset P src' k' = (src', k') \<and>
              fds (view k') = fds (view k) \<and>
              maps (view k') = (case addr_m dst of None \<Rightarrow> maps (view k) | Some a \<Rightarrow> (maps (view k))(a := None))"
  using assms(3) posix_shm.seg_reset_view [OF assms(1,2)] by (auto simp: seg_move_assign_eq split: if_splits)

theorem seg_move_assign_transfers_witness:
  "\<exists>s k1 dst' src' k'. seg_create (ref_posix (\<lambda>_. None)) ''/q'' 4096 kst_init = (Inr s, k1) \<and>
     seg_move_assign (ref_posix (\<lambda>_. None)) False ShmSegment s k1 = (dst', src', k') \<and>
     dst' = s \<and> src' = ShmSegment \<and> maps (kv k') = maps (kv k1)"
proof -
  obtain s k1 where run: "seg_create (ref_posix (\<lambda>_. None)) ''/q'' 4096 kst_init = (Inr s, k1)"
    using ref_create_runs by blast
  have m: "seg_mapped (kv k1) ShmSegment" by (simp add: seg_mapped_def ShmSegment_def)
  obtain dst' src' k' where mv:
    "seg_move_assign (ref_posix (\<lambda>_. None)) False ShmSegment s k1 = (dst', src', k')"
    using prod_cases3 by blast
  show ?thesis
    using seg_move_assign_transfers [OF refk.posix_shm_axioms m mv] run mv by (auto simp: ShmSegment_def)
qed

end
