(* ===== verification/Layout.thy ===== *)
theory Layout
  imports Segment
begin

section \<open>ControlBlock: the wire format and the geometry of a segment\<close>

text \<open>
  Lines 26--93 and 137--148 of \<^verbatim>\<open>include/shmspsc/ShmSpscQueue.h\<close>: the cache line constant, the
  control block as a record of its fields, the layout the compiler gives it (offsets, size and
  alignment by the rules for standard-layout classes), its bytes in memory, and
  \<^verbatim>\<open>bytesNeeded\<close>. What one compilation fixes (cache line, \<^verbatim>\<open>sizeof(T)\<close>, \<^verbatim>\<open>alignof(T)\<close>) is the
  record \<open>binary\<close>, so that two processes may be built differently.
\<close>

definition SHMSPSC_CACHE_LINE_SIZE :: "bool \<Rightarrow> bool \<Rightarrow> nat" where
  "SHMSPSC_CACHE_LINE_SIZE apple aarch64 = (if apple \<and> aarch64 then 128 else 64)"

record binary =
  kCacheLine :: nat
  sizeof_T :: u64
  alignof_T :: u64

record control_block =
  magic :: u64
  capacity :: u64
  totalBytes :: u64
  version :: u32
  cacheLineSize :: u32
  elemSize :: u32
  elemAlign :: u32
  slotsOffset :: u32
  producerPid :: i32
  consumerPid :: i32
  ready :: u32
  writeIdx :: u64
  readIdx :: u64

subsection \<open>Offsets, size and alignment\<close>

text \<open>
  Members in declaration order with their size and alignment; each is placed at the next
  multiple of its alignment, and the size is rounded up to the largest alignment.
\<close>

type_synonym member = "string \<times> nat \<times> nat"

definition align_up :: "nat \<Rightarrow> nat \<Rightarrow> nat" where
  "align_up n a = (n + a - 1) div a * a"

fun place :: "nat \<Rightarrow> member list \<Rightarrow> (string \<times> nat) list" where
  "place off [] = []"
| "place off ((f, sz, al) # ms) = (f, align_up off al) # place (align_up off al + sz) ms"

fun end_of :: "nat \<Rightarrow> member list \<Rightarrow> nat" where
  "end_of off [] = off"
| "end_of off ((f, sz, al) # ms) = end_of (align_up off al + sz) ms"

definition ControlBlock :: "nat \<Rightarrow> member list" where
  "ControlBlock line =
     [(''magic'', 8, 8), (''capacity'', 8, 8), (''totalBytes'', 8, 8),
      (''version'', 4, 4), (''cacheLineSize'', 4, 4), (''elemSize'', 4, 4), (''elemAlign'', 4, 4),
      (''slotsOffset'', 4, 4), (''producerPid'', 4, 4), (''consumerPid'', 4, 4), (''ready'', 4, 4),
      (''pad0_'', line - 56, 1),
      (''writeIdx'', 8, line), (''pad1_'', line - 8, 1),
      (''readIdx'', 8, line), (''pad2_'', line - 8, 1),
      (''pad3_'', line, line)]"

definition offsets_of_block :: "nat \<Rightarrow> string \<rightharpoonup> nat" where
  "offsets_of_block line = map_of (place 0 (ControlBlock line))"

definition alignof_block :: "nat \<Rightarrow> nat" where
  "alignof_block line = Max (set (line # map (\<lambda>(f, sz, al). al) (ControlBlock line)))"

definition sizeof_block :: "nat \<Rightarrow> nat" where
  "sizeof_block line = align_up (end_of 0 (ControlBlock line)) (alignof_block line)"

definition sizeof_ControlBlock :: "binary \<Rightarrow> u64" where
  "sizeof_ControlBlock b = of_nat (sizeof_block (kCacheLine b))"

subsection \<open>The block in memory\<close>

fun le_bytes :: "nat \<Rightarrow> nat \<Rightarrow> 8 word list" where
  "le_bytes 0 x = []"
| "le_bytes (Suc n) x = of_nat x # le_bytes n (x div 256)"

fun le_value :: "8 word list \<Rightarrow> nat" where
  "le_value [] = 0"
| "le_value (b # bs) = unat b + 256 * le_value bs"

definition encode_block :: "nat \<Rightarrow> control_block \<Rightarrow> 8 word list" where
  "encode_block line c =
     le_bytes 8 (unat (magic c)) @ le_bytes 8 (unat (capacity c)) @ le_bytes 8 (unat (totalBytes c)) @
     le_bytes 4 (unat (version c)) @ le_bytes 4 (unat (cacheLineSize c)) @
     le_bytes 4 (unat (elemSize c)) @ le_bytes 4 (unat (elemAlign c)) @
     le_bytes 4 (unat (slotsOffset c)) @ le_bytes 4 (unat (producerPid c)) @
     le_bytes 4 (unat (consumerPid c)) @ le_bytes 4 (unat (ready c)) @ replicate (line - 56) 0 @
     le_bytes 8 (unat (writeIdx c)) @ replicate (line - 8) 0 @
     le_bytes 8 (unat (readIdx c)) @ replicate (line - 8) 0 @ replicate line 0"

definition read_field :: "nat \<Rightarrow> string \<Rightarrow> nat \<Rightarrow> 8 word list \<Rightarrow> nat" where
  "read_field line f sz bs =
     (case offsets_of_block line f of None \<Rightarrow> 0 | Some off \<Rightarrow> le_value (take sz (drop off bs)))"

definition decode_block :: "nat \<Rightarrow> 8 word list \<Rightarrow> control_block" where
  "decode_block line bs =
     \<lparr>magic = of_nat (read_field line ''magic'' 8 bs),
      capacity = of_nat (read_field line ''capacity'' 8 bs),
      totalBytes = of_nat (read_field line ''totalBytes'' 8 bs),
      version = of_nat (read_field line ''version'' 4 bs),
      cacheLineSize = of_nat (read_field line ''cacheLineSize'' 4 bs),
      elemSize = of_nat (read_field line ''elemSize'' 4 bs),
      elemAlign = of_nat (read_field line ''elemAlign'' 4 bs),
      slotsOffset = of_nat (read_field line ''slotsOffset'' 4 bs),
      producerPid = of_nat (read_field line ''producerPid'' 4 bs),
      consumerPid = of_nat (read_field line ''consumerPid'' 4 bs),
      ready = of_nat (read_field line ''ready'' 4 bs),
      writeIdx = of_nat (read_field line ''writeIdx'' 8 bs),
      readIdx = of_nat (read_field line ''readIdx'' 8 bs)\<rparr>"

subsection \<open>bytesNeeded\<close>

text \<open>\<^verbatim>\<open>std::to_string\<close> of an unsigned value.\<close>

fun to_string :: "nat \<Rightarrow> string" where
  "to_string n = (if n < 10 then [char_of (48 + n)] else to_string (n div 10) @ [char_of (48 + n mod 10)])"

declare to_string.simps [simp del]

definition bytesNeeded :: "binary \<Rightarrow> u64 \<Rightarrow> exn + u64" where
  "bytesNeeded b cap =
     (let kMax = (- 1 :: u64) in
      if cap = kMax \<or> cap + 1 > (kMax - sizeof_ControlBlock b) div sizeof_T b
      then Inl (Invalid_argument (''capacity '' @ to_string (unat cap) @ '' x '' @
                  to_string (unat (sizeof_T b)) @ '' bytes overflows size_t''))
      else Inr (sizeof_ControlBlock b + (cap + 1) * sizeof_T b))"

text \<open>
  What the \<^verbatim>\<open>static_assert\<close>s of the headers and the compiler's rules for \<^verbatim>\<open>alignas\<close> demand of a
  compilation: a cache line that leaves room for line 0, an element that is not over-aligned.
\<close>

definition binary_ok :: "binary \<Rightarrow> bool" where
  "binary_ok b \<longleftrightarrow>
     56 < kCacheLine b \<and> kCacheLine b \<le> 65536 \<and> 8 dvd kCacheLine b \<and>
     0 < sizeof_T b \<and> 0 < alignof_T b \<and>
     unat (alignof_T b) dvd unat (sizeof_T b) \<and> unat (alignof_T b) dvd kCacheLine b"

subsection \<open>The layout, computed\<close>

lemma align_up_fix [simp]: "0 < a \<Longrightarrow> a dvd n \<Longrightarrow> align_up n a = n"
proof -
  assume a: "0 < a" "a dvd n"
  then obtain k where n: "n = k * a" by (metis dvd_def mult.commute)
  have "(k * a + a - 1) div a = k"
    using a(1) by (metis Suc_pred' add_diff_assoc diff_less div_less div_mult_self3 add.commute
        add.right_neutral leI less_one not_less_eq zero_less_diff)
  then show ?thesis by (simp add: align_up_def n)
qed

lemma align_up_1 [simp]: "align_up n (Suc 0) = n"
  by (simp add: align_up_def)

lemma block_places:
  assumes "56 < line" "8 dvd line"
  shows "place 0 (ControlBlock line) =
    [(''magic'', 0), (''capacity'', 8), (''totalBytes'', 16),
     (''version'', 24), (''cacheLineSize'', 28), (''elemSize'', 32), (''elemAlign'', 36),
     (''slotsOffset'', 40), (''producerPid'', 44), (''consumerPid'', 48), (''ready'', 52),
     (''pad0_'', 56), (''writeIdx'', line), (''pad1_'', line + 8),
     (''readIdx'', 2 * line), (''pad2_'', 2 * line + 8), (''pad3_'', 3 * line)]
   \<and> end_of 0 (ControlBlock line) = 4 * line"
proof -
  have s: "line + 8 + (line - 8) = 2 * line" "2 * line + 8 + (line - 8) = 3 * line" "56 + (line - 56) = line"
    using assms by simp_all
  show ?thesis using assms by (simp add: ControlBlock_def s)
qed

lemma alignof_block_eq: "56 < line \<Longrightarrow> alignof_block line = line"
  by (simp add: alignof_block_def ControlBlock_def)

lemma sizeof_block_eq: "56 < line \<Longrightarrow> 8 dvd line \<Longrightarrow> sizeof_block line = 4 * line"
  using block_places [of line] by (simp add: sizeof_block_def alignof_block_eq)

lemma unat_sizeof_ControlBlock:
  "binary_ok b \<Longrightarrow> unat (sizeof_ControlBlock b) = 4 * kCacheLine b"
proof -
  assume b: "binary_ok b"
  have "unat (of_nat (4 * kCacheLine b) :: u64) = 4 * kCacheLine b"
    using b by (intro unat_of_nat_u64) (simp add: binary_ok_def)
  with b show ?thesis
    by (simp only: binary_ok_def sizeof_ControlBlock_def sizeof_block_eq)
qed

text \<open>
  C24. For every cache line size a compilation can have, the compiler's layout of \<^verbatim>\<open>ControlBlock\<close>
  satisfies the \<^verbatim>\<open>static_assert\<close>s: four lines long and line-aligned, each index at the start of
  its own line, no implicit padding in line 0 (which ends at byte 56), and slot 0 a line beyond
  the consumer's.
\<close>

theorem ControlBlock_static_asserts:
  assumes "56 < line" and "8 dvd line"
  shows "sizeof_block line = 4 * line \<and> alignof_block line = line \<and>
         offsets_of_block line ''pad0_'' = Some 56 \<and> offsets_of_block line ''writeIdx'' = Some line \<and>
         offsets_of_block line ''readIdx'' = Some (2 * line) \<and> offsets_of_block line ''pad3_'' = Some (3 * line)"
  using assms block_places [OF assms] by (simp add: sizeof_block_eq alignof_block_eq offsets_of_block_def)

theorem ControlBlock_static_asserts_witness:
  "sizeof_block (SHMSPSC_CACHE_LINE_SIZE True True) = 512 \<and>
   offsets_of_block (SHMSPSC_CACHE_LINE_SIZE False False) ''readIdx'' = Some 128"
  using ControlBlock_static_asserts [of 128] ControlBlock_static_asserts [of 64]
  by (simp add: SHMSPSC_CACHE_LINE_SIZE_def)

subsection \<open>Bytes\<close>

lemma length_le_bytes [simp]: "length (le_bytes n x) = n"
  by (induction n arbitrary: x) auto

lemma le_value_bytes: "le_value (le_bytes n x) = x mod 256 ^ n"
proof (induction n arbitrary: x)
  case 0
  then show ?case by simp
next
  case (Suc n)
  have "le_value (le_bytes (Suc n) x) = x mod 256 + 256 * (x div 256 mod 256 ^ n)"
    by (simp add: Suc unat_of_nat)
  also have "\<dots> = x mod (256 * 256 ^ n)"
    by (simp add: mod_mult2_eq)
  finally show ?case by simp
qed

lemma le_value_u64 [simp]: "le_value (le_bytes 8 (unat (x :: u64))) = unat x"
  by (simp add: le_value_bytes)

lemma unat_u32_less [simp]: "unat (x :: u32) < 4294967296"
proof -
  have "unat x < 2 ^ LENGTH(32)" by (rule unsigned_less)
  then show ?thesis by simp
qed

lemma le_value_u32 [simp]: "le_value (le_bytes 4 (unat (x :: u32))) = unat x"
  by (simp add: le_value_bytes)

lemma length_encode_block: "56 < line \<Longrightarrow> length (encode_block line c) = 4 * line"
  by (simp add: encode_block_def)

definition sample_block :: control_block where
  "sample_block =
     \<lparr>magic = 1, capacity = 8, totalBytes = 576, version = 1, cacheLineSize = 128, elemSize = 8,
      elemAlign = 8, slotsOffset = 512, producerPid = 4711, consumerPid = - 1, ready = 1,
      writeIdx = 7, readIdx = 3\<rparr>"

text \<open>
  The control block is a faithful wire format: a process that maps the bytes another process
  of the same cache line size wrote reads back every field unchanged.
\<close>

theorem decode_encode_block:
  assumes "56 < line" and "8 dvd line"
  shows "decode_block line (encode_block line c) = c"
  using block_places [OF assms] assms(1)
  by (simp add: decode_block_def read_field_def offsets_of_block_def encode_block_def)

theorem decode_encode_block_witness:
  "decode_block 64 (encode_block 64 sample_block) = sample_block"
  by (rule decode_encode_block) simp_all

text \<open>
  What \<^verbatim>\<open>validate()\<close> reads first lies at offsets that do not depend on the cache line size: a
  process built for another line size still reads the true magic number, version, cache line
  size and \<^verbatim>\<open>ready\<close> flag, although its idea of where the indices are is wrong.
\<close>

theorem line0_readable_across_line_sizes:
  assumes "56 < line" "8 dvd line" and "56 < line'" "8 dvd line'"
  shows "let d = decode_block line' (encode_block line c) in
         magic d = magic c \<and> version d = version c \<and> cacheLineSize d = cacheLineSize c \<and> ready d = ready c"
  using block_places [OF assms(3,4)] assms(1)
  unfolding Let_def decode_block_def control_block.select_convs
  by (simp add: read_field_def offsets_of_block_def encode_block_def)

theorem line0_readable_across_line_sizes_witness:
  "cacheLineSize (decode_block 64 (encode_block 128 sample_block)) = 128"
  using line0_readable_across_line_sizes [of 128 64 sample_block] by (simp add: Let_def sample_block_def)

subsection \<open>The size of a segment\<close>

lemma unat_all_ones [simp]: "unat (- 1 :: u64) = 18446744073709551615"
  by (simp add: unsigned_minus_1_eq_mask mask_eq_exp_minus_1)

text \<open>
  C23. \<^verbatim>\<open>bytesNeeded\<close> never wraps around: what it returns is the true size of the control block and
  \<^verbatim>\<open>capacity + 1\<close> elements, and it throws exactly when that size does not fit \<^verbatim>\<open>size_t\<close>.
\<close>

theorem bytesNeeded_exact:
  assumes "binary_ok b"
  shows "let size = 4 * kCacheLine b + (unat cap + 1) * unat (sizeof_T b) in
         case bytesNeeded b cap of
           Inr n \<Rightarrow> unat n = size
         | Inl e \<Rightarrow> 2 ^ 64 \<le> size"
proof -
  define t where "t = unat (sizeof_T b)"
  have S: "unat (sizeof_ControlBlock b) = 4 * kCacheLine b" "4 * kCacheLine b \<le> 262144"
    using assms unat_sizeof_ControlBlock by (simp_all add: binary_ok_def)
  have t: "0 < t" using assms by (simp add: binary_ok_def t_def word_less_nat_alt)
  show ?thesis
  proof (cases "cap = - 1")
    case True
    have "2 ^ 64 \<le> 4 * kCacheLine b + 2 ^ 64 * t" using t by simp
    then show ?thesis using True by (simp add: bytesNeeded_def Let_def flip: t_def)
  next
    case False
    have "unat cap \<noteq> 18446744073709551615"
      using False by (metis unat_all_ones unsigned_word_eqI)
    then have "unat cap + 1 < 18446744073709551616" using unat_u64_less [of cap] by linarith
    then have c1: "unat (cap + 1) = unat cap + 1" by (simp add: unat_word_ariths)
    have m: "unat ((- 1 :: u64) - sizeof_ControlBlock b) = 18446744073709551615 - 4 * kCacheLine b"
      using S by (subst unat_sub) (simp_all add: word_le_nat_alt)
    have gt: "cap + 1 > ((- 1) - sizeof_ControlBlock b) div sizeof_T b \<longleftrightarrow>
              18446744073709551615 - 4 * kCacheLine b < (unat cap + 1) * t"
      using t by (simp only: word_less_nat_alt unat_div_distrib c1 m flip: t_def)
        (simp only: div_less_iff_less_mult)
    show ?thesis
    proof (cases "cap + 1 > ((- 1) - sizeof_ControlBlock b) div sizeof_T b")
      case True
      then have "2 ^ 64 \<le> 4 * kCacheLine b + (unat cap + 1) * t"
        using gt S by simp
      then show ?thesis using True False by (simp add: bytesNeeded_def Let_def flip: t_def)
    next
      case no: False
      then have le: "(unat cap + 1) * t \<le> 18446744073709551615 - 4 * kCacheLine b"
        using gt by simp
      then have "unat ((cap + 1) * sizeof_T b) = (unat cap + 1) * t"
        by (simp add: unat_word_ariths(2) c1 flip: t_def)
      then have "unat (sizeof_ControlBlock b + (cap + 1) * sizeof_T b) = 4 * kCacheLine b + (unat cap + 1) * t"
        using le S by (simp add: unat_word_ariths(1))
      then show ?thesis using no False by (simp add: bytesNeeded_def Let_def flip: t_def)
    qed
  qed
qed

theorem bytesNeeded_exact_witness:
  "(\<exists>e. bytesNeeded \<lparr>kCacheLine = 64, sizeof_T = 48, alignof_T = 8\<rparr> 9223372036854775807 = Inl e) \<and>
   bytesNeeded \<lparr>kCacheLine = 64, sizeof_T = 8, alignof_T = 8\<rparr> 8 = Inr 328"
proof -
  have big: "\<not> unat (n :: u64) = 442721857769029239040" for n
    using unat_u64_less [of n] by linarith
  have small: "n = 328" if "unat (n :: u64) = 328" for n
    using that by (simp add: unsigned_word_eqI)
  show ?thesis
    using bytesNeeded_exact [of "\<lparr>kCacheLine = 64, sizeof_T = 48, alignof_T = 8\<rparr>" 9223372036854775807]
      bytesNeeded_exact [of "\<lparr>kCacheLine = 64, sizeof_T = 8, alignof_T = 8\<rparr>" 8] big small
    by (auto simp: binary_ok_def split: sum.splits)
qed

end
