(* ===== verification/Ring.thy ===== *)
theory Ring
  imports Layout
begin

section \<open>The ring: push, pop, batches and peeks on one handle\<close>

text \<open>
  The data path of \<^verbatim>\<open>ShmSpscQueue<T>\<close> (lines 211--321, 354--375 and 506--524 of
  \<^verbatim>\<open>include/shmspsc/ShmSpscQueue.h\<close>). A handle is the record \<open>queue\<close>, one field per member
  (a member \<^verbatim>\<open>x_\<close> of the class is the field \<open>x_m\<close>); the segment its \<^verbatim>\<open>ctrl_\<close> and
  \<^verbatim>\<open>slots_\<close> point into is the record \<open>shm\<close>, the control block and the array of elements.
  Operations take both and return both. An element access or \<^verbatim>\<open>memcpy\<close> outside an array is the
  fault \<open>OutOfBounds\<close>; a failed \<^verbatim>\<open>assert\<close> is \<open>AssertFailed\<close>.
\<close>

record 'a shm =
  block :: control_block
  slots :: "'a list"

datatype role = Producer | Consumer

record queue =
  seg_m :: shm_segment
  ctrl_m :: "addr option"
  slots_m :: "addr option"
  capacity_m :: u64
  role_m :: role
  bound_m :: bool
  readIdxCache_m :: u64
  writeIdxCache_m :: u64

definition ShmSpscQueue :: queue where
  "ShmSpscQueue = \<lparr>seg_m = ShmSegment, ctrl_m = None, slots_m = None, capacity_m = 0,
     role_m = Producer, bound_m = False, readIdxCache_m = 0, writeIdxCache_m = 0\<rparr>"

definition freeSlots :: "queue \<Rightarrow> u64 \<Rightarrow> u64 \<Rightarrow> u64" where
  "freeSlots q w r = (if r > w then r - w else r + capacity_m q - w) - 1"

definition usedSlots :: "queue \<Rightarrow> u64 \<Rightarrow> u64 \<Rightarrow> u64" where
  "usedSlots q w r = (if w \<ge> r then w - r else w + capacity_m q - r)"

definition try_push :: "'a \<Rightarrow> queue \<Rightarrow> 'a shm \<Rightarrow> fault + bool \<times> queue \<times> 'a shm" where
  "try_push v q m =
     (let w = writeIdx (block m);
          next = w + 1;
          next = (if next = capacity_m q then 0 else next);
          publish = (\<lambda>q. bindE (memcpy (slots m) (unat w) [v] 0 1)
                       (\<lambda>s. Inr (True, q, m\<lparr>slots := s, block := (block m)\<lparr>writeIdx := next\<rparr>\<rparr>)))
      in if next = readIdxCache_m q
         then let q = q\<lparr>readIdxCache_m := readIdx (block m)\<rparr>
              in if next = readIdxCache_m q then Inr (False, q, m) else publish q
         else publish q)"

text \<open>Lines 244--256: the copy in at most two pieces and the index store.\<close>

definition push_n_publish ::
  "'a list \<Rightarrow> u64 \<Rightarrow> u64 \<Rightarrow> u64 \<Rightarrow> queue \<Rightarrow> 'a shm \<Rightarrow> fault + u64 \<times> queue \<times> 'a shm" where
  "push_n_publish src n w free q m =
     (let count = min n free;
          first = min count (capacity_m q - w)
      in bindE (memcpy (slots m) (unat w) src 0 (unat first))
           (\<lambda>s1. bindE (if count > first then memcpy s1 0 src (unat first) (unat (count - first)) else Inr s1)
             (\<lambda>s2. let next = w + count;
                       next = (if next \<ge> capacity_m q then next - capacity_m q else next)
                   in Inr (count, q, m\<lparr>slots := s2, block := (block m)\<lparr>writeIdx := next\<rparr>\<rparr>))))"

definition push_n :: "'a list \<Rightarrow> u64 \<Rightarrow> queue \<Rightarrow> 'a shm \<Rightarrow> fault + u64 \<times> queue \<times> 'a shm" where
  "push_n src n q m =
     (if n = 0 then Inr (0, q, m)
      else
        let w = writeIdx (block m);
            free = freeSlots q w (readIdxCache_m q)
        in if free < n
           then let q = q\<lparr>readIdxCache_m := readIdx (block m)\<rparr>;
                    free = freeSlots q w (readIdxCache_m q)
                in if free = 0 then Inr (0, q, m) else push_n_publish src n w free q m
           else push_n_publish src n w free q m)"

text \<open>The pointer \<^verbatim>\<open>&slots_[r]\<close> is the slot number \<open>r\<close>; \<open>None\<close> is \<^verbatim>\<open>nullptr\<close>.\<close>

definition front :: "queue \<Rightarrow> 'a shm \<Rightarrow> u64 option \<times> queue" where
  "front q m =
     (let r = readIdx (block m) in
      if r = writeIdxCache_m q
      then let q = q\<lparr>writeIdxCache_m := writeIdx (block m)\<rparr>
           in if r = writeIdxCache_m q then (None, q) else (Some r, q)
      else (Some r, q))"

text \<open>\<open>ndebug\<close> is \<^verbatim>\<open>-DNDEBUG\<close>.\<close>

definition pop_front :: "bool \<Rightarrow> queue \<Rightarrow> 'a shm \<Rightarrow> fault + 'a shm" where
  "pop_front ndebug q m =
     (let r = readIdx (block m) in
      if \<not> ndebug \<and> writeIdx (block m) = r then Inl AssertFailed
      else
        let next = r + 1;
            next = (if next = capacity_m q then 0 else next)
        in Inr (m\<lparr>block := (block m)\<lparr>readIdx := next\<rparr>\<rparr>))"

definition try_pop :: "bool \<Rightarrow> 'a \<Rightarrow> queue \<Rightarrow> 'a shm \<Rightarrow> fault + bool \<times> 'a \<times> queue \<times> 'a shm" where
  "try_pop ndebug out q m =
     (case front q m of
        (None, q) \<Rightarrow> Inr (False, out, q, m)
      | (Some p, q) \<Rightarrow>
          bindE (memcpy [out] 0 (slots m) (unat p) 1)
            (\<lambda>out. bindE (pop_front ndebug q m) (\<lambda>m. Inr (True, out ! 0, q, m))))"

text \<open>Lines 308--320.\<close>

definition pop_n_consume ::
  "'a list \<Rightarrow> u64 \<Rightarrow> u64 \<Rightarrow> u64 \<Rightarrow> queue \<Rightarrow> 'a shm \<Rightarrow> fault + u64 \<times> 'a list \<times> queue \<times> 'a shm" where
  "pop_n_consume dst n r avail q m =
     (let count = min n avail;
          first = min count (capacity_m q - r)
      in bindE (memcpy dst 0 (slots m) (unat r) (unat first))
           (\<lambda>d1. bindE (if count > first then memcpy d1 (unat first) (slots m) 0 (unat (count - first)) else Inr d1)
             (\<lambda>d2. let next = r + count;
                       next = (if next \<ge> capacity_m q then next - capacity_m q else next)
                   in Inr (count, d2, q, m\<lparr>block := (block m)\<lparr>readIdx := next\<rparr>\<rparr>))))"

definition pop_n :: "'a list \<Rightarrow> u64 \<Rightarrow> queue \<Rightarrow> 'a shm \<Rightarrow> fault + u64 \<times> 'a list \<times> queue \<times> 'a shm" where
  "pop_n dst n q m =
     (if n = 0 then Inr (0, dst, q, m)
      else
        let r = readIdx (block m);
            avail = usedSlots q (writeIdxCache_m q) r
        in if avail < n
           then let q = q\<lparr>writeIdxCache_m := writeIdx (block m)\<rparr>;
                    avail = usedSlots q (writeIdxCache_m q) r
                in if avail = 0 then Inr (0, dst, q, m) else pop_n_consume dst n r avail q m
           else pop_n_consume dst n r avail q m)"

text \<open>Diagnostics. The two loads of \<^verbatim>\<open>size\<close> and \<^verbatim>\<open>empty\<close> are separate arguments: the peer may run between them.\<close>

definition size_at :: "queue \<Rightarrow> u64 \<Rightarrow> u64 \<Rightarrow> u64" where
  "size_at q w r = usedSlots q w r"

definition size_q :: "queue \<Rightarrow> 'a shm \<Rightarrow> u64" where
  "size_q q m = size_at q (writeIdx (block m)) (readIdx (block m))"

definition empty_q :: "'a shm \<Rightarrow> bool" where
  "empty_q m \<longleftrightarrow> writeIdx (block m) = readIdx (block m)"

definition capacity_q :: "queue \<Rightarrow> u64" where
  "capacity_q q = capacity_m q - 1"

subsection \<open>Invariants and the abstraction to a list\<close>

abbreviation cap :: "queue \<Rightarrow> nat" where "cap q \<equiv> unat (capacity_m q)"
abbreviation wpos :: "'a shm \<Rightarrow> nat" where "wpos m \<equiv> unat (writeIdx (block m))"
abbreviation rpos :: "'a shm \<Rightarrow> nat" where "rpos m \<equiv> unat (readIdx (block m))"

definition ring_ok :: "nat \<Rightarrow> 'a shm \<Rightarrow> bool" where
  "ring_ok n m \<longleftrightarrow> 2 \<le> n \<and> n \<le> 2 ^ 63 \<and> n \<le> length (slots m) \<and> wpos m < n \<and> rpos m < n"

text \<open>
  The producer's copy of the read index never lets it see more room than there is, the
  consumer's copy of the write index never more elements.
\<close>

definition prod_ok :: "queue \<Rightarrow> 'a shm \<Rightarrow> bool" where
  "prod_ok q m \<longleftrightarrow> ring_ok (cap q) m \<and> unat (readIdxCache_m q) < cap q \<and>
     used (cap q) (wpos m) (rpos m) \<le> used (cap q) (wpos m) (unat (readIdxCache_m q))"

definition cons_ok :: "queue \<Rightarrow> 'a shm \<Rightarrow> bool" where
  "cons_ok q m \<longleftrightarrow> ring_ok (cap q) m \<and> unat (writeIdxCache_m q) < cap q \<and>
     used (cap q) (unat (writeIdxCache_m q)) (rpos m) \<le> used (cap q) (wpos m) (rpos m)"

definition contents :: "queue \<Rightarrow> 'a shm \<Rightarrow> 'a list" where
  "contents q m = ring (cap q) (slots m) (rpos m) (wpos m)"

subsection \<open>Index arithmetic of the class\<close>

lemma usedSlots_unat [ring_simps]:
  "unat w < cap q \<Longrightarrow> unat r < cap q \<Longrightarrow> unat (usedSlots q w r) = used (cap q) (unat w) (unat r)"
  unfolding usedSlots_def by (rule unat_ring_diff)

lemma freeSlots_unat [ring_simps]:
  assumes "unat w < cap q" "unat r < cap q"
  shows "unat (freeSlots q w r) = cap q - 1 - used (cap q) (unat w) (unat r)"
proof -
  let ?d = "if r > w then r - w else r + capacity_m q - w"
  have d: "unat ?d = cap q - used (cap q) (unat w) (unat r)"
  proof (cases "r > w")
    case True
    then have "unat w < unat r" by (simp only: word_less_nat_alt)
    then show ?thesis using True assms by (simp add: used_def unat_sub word_le_nat_alt)
  next
    case False
    then have le: "unat r \<le> unat w" by (simp only: word_less_nat_alt not_less)
    have "r + capacity_m q - w = of_nat (unat r + cap q - unat w)"
      using assms by (simp add: of_nat_diff)
    moreover have "unat r + cap q - unat w < 18446744073709551616"
      using le unat_u64_less [of "capacity_m q"] by linarith
    ultimately have "unat (r + capacity_m q - w) = unat r + cap q - unat w"
      by (simp only: unat_of_nat_u64)
    then show ?thesis using False le assms by (simp add: used_def)
  qed
  moreover have "used (cap q) (unat w) (unat r) < cap q" by (rule used_less) fact+
  ultimately have "1 \<le> ?d" by (simp add: word_le_nat_alt)
  then have "unat (?d - 1) = unat ?d - unat (1 :: u64)" by (rule unat_sub)
  then show ?thesis by (simp only: freeSlots_def d) simp
qed

subsection \<open>Publishing and consuming\<close>

lemma contents_frame [simp]:
  "contents (q\<lparr>readIdxCache_m := x\<rparr>) m = contents q m"
  "contents (q\<lparr>writeIdxCache_m := x\<rparr>) m = contents q m"
  by (simp_all add: contents_def)

lemma prod_ok_frame [simp]: "prod_ok (q\<lparr>writeIdxCache_m := x\<rparr>) m = prod_ok q m"
  by (simp add: prod_ok_def)

lemma cons_ok_frame [simp]: "cons_ok (q\<lparr>readIdxCache_m := x\<rparr>) m = cons_ok q m"
  by (simp add: cons_ok_def)

lemma prod_ok_refresh: "prod_ok q m \<Longrightarrow> prod_ok (q\<lparr>readIdxCache_m := readIdx (block m)\<rparr>) m"
  by (simp add: prod_ok_def ring_ok_def)

lemma cons_ok_refresh: "cons_ok q m \<Longrightarrow> cons_ok (q\<lparr>writeIdxCache_m := writeIdx (block m)\<rparr>) m"
  by (simp add: cons_ok_def ring_ok_def)

lemma length_contents: "length (contents q m) = used (cap q) (wpos m) (rpos m)"
  by (simp add: contents_def)

text \<open>
  A write into slots the producer knows to be free, followed by the store of the advanced
  index, appends the written elements and keeps every handle of the same ring valid.
\<close>

definition published :: "'a list \<Rightarrow> u64 \<Rightarrow> 'a shm \<Rightarrow> 'a shm" where
  "published s idx m = m\<lparr>slots := s, block := (block m)\<lparr>writeIdx := idx\<rparr>\<rparr>"

definition consumed :: "u64 \<Rightarrow> 'a shm \<Rightarrow> 'a shm" where
  "consumed idx m = m\<lparr>block := (block m)\<lparr>readIdx := idx\<rparr>\<rparr>"

lemma publish:
  assumes ok: "prod_ok q m" and room: "used (cap q) (wpos m) (unat (readIdxCache_m q)) + length ys < cap q"
    and idx: "unat idx = (wpos m + length ys) mod cap q" and len: "length s = length (slots m)"
    and new: "\<And>i. i < length ys \<Longrightarrow> s ! ((wpos m + i) mod cap q) = ys ! i"
    and old: "\<And>j. j < length (slots m) \<Longrightarrow> (\<And>i. i < length ys \<Longrightarrow> (wpos m + i) mod cap q \<noteq> j) \<Longrightarrow> s ! j = slots m ! j"
  shows "contents q (published s idx m) = contents q m @ ys"
    and "prod_ok q (published s idx m)"
    and "cap c = cap q \<Longrightarrow> cons_ok c m \<Longrightarrow> cons_ok c (published s idx m)"
proof -
  define n where "n = cap q"
  have b: "wpos m < n" "rpos m < n" "unat (readIdxCache_m q) < n" "n \<le> length (slots m)"
    and le: "used n (wpos m) (rpos m) \<le> used n (wpos m) (unat (readIdxCache_m q))"
    using ok by (simp_all add: prod_ok_def ring_ok_def n_def)
  have room': "used n (wpos m) (rpos m) + length ys < n" using room le by (simp add: n_def)
  have kept: "s ! ((rpos m + i) mod n) = slots m ! ((rpos m + i) mod n)"
    if i: "i < used n (wpos m) (rpos m)" for i
  proof (rule old)
    show "(rpos m + i) mod n < length (slots m)" using b by (meson less_le_trans mod_less_divisor order.strict_trans1 zero_le)
    fix j assume j: "j < length ys"
    show "(wpos m + j) mod cap q \<noteq> (rpos m + i) mod n"
    proof
      assume "(wpos m + j) mod cap q = (rpos m + i) mod n"
      moreover have "(wpos m + j) mod n = (rpos m + (used n (wpos m) (rpos m) + j)) mod n"
        using read_plus_used [OF b(1,2)] by (metis add.assoc mod_add_left_eq)
      ultimately have "(rpos m + (used n (wpos m) (rpos m) + j)) mod n = (rpos m + i) mod n"
        by (simp only: n_def)
      then have "used n (wpos m) (rpos m) + j = i"
        by (rule mod_shift_inj) (use i j room' in linarith)+
      then show False using i by simp
    qed
  qed
  show "contents q (published s idx m) = contents q m @ ys"
    using ring_append [OF b(1,2) room' kept] new idx
    by (simp add: contents_def published_def n_def)
  have adv: "used n ((wpos m + length ys) mod n) (rpos m) = used n (wpos m) (rpos m) + length ys"
    "used n ((wpos m + length ys) mod n) (unat (readIdxCache_m q)) = used n (wpos m) (unat (readIdxCache_m q)) + length ys"
    using used_advance_write [OF b(1,2) room'] used_advance_write [OF b(1,3)] room by (simp_all add: n_def)
  have pos: "(wpos m + length ys) mod n < n" using b by simp
  show "prod_ok q (published s idx m)"
    using ok adv pos idx len le by (simp add: prod_ok_def ring_ok_def published_def n_def)
  show "cons_ok c (published s idx m)" if "cap c = cap q" "cons_ok c m"
    using that adv(1) pos idx len by (simp add: cons_ok_def ring_ok_def published_def n_def)
qed

lemma consume:
  assumes ok: "cons_ok q m" and k: "k \<le> used (cap q) (unat (writeIdxCache_m q)) (rpos m)"
    and idx: "unat idx = (rpos m + k) mod cap q"
  shows "contents q (consumed idx m) = drop k (contents q m)"
    and "cons_ok q (consumed idx m)"
    and "cap p = cap q \<Longrightarrow> prod_ok p m \<Longrightarrow> prod_ok p (consumed idx m)"
proof -
  define n where "n = cap q"
  have b: "wpos m < n" "rpos m < n" "unat (writeIdxCache_m q) < n"
    and le: "used n (unat (writeIdxCache_m q)) (rpos m) \<le> used n (wpos m) (rpos m)"
    using ok by (simp_all add: cons_ok_def ring_ok_def n_def)
  have k': "k \<le> used n (wpos m) (rpos m)" using k le by (simp add: n_def)
  show "contents q (consumed idx m) = drop k (contents q m)"
    using ring_drop [OF b(1,2) k', of "slots m"] idx by (simp add: contents_def consumed_def n_def)
  have adv: "used n (wpos m) ((rpos m + k) mod n) = used n (wpos m) (rpos m) - k"
    "used n (unat (writeIdxCache_m q)) ((rpos m + k) mod n) = used n (unat (writeIdxCache_m q)) (rpos m) - k"
    using used_advance_read [OF b(1,2) k'] used_advance_read [OF b(3,2)] k by (simp_all add: n_def)
  have pos: "(rpos m + k) mod n < n" using b by simp
  show "cons_ok q (consumed idx m)"
    using ok adv pos idx diff_le_mono [OF le, of k]
    by (simp add: cons_ok_def ring_ok_def consumed_def n_def)
  show "prod_ok p (consumed idx m)" if "cap p = cap q" "prod_ok p m"
    using that adv(1) pos idx by (auto simp: prod_ok_def ring_ok_def consumed_def n_def)
qed

subsection \<open>The producer's operations\<close>

lemma publish_one:
  fixes v :: 'a
  assumes ok: "prod_ok q m" and room: "used (cap q) (wpos m) (unat (readIdxCache_m q)) \<noteq> cap q - 1"
  defines "idx \<equiv> (if writeIdx (block m) + 1 = capacity_m q then 0 else writeIdx (block m) + 1)"
  defines "m' \<equiv> published ((slots m)[wpos m := v]) idx m"
  shows "memcpy (slots m) (wpos m) [v] 0 1 = Inr ((slots m)[wpos m := v])"
    and "length (contents q m) < cap q - 1"
    and "contents q m' = contents q m @ [v]" and "prod_ok q m'"
    and "cap c = cap q \<Longrightarrow> cons_ok c m \<Longrightarrow> cons_ok c m'"
proof -
  have b: "wpos m < cap q" "unat (readIdxCache_m q) < cap q" "cap q \<le> length (slots m)"
    "used (cap q) (wpos m) (rpos m) \<le> used (cap q) (wpos m) (unat (readIdxCache_m q))"
    using ok by (simp_all add: prod_ok_def ring_ok_def)
  show "memcpy (slots m) (wpos m) [v] 0 1 = Inr ((slots m)[wpos m := v])"
    using b by (simp add: memcpy_simps splice_single)
  have u: "used (cap q) (wpos m) (unat (readIdxCache_m q)) + length [v] < cap q"
    using room used_less [OF b(1,2)] by simp
  then show "length (contents q m) < cap q - 1" using b by (simp add: length_contents)
  have idx: "unat idx = (wpos m + length [v]) mod cap q"
    unfolding idx_def using unat_step [OF b(1)] by simp
  note p = publish [OF ok u idx, of "(slots m)[wpos m := v]"]
  show "contents q m' = contents q m @ [v]" "prod_ok q m'"
    "cap c = cap q \<Longrightarrow> cons_ok c m \<Longrightarrow> cons_ok c m'"
    unfolding m'_def using b by (auto intro!: p)
qed

lemma try_push_cases:
  assumes ok: "prod_ok q m"
  obtains (full) "length (contents q m) = cap q - 1"
      "try_push v q m = Inr (False, q\<lparr>readIdxCache_m := readIdx (block m)\<rparr>, m)"
  | (room) rc s idx where "length (contents q m) < cap q - 1"
      "try_push v q m = Inr (True, q\<lparr>readIdxCache_m := rc\<rparr>, published s idx m)"
      "contents q (published s idx m) = contents q m @ [v]"
      "prod_ok (q\<lparr>readIdxCache_m := rc\<rparr>) (published s idx m)"
      "\<And>c. cap c = cap q \<Longrightarrow> cons_ok c m \<Longrightarrow> cons_ok c (published s idx m)"
proof -
  define idx where "idx = (if writeIdx (block m) + 1 = capacity_m q then 0 else writeIdx (block m) + 1)"
  define q' where "q' = q\<lparr>readIdxCache_m := readIdx (block m)\<rparr>"
  have b: "wpos m < cap q" "unat (readIdxCache_m q) < cap q" "rpos m < cap q"
    using ok by (simp_all add: prod_ok_def ring_ok_def)
  have hit: "idx = x \<longleftrightarrow> used (cap q) (wpos m) (unat x) = cap q - 1" if "unat x < cap q" for x
  proof -
    have "unat idx = (wpos m + 1) mod cap q" unfolding idx_def by (rule unat_step [OF b(1)])
    moreover have "idx = x \<longleftrightarrow> unat idx = unat x" by (auto dest: unsigned_word_eqI)
    ultimately show ?thesis using step_hits_iff [OF b(1) that] by (simp only:)
  qed
  have ok': "prod_ok q' m" using prod_ok_refresh [OF ok] by (simp add: q'_def)
  consider (a) "idx = readIdxCache_m q" "idx = readIdx (block m)"
    | (b) "idx = readIdxCache_m q" "idx \<noteq> readIdx (block m)" | (c) "idx \<noteq> readIdxCache_m q" by blast
  then show ?thesis
  proof cases
    case a
    then have "try_push v q m = Inr (False, q', m)"
      by (simp add: try_push_def Let_def q'_def flip: idx_def)
    then show ?thesis using full a(2) hit [OF b(3)] by (simp add: length_contents q'_def)
  next
    case b: b
    note p = publish_one [OF ok', folded idx_def]
    have r: "used (cap q') (wpos m) (unat (readIdxCache_m q')) \<noteq> cap q' - 1"
      using hit \<open>rpos m < cap q\<close> b by (simp add: q'_def)
    have "try_push v q m = Inr (True, q', published ((slots m)[wpos m := v]) idx m)"
      using b p(1) [OF r] by (simp add: try_push_def Let_def q'_def published_def flip: idx_def)
    then show ?thesis
      using room [of "readIdx (block m)" "(slots m)[wpos m := v]" idx] p [OF r]
      by (simp add: q'_def idx_def)
  next
    case c
    then have r: "used (cap q) (wpos m) (unat (readIdxCache_m q)) \<noteq> cap q - 1"
      using hit [OF b(2)] by simp
    note p = publish_one [OF ok r, folded idx_def]
    have "try_push v q m = Inr (True, q, published ((slots m)[wpos m := v]) idx m)"
      using c p(1) by (simp add: try_push_def Let_def published_def flip: idx_def)
    then show ?thesis
      using room [of "readIdxCache_m q" "(slots m)[wpos m := v]" idx] p by simp
  qed
qed

lemma unat_min: "unat (min a b) = min (unat a) (unat (b :: u64))"
  by (auto simp: min_def word_le_nat_alt)

lemma push_n_publish_spec:
  assumes ok: "prod_ok q m" and src: "unat n \<le> length src"
  defines "k \<equiv> min (unat n) (cap q - 1 - used (cap q) (wpos m) (unat (readIdxCache_m q)))"
  obtains s idx where
    "push_n_publish src n (writeIdx (block m)) (freeSlots q (writeIdx (block m)) (readIdxCache_m q)) q m =
       Inr (of_nat k, q, published s idx m)"
    and "contents q (published s idx m) = contents q m @ take k src"
    and "prod_ok q (published s idx m)"
    and "\<And>c. cap c = cap q \<Longrightarrow> cons_ok c m \<Longrightarrow> cons_ok c (published s idx m)"
proof -
  define w where "w = writeIdx (block m)"
  define free where "free = freeSlots q w (readIdxCache_m q)"
  define count where "count = min n free"
  define first where "first = min count (capacity_m q - w)"
  define idx where "idx = (if w + count \<ge> capacity_m q then w + count - capacity_m q else w + count)"
  have b: "unat w < cap q" "unat (readIdxCache_m q) < cap q" "cap q \<le> length (slots m)" "cap q \<le> 2 ^ 63"
    using ok by (simp_all add: prod_ok_def ring_ok_def w_def)
  have count: "unat count = k"
    using freeSlots_unat [OF b(1,2)] by (simp add: count_def free_def unat_min k_def w_def)
  then have cw: "of_nat k = count" by auto
  have first: "unat first = min k (cap q - unat w)"
  proof -
    have "unat (capacity_m q - w) = cap q - unat w"
      using b(1) by (intro unat_sub) (simp add: word_le_nat_alt)
    then show ?thesis using count by (simp add: first_def unat_min)
  qed
  have k: "k \<le> length src" "k < cap q" "used (cap q) (unat w) (unat (readIdxCache_m q)) + k < cap q"
    using src used_less [OF b(1,2)] by (auto simp: k_def w_def)
  define f where "f = min k (cap q - unat w)"
  define s1 where "s1 = splice (slots m) (unat w) (take f src)"
  have c1: "memcpy (slots m) (unat w) src 0 (unat first) = Inr s1"
    using k b by (simp add: memcpy_simps first s1_def f_def)
  have l1: "length s1 = length (slots m)" using k b by (simp add: s1_def f_def)
  have "unat (count - first) = k - f"
    using count first by (subst unat_sub) (simp_all add: f_def word_le_nat_alt)
  moreover have "count > first \<longleftrightarrow> f < k" using count first by (simp add: f_def word_less_nat_alt)
  moreover have "k - f \<le> length s1" using k b l1 by simp
  ultimately have c2: "(if count > first then memcpy s1 0 src (unat first) (unat (count - first)) else Inr s1) =
      Inr (wrap_write (cap q) (slots m) (unat w) src k)"
    using k first by (simp add: memcpy_simps wrap_write_def s1_def Let_def flip: f_def)
  have run: "push_n_publish src n w free q m =
      Inr (of_nat k, q, published (wrap_write (cap q) (slots m) (unat w) src k) idx m)"
    unfolding push_n_publish_def Let_def
    by (simp only: c1 c2 bindE_simps cw published_def flip: count_def first_def idx_def)
  have ix: "unat idx = (wpos m + length (take k src)) mod cap q"
    unfolding idx_def using unat_advance [OF b(1) _ b(4), of count] count k by (simp add: w_def)
  have u: "used (cap q) (wpos m) (unat (readIdxCache_m q)) + length (take k src) < cap q"
    using k by (simp add: w_def)
  define s where "s = wrap_write (cap q) (slots m) (unat w) src k"
  note ww = wrap_write_props [OF b(3,1) less_imp_le [OF k(2)] k(1), folded s_def]
  have "s ! ((wpos m + i) mod cap q) = take k src ! i" if "i < length (take k src)" for i
    using ww(2) [of i] that k by (simp add: w_def)
  moreover have "s ! j = slots m ! j"
    if "j < length (slots m)" "\<And>i. i < length (take k src) \<Longrightarrow> (wpos m + i) mod cap q \<noteq> j" for j
    using ww(3) [of j] that k by (simp add: w_def)
  ultimately show ?thesis
    using that [OF run [folded s_def, unfolded free_def w_def]] publish [OF ok u ix ww(1)] by blast
qed

text \<open>
  What a batch does: with \<open>k\<close> the smaller of the request and the true room, it appends the first
  \<open>k\<close> elements of the source and returns \<open>k\<close>; with \<open>k = 0\<close> it stores nothing.
\<close>

lemma push_n_cases:
  assumes ok: "prod_ok q m" and src: "unat n \<le> length src"
  defines "k \<equiv> min (unat n) (cap q - 1 - length (contents q m))"
  obtains (none) rc where "k = 0" "push_n src n q m = Inr (0, q\<lparr>readIdxCache_m := rc\<rparr>, m)"
      "prod_ok (q\<lparr>readIdxCache_m := rc\<rparr>) m"
  | (some) rc s idx where "0 < k"
      "push_n src n q m = Inr (of_nat k, q\<lparr>readIdxCache_m := rc\<rparr>, published s idx m)"
      "contents q (published s idx m) = contents q m @ take k src"
      "prod_ok (q\<lparr>readIdxCache_m := rc\<rparr>) (published s idx m)"
      "\<And>c. cap c = cap q \<Longrightarrow> cons_ok c m \<Longrightarrow> cons_ok c (published s idx m)"
proof (cases "n = 0")
  case True
  then show ?thesis using none [of "readIdxCache_m q"] ok by (simp add: push_n_def k_def)
next
  case False
  define w where "w = writeIdx (block m)"
  define q' where "q' = q\<lparr>readIdxCache_m := readIdx (block m)\<rparr>"
  have b: "unat w < cap q" "unat (readIdxCache_m q) < cap q" "rpos m < cap q"
    and le: "used (cap q) (wpos m) (rpos m) \<le> used (cap q) (wpos m) (unat (readIdxCache_m q))"
    using ok by (simp_all add: prod_ok_def ring_ok_def w_def)
  have n: "0 < unat n" using False by (simp add: unat_gt_0)
  show ?thesis
  proof (cases "freeSlots q w (readIdxCache_m q) < n")
    case False
    then have "unat n \<le> cap q - 1 - used (cap q) (wpos m) (unat (readIdxCache_m q))"
      using freeSlots_unat [OF b(1,2)] by (simp add: word_less_nat_alt w_def)
    then have k: "min (unat n) (cap q - 1 - used (cap q) (wpos m) (unat (readIdxCache_m q))) = k" "k = unat n"
      using le by (auto simp: k_def length_contents)
    show ?thesis
      using push_n_publish_spec [OF ok src, unfolded k(1)] some [of "readIdxCache_m q"] False \<open>n \<noteq> 0\<close> n k(2)
      by (auto simp: push_n_def Let_def w_def)
  next
    case True
    have ok': "prod_ok q' m" using prod_ok_refresh [OF ok] by (simp add: q'_def)
    have free: "unat (freeSlots q' w (readIdx (block m))) = cap q - 1 - length (contents q m)"
      using freeSlots_unat [of w q' "readIdx (block m)"] b by (simp add: q'_def length_contents w_def)
    have k: "min (unat n) (cap q' - 1 - used (cap q') (wpos m) (unat (readIdxCache_m q'))) = k"
      by (simp add: k_def length_contents q'_def)
    show ?thesis
    proof (cases "freeSlots q' w (readIdx (block m)) = 0")
      case none': True
      then have "k = 0" using free by (simp add: k_def)
      moreover have "push_n src n q m = Inr (0, q', m)"
        using True none' \<open>n \<noteq> 0\<close> by (simp add: push_n_def Let_def q'_def w_def)
      ultimately show ?thesis using none ok' by (simp add: q'_def)
    next
      case some': False
      then have "0 < unat (freeSlots q' w (readIdx (block m)))" by (simp add: unat_gt_0)
      then have "0 < k" using n unfolding free k_def by linarith
      then show ?thesis
        using push_n_publish_spec [OF ok' src, unfolded k] some [of "readIdx (block m)"] True some' \<open>n \<noteq> 0\<close>
        by (auto simp: push_n_def Let_def q'_def w_def)
    qed
  qed
qed

subsection \<open>The consumer's operations\<close>

lemma contents_hd:
  assumes "cons_ok q m" "contents q m \<noteq> []"
  shows "hd (contents q m) = slots m ! rpos m"
proof -
  have "0 < used (cap q) (wpos m) (rpos m)" using assms(2) length_contents [of q m] by (cases "contents q m") auto
  moreover have "rpos m < cap q" using assms(1) by (simp add: cons_ok_def ring_ok_def)
  ultimately show ?thesis using assms(2) by (simp add: hd_conv_nth contents_def nth_ring)
qed

lemma contents_Nil_iff: "cons_ok q m \<Longrightarrow> contents q m = [] \<longleftrightarrow> writeIdx (block m) = readIdx (block m)"
  by (auto simp: cons_ok_def ring_ok_def contents_def ring_Nil_iff dest: unsigned_word_eqI)

text \<open>\<^verbatim>\<open>front\<close> finds the oldest element exactly when there is one, whatever the state of the cache.\<close>

lemma front_cases:
  assumes ok: "cons_ok q m"
  obtains (empty) "contents q m = []" "front q m = (None, q\<lparr>writeIdxCache_m := writeIdx (block m)\<rparr>)"
  | (elem) wc where "contents q m \<noteq> []" "front q m = (Some (readIdx (block m)), q\<lparr>writeIdxCache_m := wc\<rparr>)"
      "cons_ok (q\<lparr>writeIdxCache_m := wc\<rparr>) m" "wc \<noteq> readIdx (block m)"
proof -
  consider (a) "readIdx (block m) = writeIdxCache_m q" "readIdx (block m) = writeIdx (block m)"
    | (b) "readIdx (block m) = writeIdxCache_m q" "readIdx (block m) \<noteq> writeIdx (block m)"
    | (c) "readIdx (block m) \<noteq> writeIdxCache_m q" by blast
  then show ?thesis
  proof cases
    case a
    then show ?thesis using empty contents_Nil_iff [OF ok] by (simp add: front_def)
  next
    case b
    then show ?thesis
      using elem [of "writeIdx (block m)"] contents_Nil_iff [OF ok] cons_ok_refresh [OF ok]
      by (auto simp: front_def)
  next
    case c
    have "0 < used (cap q) (unat (writeIdxCache_m q)) (rpos m)"
      using ok c used_eq_0_iff [of "unat (writeIdxCache_m q)" "cap q" "rpos m"]
      by (auto simp: cons_ok_def ring_ok_def dest: unsigned_word_eqI)
    then have "contents q m \<noteq> []"
      using ok length_contents [of q m] by (auto simp: cons_ok_def)
    then show ?thesis using elem [of "writeIdxCache_m q"] ok c by (simp add: front_def)
  qed
qed

lemma pop_front_spec:
  assumes ok: "cons_ok q m" and seen: "writeIdxCache_m q \<noteq> readIdx (block m)"
  obtains idx where "pop_front ndebug q m = Inr (consumed idx m)"
    and "contents q (consumed idx m) = tl (contents q m)" and "cons_ok q (consumed idx m)"
    and "\<And>p. cap p = cap q \<Longrightarrow> prod_ok p m \<Longrightarrow> prod_ok p (consumed idx m)"
proof -
  define idx where "idx = (if readIdx (block m) + 1 = capacity_m q then 0 else readIdx (block m) + 1)"
  have b: "rpos m < cap q" "unat (writeIdxCache_m q) < cap q" using ok by (simp_all add: cons_ok_def ring_ok_def)
  have u: "1 \<le> used (cap q) (unat (writeIdxCache_m q)) (rpos m)"
    using seen used_eq_0_iff [OF b(2,1)] by (auto simp: Suc_le_eq dest: unsigned_word_eqI)
  then have "contents q m \<noteq> []" using ok length_contents [of q m] by (auto simp: cons_ok_def)
  then have "writeIdx (block m) \<noteq> readIdx (block m)" using contents_Nil_iff [OF ok] by simp
  then have run: "pop_front ndebug q m = Inr (consumed idx m)"
    by (simp add: pop_front_def Let_def consumed_def idx_def)
  have ix: "unat idx = (rpos m + 1) mod cap q"
    unfolding idx_def by (rule unat_step [OF b(1)])
  show ?thesis using that [OF run] consume [OF ok u ix] by (simp add: drop_Suc)
qed

lemma try_pop_cases:
  assumes ok: "cons_ok q m"
  obtains (empty) "contents q m = []"
      "try_pop ndebug out q m = Inr (False, out, q\<lparr>writeIdxCache_m := writeIdx (block m)\<rparr>, m)"
  | (elem) wc idx where "contents q m \<noteq> []"
      "try_pop ndebug out q m = Inr (True, hd (contents q m), q\<lparr>writeIdxCache_m := wc\<rparr>, consumed idx m)"
      "contents q (consumed idx m) = tl (contents q m)" "cons_ok (q\<lparr>writeIdxCache_m := wc\<rparr>) (consumed idx m)"
      "\<And>p. cap p = cap q \<Longrightarrow> prod_ok p m \<Longrightarrow> prod_ok p (consumed idx m)"
proof (rule front_cases [OF ok])
  assume "contents q m = []" "front q m = (None, q\<lparr>writeIdxCache_m := writeIdx (block m)\<rparr>)"
  then show ?thesis using empty by (simp add: try_pop_def)
next
  fix wc
  assume e: "contents q m \<noteq> []" and f: "front q m = (Some (readIdx (block m)), q\<lparr>writeIdxCache_m := wc\<rparr>)"
    and ok': "cons_ok (q\<lparr>writeIdxCache_m := wc\<rparr>) m" and wc: "wc \<noteq> readIdx (block m)"
  have "rpos m < length (slots m)" using ok by (simp add: cons_ok_def ring_ok_def)
  then have c: "memcpy [out] 0 (slots m) (rpos m) 1 = Inr [hd (contents q m)]"
    using contents_hd [OF ok e] by (simp add: memcpy_def take_Suc hd_drop_conv_nth)
  show ?thesis
    by (rule pop_front_spec [OF ok', of ndebug]) (use wc e f c elem [of wc] in \<open>auto simp: try_pop_def\<close>)
qed

lemma pop_n_consume_spec:
  assumes ok: "cons_ok q m" and dst: "unat n \<le> length dst"
  defines "k \<equiv> min (unat n) (used (cap q) (unat (writeIdxCache_m q)) (rpos m))"
  obtains idx where
    "pop_n_consume dst n (readIdx (block m)) (usedSlots q (writeIdxCache_m q) (readIdx (block m))) q m =
       Inr (of_nat k, splice dst 0 (take k (contents q m)), q, consumed idx m)"
    and "contents q (consumed idx m) = drop k (contents q m)" and "cons_ok q (consumed idx m)"
    and "\<And>p. cap p = cap q \<Longrightarrow> prod_ok p m \<Longrightarrow> prod_ok p (consumed idx m)"
proof -
  define r where "r = readIdx (block m)"
  define avail where "avail = usedSlots q (writeIdxCache_m q) r"
  define count where "count = min n avail"
  define first where "first = min count (capacity_m q - r)"
  define idx where "idx = (if r + count \<ge> capacity_m q then r + count - capacity_m q else r + count)"
  have b: "unat r < cap q" "unat (writeIdxCache_m q) < cap q" "cap q \<le> length (slots m)" "cap q \<le> 2 ^ 63"
    and le: "used (cap q) (unat (writeIdxCache_m q)) (rpos m) \<le> used (cap q) (wpos m) (rpos m)"
    using ok by (simp_all add: cons_ok_def ring_ok_def r_def)
  have count: "unat count = k"
    using usedSlots_unat [OF b(2,1)] by (simp add: count_def avail_def unat_min k_def r_def)
  then have cw: "of_nat k = count" by auto
  have first: "unat first = min k (cap q - unat r)"
  proof -
    have "unat (capacity_m q - r) = cap q - unat r"
      using b(1) by (intro unat_sub) (simp add: word_le_nat_alt)
    then show ?thesis using count by (simp add: first_def unat_min)
  qed
  have k: "k \<le> length dst" "k \<le> used (cap q) (unat (writeIdxCache_m q)) (rpos m)" "k < cap q"
    using dst used_less [OF b(2,1)] by (auto simp: k_def r_def)
  define f where "f = min k (cap q - unat r)"
  have f: "f \<le> k" "unat r + f \<le> cap q" using b(1) by (auto simp: f_def)
  define xs where "xs = take f (drop (unat r) (slots m))"
  define ys where "ys = take (k - f) (slots m)"
  have lx: "length xs = f" "length ys = k - f" using f k b by (auto simp: xs_def ys_def)
  have c1: "memcpy dst 0 (slots m) (unat r) (unat first) = Inr (splice dst 0 xs)"
    using k b f first by (simp add: memcpy_simps xs_def flip: f_def)
  have "unat (count - first) = k - f"
    using count first by (subst unat_sub) (simp_all add: f_def word_le_nat_alt)
  moreover have "count > first \<longleftrightarrow> f < k" using count first by (simp add: f_def word_less_nat_alt)
  moreover have "splice (splice dst 0 xs) f ys = splice dst 0 (xs @ ys)"
    using lx k f by (simp add: splice_def)
  moreover have "ys = []" if "\<not> f < k" using that lx by simp
  ultimately have c2: "(if count > first then memcpy (splice dst 0 xs) (unat first) (slots m) 0 (unat (count - first))
      else Inr (splice dst 0 xs)) = Inr (splice dst 0 (xs @ ys))"
    using k f b first lx by (auto simp: memcpy_simps ys_def simp flip: f_def)
  have "xs @ ys = take k (contents q m)"
  proof -
    have "xs @ ys = map (\<lambda>i. slots m ! ((unat r + i) mod cap q)) [0..<k]"
      using wrap_read [OF b(3,1) less_imp_le [OF k(3)]] by (simp add: xs_def ys_def f_def)
    also have "\<dots> = take k (contents q m)"
      using k(2) le by (simp add: contents_def ring_def take_map r_def)
    finally show ?thesis .
  qed
  then have run: "pop_n_consume dst n r avail q m =
      Inr (of_nat k, splice dst 0 (take k (contents q m)), q, consumed idx m)"
    unfolding pop_n_consume_def Let_def
    by (simp only: c1 c2 bindE_simps cw consumed_def flip: count_def first_def idx_def)
  have ix: "unat idx = (rpos m + k) mod cap q"
    unfolding idx_def using unat_advance [OF b(1) _ b(4), of count] count k by (simp add: r_def)
  show ?thesis using that [OF run [unfolded avail_def r_def]] consume [OF ok k(2) ix] by blast
qed

lemma pop_n_cases:
  assumes ok: "cons_ok q m" and dst: "unat n \<le> length dst"
  defines "k \<equiv> min (unat n) (length (contents q m))"
  obtains (none) wc where "k = 0" "pop_n dst n q m = Inr (0, dst, q\<lparr>writeIdxCache_m := wc\<rparr>, m)"
      "cons_ok (q\<lparr>writeIdxCache_m := wc\<rparr>) m"
  | (some) wc idx where "0 < k"
      "pop_n dst n q m = Inr (of_nat k, splice dst 0 (take k (contents q m)), q\<lparr>writeIdxCache_m := wc\<rparr>, consumed idx m)"
      "contents q (consumed idx m) = drop k (contents q m)" "cons_ok (q\<lparr>writeIdxCache_m := wc\<rparr>) (consumed idx m)"
      "\<And>p. cap p = cap q \<Longrightarrow> prod_ok p m \<Longrightarrow> prod_ok p (consumed idx m)"
proof (cases "n = 0")
  case True
  then show ?thesis using none [of "writeIdxCache_m q"] ok by (simp add: pop_n_def k_def)
next
  case False
  define r where "r = readIdx (block m)"
  define q' where "q' = q\<lparr>writeIdxCache_m := writeIdx (block m)\<rparr>"
  have b: "unat r < cap q" "unat (writeIdxCache_m q) < cap q" "wpos m < cap q"
    and le: "used (cap q) (unat (writeIdxCache_m q)) (rpos m) \<le> used (cap q) (wpos m) (rpos m)"
    using ok by (simp_all add: cons_ok_def ring_ok_def r_def)
  have n: "0 < unat n" using False by (simp add: unat_gt_0)
  show ?thesis
  proof (cases "usedSlots q (writeIdxCache_m q) r < n")
    case False
    then have "unat n \<le> used (cap q) (unat (writeIdxCache_m q)) (rpos m)"
      using usedSlots_unat [OF b(2,1)] by (simp add: word_less_nat_alt r_def)
    then have k: "min (unat n) (used (cap q) (unat (writeIdxCache_m q)) (rpos m)) = k" "k = unat n"
      using le by (auto simp: k_def length_contents)
    show ?thesis
      using pop_n_consume_spec [OF ok dst, unfolded k(1)] some [of "writeIdxCache_m q"] False \<open>n \<noteq> 0\<close> n k(2)
      by (auto simp: pop_n_def Let_def r_def)
  next
    case True
    have ok': "cons_ok q' m" using cons_ok_refresh [OF ok] by (simp add: q'_def)
    have avail: "unat (usedSlots q' (writeIdx (block m)) r) = length (contents q m)"
      using usedSlots_unat [of "writeIdx (block m)" q' r] b by (simp add: q'_def length_contents r_def)
    have k: "min (unat n) (used (cap q') (unat (writeIdxCache_m q')) (rpos m)) = k"
      by (simp add: k_def length_contents q'_def)
    show ?thesis
    proof (cases "usedSlots q' (writeIdx (block m)) r = 0")
      case none': True
      then have "k = 0" using avail by (simp add: k_def)
      moreover have "pop_n dst n q m = Inr (0, dst, q', m)"
        using True none' \<open>n \<noteq> 0\<close> by (simp add: pop_n_def Let_def q'_def r_def)
      ultimately show ?thesis using none ok' by (simp add: q'_def)
    next
      case some': False
      then have "0 < unat (usedSlots q' (writeIdx (block m)) r)" by (simp add: unat_gt_0)
      then have "0 < k" using n unfolding avail k_def by linarith
      then show ?thesis
        using pop_n_consume_spec [OF ok' dst, unfolded k] some [of "writeIdx (block m)"] True some' \<open>n \<noteq> 0\<close>
        by (auto simp: pop_n_def Let_def q'_def r_def)
    qed
  qed
qed

subsection \<open>Properties\<close>

definition ring_sample :: "queue \<times> nat shm" where
  "ring_sample = (ShmSpscQueue\<lparr>capacity_m := 4, writeIdxCache_m := 3\<rparr>,
     \<lparr>block = sample_block\<lparr>capacity := 4, writeIdx := 1, readIdx := 3\<rparr>, slots = [20, 0, 0, 10]\<rparr>)"

lemma ring_sample_ok [simp]:
  "cons_ok (fst ring_sample) (snd ring_sample)" "ring_ok (cap (fst ring_sample)) (snd ring_sample)"
  "contents (fst ring_sample) (snd ring_sample) = [10, 20]"
  by (simp_all add: ring_sample_def cons_ok_def ring_ok_def used_def contents_def ring_def upt_rec
      ShmSpscQueue_def sample_block_def)

text \<open>
  \<^verbatim>\<open>front\<close> is exact and a pure peek: it returns null exactly when the queue is empty, otherwise a
  pointer to an in-range slot holding the oldest element; the queue is unchanged, and asking
  again gives the same pointer.
\<close>

theorem front_peeks_oldest:
  assumes "cons_ok q m"
  shows "let (p, q') = front q m in
         cons_ok q' m \<and> contents q' m = contents q m \<and> (p = None \<longleftrightarrow> contents q m = []) \<and> front q' m = (p, q') \<and>
         (case p of None \<Rightarrow> True | Some r \<Rightarrow> unat r < length (slots m) \<and> slots m ! unat r = hd (contents q m))"
proof (rule front_cases [OF assms])
  assume "contents q m = []" "front q m = (None, q\<lparr>writeIdxCache_m := writeIdx (block m)\<rparr>)"
  then show ?thesis
    using cons_ok_refresh [OF assms] contents_Nil_iff [OF assms] by (simp add: front_def Let_def)
next
  fix wc
  assume "contents q m \<noteq> []" "front q m = (Some (readIdx (block m)), q\<lparr>writeIdxCache_m := wc\<rparr>)"
    "cons_ok (q\<lparr>writeIdxCache_m := wc\<rparr>) m" "wc \<noteq> readIdx (block m)"
  then show ?thesis
    using contents_hd [OF assms] assms by (auto simp: front_def Let_def cons_ok_def ring_ok_def)
qed

theorem front_peeks_oldest_witness:
  "let (p, q') = front (fst ring_sample) (snd ring_sample) in
     p \<noteq> None \<and> contents q' (snd ring_sample) = [10, 20] \<and> front q' (snd ring_sample) = (p, q')"
  using front_peeks_oldest [OF ring_sample_ok(1)] by (auto simp: Let_def split: prod.splits)

text \<open>
  \<^verbatim>\<open>pop()\<close> after a \<^verbatim>\<open>front()\<close> that returned a pointer never trips its assertion and removes exactly
  the element the pointer showed, in debug and in release builds.
\<close>

theorem pop_after_front:
  assumes "cons_ok q m" and "front q m = (Some r, q')"
  shows "\<exists>m'. pop_front ndebug q' m = Inr m' \<and> contents q m = slots m ! unat r # contents q' m' \<and> cons_ok q' m' \<and>
              slots m' = slots m \<and> writeIdx (block m') = writeIdx (block m)"
proof (rule front_cases [OF assms(1)])
  assume "front q m = (None, q\<lparr>writeIdxCache_m := writeIdx (block m)\<rparr>)"
  then show ?thesis using assms(2) by simp
next
  fix wc
  assume ne: "contents q m \<noteq> []" and f: "front q m = (Some (readIdx (block m)), q\<lparr>writeIdxCache_m := wc\<rparr>)"
    and ok: "cons_ok (q\<lparr>writeIdxCache_m := wc\<rparr>) m" and wc: "wc \<noteq> readIdx (block m)"
  have q': "q' = q\<lparr>writeIdxCache_m := wc\<rparr>" "r = readIdx (block m)" using f assms(2) by auto
  show ?thesis
    by (rule pop_front_spec [OF ok, of ndebug])
      (use wc ne contents_hd [OF assms(1) ne] in
        \<open>auto simp: q' consumed_def intro: list.collapse [symmetric, THEN trans]\<close>)
qed

theorem pop_after_front_witness:
  "\<exists>m'. pop_front False (snd (front (fst ring_sample) (snd ring_sample))) (snd ring_sample) = Inr m' \<and>
        contents (snd (front (fst ring_sample) (snd ring_sample))) m' = [20]"
proof -
  obtain r q' where f: "front (fst ring_sample) (snd ring_sample) = (Some r, q')"
    using front_peeks_oldest [OF ring_sample_ok(1)] by (cases "front (fst ring_sample) (snd ring_sample)") (auto simp: Let_def)
  show ?thesis using pop_after_front [OF ring_sample_ok(1) f, of False] f by auto
qed

text \<open>
  \<^verbatim>\<open>pop()\<close> on an empty queue, which its precondition forbids: a debug build stops at the
  assertion; a release build moves the read index past the write index, after which the queue
  presents \<^verbatim>\<open>capacity()\<close> stale elements as if it were full.
\<close>

theorem pop_on_empty:
  assumes "cons_ok q m" and "contents q m = []"
  shows "pop_front False q m = Inl AssertFailed \<and>
         (\<exists>m'. pop_front True q m = Inr m' \<and> length (contents q m') = unat (capacity_q q))"
proof -
  define idx where "idx = (if readIdx (block m) + 1 = capacity_m q then 0 else readIdx (block m) + 1)"
  have b: "rpos m < cap q" "wpos m = rpos m" "2 \<le> cap q"
    using assms contents_Nil_iff [OF assms(1)] by (auto simp: cons_ok_def ring_ok_def)
  have ix: "unat idx = (rpos m + 1) mod cap q" unfolding idx_def by (rule unat_step [OF b(1)])
  have "used (cap q) (wpos m) (unat idx) = cap q - 1"
    using step_hits_iff [OF b(1), of "unat idx"] ix b by simp
  moreover have "unat (capacity_q q) = cap q - 1"
    using b(3) by (simp add: capacity_q_def unat_sub word_le_nat_alt)
  ultimately have "length (contents q (consumed idx m)) = unat (capacity_q q)"
    by (simp add: length_contents consumed_def)
  moreover have "pop_front True q m = Inr (consumed idx m)" "pop_front False q m = Inl AssertFailed"
    using b(2) by (auto simp: pop_front_def Let_def consumed_def idx_def dest: unsigned_word_eqI)
  ultimately show ?thesis by blast
qed

theorem pop_on_empty_witness:
  "let q = ShmSpscQueue\<lparr>capacity_m := 4, writeIdxCache_m := 2\<rparr>;
       m = \<lparr>block = sample_block\<lparr>writeIdx := 2, readIdx := 2\<rparr>, slots = [0, 0, 0, 0 :: nat]\<rparr>
   in pop_front False q m = Inl AssertFailed \<and> (\<exists>m'. pop_front True q m = Inr m' \<and> length (contents q m') = 3)"
proof -
  define q where "q = ShmSpscQueue\<lparr>capacity_m := 4, writeIdxCache_m := 2\<rparr>"
  define m where "m = \<lparr>block = sample_block\<lparr>writeIdx := 2, readIdx := 2\<rparr>, slots = [0, 0, 0, 0 :: nat]\<rparr>"
  have ok: "cons_ok q m" "contents q m = []"
    by (simp_all add: q_def m_def cons_ok_def ring_ok_def used_def contents_def ring_def ShmSpscQueue_def)
  have c: "unat (capacity_q q) = 3" by (simp add: q_def capacity_q_def)
  show ?thesis unfolding Let_def using pop_on_empty [OF ok, unfolded c] unfolding q_def m_def .
qed

text \<open>
  Without concurrent activity \<^verbatim>\<open>size()\<close> is the number of queued elements, never more than
  \<^verbatim>\<open>capacity()\<close>, and \<^verbatim>\<open>empty()\<close> holds exactly when it is zero.
\<close>

theorem size_exact_when_quiescent:
  assumes "ring_ok (cap q) m"
  shows "unat (size_q q m) = length (contents q m) \<and> size_q q m \<le> capacity_q q \<and>
         (empty_q m \<longleftrightarrow> size_q q m = 0)"
proof -
  have b: "wpos m < cap q" "rpos m < cap q" "2 \<le> cap q" using assms by (simp_all add: ring_ok_def)
  have s: "unat (size_q q m) = length (contents q m)"
    using usedSlots_unat [OF b(1,2)] by (simp add: size_q_def size_at_def length_contents)
  moreover have "unat (capacity_q q) = cap q - 1"
    using b(3) by (simp add: capacity_q_def unat_sub word_le_nat_alt)
  moreover have "size_q q m = 0 \<longleftrightarrow> unat (size_q q m) = 0" by (simp add: unat_eq_0)
  ultimately show ?thesis
    using used_less [OF b(1,2)] used_eq_0_iff [OF b(1,2)]
    by (auto simp: word_le_nat_alt length_contents empty_q_def dest: unsigned_word_eqI)
qed

theorem size_exact_when_quiescent_witness:
  "unat (size_q (fst ring_sample) (snd ring_sample)) = 2 \<and>
   size_q (fst ring_sample) (snd ring_sample) \<le> capacity_q (fst ring_sample)"
  using size_exact_when_quiescent [OF ring_sample_ok(2)] by simp

text \<open>
  The documented caveat of \<^verbatim>\<open>size()\<close>: if the peers run between its two loads so that the read
  index overtakes the loaded write index by \<open>i\<close>, it reports \<open>i\<close> short of the number of slots,
  however few elements there are. With \<open>i = 1\<close> that is \<^verbatim>\<open>capacity()\<close> itself.
\<close>

theorem size_torn_snapshot:
  assumes "unat w < cap q" and "0 < i" "i < cap q" and "unat r = (unat w + i) mod cap q"
  shows "unat (size_at q w r) = cap q - i"
proof -
  have "unat r < cap q" using assms by simp
  then show ?thesis
    using usedSlots_unat [of w q r] assms
    by (auto simp: size_at_def used_def mod_below_double split: if_splits)
qed

theorem size_torn_snapshot_witness: "unat (size_at (ShmSpscQueue\<lparr>capacity_m := 4\<rparr>) 3 0) = 3"
  using size_torn_snapshot [of 3 "ShmSpscQueue\<lparr>capacity_m := 4\<rparr>" 1 0] by simp

end
