(* ===== verification/Fifo.thy ===== *)
theory Fifo
  imports Ring
begin

section \<open>The queue's contract and the refinement of it by the ring\<close>

text \<open>
  The contract a client of the queue relies on: a list of at most \<open>bound\<close> elements to which
  pushes append and from which pops take, batches moving as much as fits. \<open>spec_op\<close> states it
  as a function on lists; the locales \<open>bounded_fifo\<close> and \<open>batched_fifo\<close> state it as laws of
  any implementation and derive what clients use (filling and draining, batches against single
  calls, whole runs against the specification). Both are interpreted on the operations of
  \<^verbatim>\<open>ShmSpscQueue\<close>: on one handle used for both ends, as the tests use it, and on a producer's
  and a consumer's handle on the same segment.
\<close>

datatype 'a op =
    Try_push 'a
  | Push_n "'a list" u64
  | Try_pop 'a \<comment> \<open>the caller's variable before the call\<close>
  | Pop_n "'a list" u64 \<comment> \<open>the caller's buffer before the call\<close>

datatype 'a result =
    Pushed bool
  | Pushed_n u64
  | Popped bool 'a
  | Popped_n u64 "'a list"

text \<open>The caller passes buffers that hold the number of elements it announces.\<close>

fun op_ok :: "'a op \<Rightarrow> bool" where
  "op_ok (Push_n src n) = (unat n \<le> length src)"
| "op_ok (Pop_n dst n) = (unat n \<le> length dst)"
| "op_ok _ = True"

fun spec_op :: "nat \<Rightarrow> 'a op \<Rightarrow> 'a list \<Rightarrow> 'a result \<times> 'a list" where
  "spec_op b (Try_push v) xs = (Pushed (length xs < b), if length xs < b then xs @ [v] else xs)"
| "spec_op b (Push_n src n) xs =
     (let k = min (unat n) (b - length xs) in (Pushed_n (of_nat k), xs @ take k src))"
| "spec_op b (Try_pop out) xs = (Popped (xs \<noteq> []) (if xs = [] then out else hd xs), tl xs)"
| "spec_op b (Pop_n dst n) xs =
     (let k = min (unat n) (length xs) in (Popped_n (of_nat k) (splice dst 0 (take k xs)), drop k xs))"

fun spec_run :: "nat \<Rightarrow> 'a op list \<Rightarrow> 'a list \<Rightarrow> 'a result list \<times> 'a list" where
  "spec_run b [] xs = ([], xs)"
| "spec_run b (x # ops) xs =
     (let (r, ys) = spec_op b x xs; (rs, zs) = spec_run b ops ys in (r # rs, zs))"

fun run_ops :: "('a op \<Rightarrow> 's \<Rightarrow> fault + 'a result \<times> 's) \<Rightarrow> 'a op list \<Rightarrow> 's \<Rightarrow> fault + 'a result list \<times> 's" where
  "run_ops step [] s = Inr ([], s)"
| "run_ops step (x # ops) s =
     bindE (step x s) (\<lambda>(r, s'). bindE (run_ops step ops s') (\<lambda>(rs, s''). Inr (r # rs, s'')))"

text \<open>One element at a time until the first refusal, as \<^verbatim>\<open>testBatchMatchesSingle\<close> pushes.\<close>

fun push_each :: "('a \<Rightarrow> 's \<Rightarrow> fault + bool \<times> 's) \<Rightarrow> 'a list \<Rightarrow> 's \<Rightarrow> fault + nat \<times> 's" where
  "push_each push1 [] s = Inr (0, s)"
| "push_each push1 (v # vs) s =
     bindE (push1 v s) (\<lambda>(b, s'). if b then bindE (push_each push1 vs s') (\<lambda>(n, s''). Inr (n + 1, s''))
                               else Inr (0, s'))"

text \<open>Up to \<open>n\<close> elements, one \<^verbatim>\<open>try_pop\<close> at a time.\<close>

fun drain :: "('a \<Rightarrow> 's \<Rightarrow> fault + bool \<times> 'a \<times> 's) \<Rightarrow> 'a \<Rightarrow> nat \<Rightarrow> 's \<Rightarrow> fault + 'a list \<times> 's" where
  "drain pop1 out 0 s = Inr ([], s)"
| "drain pop1 out (Suc n) s =
     bindE (pop1 out s) (\<lambda>(b, x, s'). if b then bindE (drain pop1 x n s') (\<lambda>(xs, s''). Inr (x # xs, s''))
                                   else Inr ([], s'))"

fun op_step ::
  "('a \<Rightarrow> 's \<Rightarrow> fault + bool \<times> 's) \<Rightarrow> ('a \<Rightarrow> 's \<Rightarrow> fault + bool \<times> 'a \<times> 's) \<Rightarrow>
   ('a list \<Rightarrow> u64 \<Rightarrow> 's \<Rightarrow> fault + u64 \<times> 's) \<Rightarrow> ('a list \<Rightarrow> u64 \<Rightarrow> 's \<Rightarrow> fault + u64 \<times> 'a list \<times> 's) \<Rightarrow>
   'a op \<Rightarrow> 's \<Rightarrow> fault + 'a result \<times> 's" where
  "op_step push1 pop1 pushn popn (Try_push v) s = bindE (push1 v s) (\<lambda>(b, s'). Inr (Pushed b, s'))"
| "op_step push1 pop1 pushn popn (Push_n src n) s = bindE (pushn src n s) (\<lambda>(k, s'). Inr (Pushed_n k, s'))"
| "op_step push1 pop1 pushn popn (Try_pop out) s = bindE (pop1 out s) (\<lambda>(b, x, s'). Inr (Popped b x, s'))"
| "op_step push1 pop1 pushn popn (Pop_n dst n) s = bindE (popn dst n s) (\<lambda>(k, xs, s'). Inr (Popped_n k xs, s'))"

text \<open>What a run accepted and what it handed out.\<close>

fun accepted :: "'a op \<Rightarrow> 'a result \<Rightarrow> 'a list" where
  "accepted (Try_push v) (Pushed b) = (if b then [v] else [])"
| "accepted (Push_n src n) (Pushed_n k) = take (unat k) src"
| "accepted _ _ = []"

fun delivered :: "'a result \<Rightarrow> 'a list" where
  "delivered (Popped b x) = (if b then [x] else [])"
| "delivered (Popped_n k xs) = take (unat k) xs"
| "delivered _ = []"

lemma spec_op_conserves:
  assumes "op_ok x" and "spec_op b x xs = (r, ys)"
  shows "xs @ accepted x r = delivered r @ ys"
proof (cases x)
  case (Try_push v)
  then show ?thesis using assms by auto
next
  case (Push_n src n)
  have "min (unat n) (b - length xs) < 18446744073709551616"
    using unat_u64_less [of n] by linarith
  then show ?thesis using Push_n assms by (auto simp: Let_def unat_of_nat_u64)
next
  case (Try_pop out)
  then show ?thesis using assms by (cases xs) auto
next
  case (Pop_n dst n)
  have "min (unat n) (length xs) < 18446744073709551616"
    using unat_u64_less [of n] by linarith
  then show ?thesis using Pop_n assms by (auto simp: Let_def unat_of_nat_u64 splice_def)
qed

lemma spec_run_conserves:
  assumes "list_all op_ok ops" and "spec_run b ops xs = (rs, ys)"
  shows "xs @ concat (map2 accepted ops rs) = concat (map delivered rs) @ ys \<and> length rs = length ops"
  using assms
proof (induction ops arbitrary: xs rs)
  case Nil
  then show ?case by simp
next
  case (Cons x ops)
  obtain r zs where 1: "spec_op b x xs = (r, zs)" by force
  obtain rs' where 2: "spec_run b ops zs = (rs', ys)" and rs: "rs = r # rs'"
    using Cons.prems(2) 1 by (auto simp: Let_def split: prod.splits)
  have "xs @ accepted x r = delivered r @ zs" using spec_op_conserves 1 Cons.prems(1) by fastforce
  moreover have "zs @ concat (map2 accepted ops rs') = concat (map delivered rs') @ ys \<and> length rs' = length ops"
    using Cons.IH [OF _ 2] Cons.prems(1) by simp
  ultimately show ?case using rs by (simp flip: append_assoc) (simp add: append_assoc)
qed

subsection \<open>The contract\<close>

locale bounded_fifo =
  fixes inv :: "'s \<Rightarrow> bool" and items :: "'s \<Rightarrow> 'a list" and bound :: "'s \<Rightarrow> nat"
    and push1 :: "'a \<Rightarrow> 's \<Rightarrow> fault + bool \<times> 's"
    and pop1 :: "'a \<Rightarrow> 's \<Rightarrow> fault + bool \<times> 'a \<times> 's"
  assumes items_bound: "inv s \<Longrightarrow> length (items s) \<le> bound s"
    and push_law: "inv s \<Longrightarrow> \<exists>s'. push1 v s = Inr (length (items s) < bound s, s') \<and> inv s' \<and> bound s' = bound s \<and>
          items s' = (if length (items s) < bound s then items s @ [v] else items s)"
    and pop_law: "inv s \<Longrightarrow> \<exists>s'. pop1 out s = Inr (items s \<noteq> [], if items s = [] then out else hd (items s), s') \<and>
          inv s' \<and> bound s' = bound s \<and> items s' = tl (items s)"
begin

lemma push_each_law:
  fixes vs :: "'a list"
  assumes "inv s"
  defines "k \<equiv> min (length vs) (bound s - length (items s))"
  shows "\<exists>s'. push_each push1 vs s = Inr (k, s') \<and> inv s' \<and> bound s' = bound s \<and> items s' = items s @ take k vs"
  using assms(1) unfolding k_def
proof (induction vs arbitrary: s)
  case Nil
  then show ?case by simp
next
  case (Cons v vs)
  obtain s1 where 1: "push1 v s = Inr (length (items s) < bound s, s1)" "inv s1" "bound s1 = bound s"
    "items s1 = (if length (items s) < bound s then items s @ [v] else items s)"
    using push_law [OF Cons.prems] by blast
  show ?case
  proof (cases "length (items s) < bound s")
    case True
    then obtain s2 where "push_each push1 vs s1 = Inr (min (length vs) (bound s - (length (items s) + 1)), s2)"
      "inv s2" "bound s2 = bound s" "items s2 = items s @ v # take (min (length vs) (bound s - (length (items s) + 1))) vs"
      using Cons.IH [OF 1(2)] 1 by auto
    moreover have "min (length (v # vs)) (bound s - length (items s)) =
        Suc (min (length vs) (bound s - (length (items s) + 1)))"
      using True by simp
    ultimately show ?thesis using True 1 by simp
  next
    case False
    then show ?thesis using 1 by simp
  qed
qed

text \<open>Filling an empty queue and draining it gives the elements back in order.\<close>

lemma drain_law:
  assumes "inv s"
  shows "\<exists>s'. drain pop1 out n s = Inr (take n (items s), s') \<and> inv s' \<and> items s' = drop n (items s)"
  using assms
proof (induction n arbitrary: s out)
  case 0
  then show ?case by simp
next
  case (Suc n)
  obtain s1 where 1: "pop1 out s = Inr (items s \<noteq> [], if items s = [] then out else hd (items s), s1)" "inv s1"
    "items s1 = tl (items s)" using pop_law [OF Suc.prems] by blast
  obtain s2 where "drain pop1 (hd (items s)) n s1 = Inr (take n (items s1), s2)" "inv s2" "items s2 = drop n (items s1)"
    using Suc.IH [OF 1(2)] by blast
  then show ?case using 1 by (cases "items s") auto
qed

end

locale batched_fifo = bounded_fifo +
  fixes pushn :: "'a list \<Rightarrow> u64 \<Rightarrow> 's \<Rightarrow> fault + u64 \<times> 's"
    and popn :: "'a list \<Rightarrow> u64 \<Rightarrow> 's \<Rightarrow> fault + u64 \<times> 'a list \<times> 's"
  assumes pushn_law: "inv s \<Longrightarrow> unat n \<le> length src \<Longrightarrow>
      \<exists>s'. pushn src n s = Inr (of_nat (min (unat n) (bound s - length (items s))), s') \<and> inv s' \<and> bound s' = bound s \<and>
           items s' = items s @ take (min (unat n) (bound s - length (items s))) src"
    and popn_law: "inv s \<Longrightarrow> unat n \<le> length dst \<Longrightarrow>
      \<exists>s'. popn dst n s = Inr (of_nat (min (unat n) (length (items s))),
                               splice dst 0 (take (min (unat n) (length (items s))) (items s)), s') \<and>
           inv s' \<and> bound s' = bound s \<and> items s' = drop (min (unat n) (length (items s))) (items s)"
begin

lemma op_step_refines:
  assumes "inv s" "op_ok x"
  shows "\<exists>s'. op_step push1 pop1 pushn popn x s = Inr (fst (spec_op (bound s) x (items s)), s') \<and> inv s' \<and> bound s' = bound s \<and>
              items s' = snd (spec_op (bound s) x (items s))"
proof (cases x)
  case (Try_push v)
  then show ?thesis using push_law [OF assms(1), of v] by auto
next
  case (Push_n src n)
  then show ?thesis using pushn_law [OF assms(1), of n src] assms(2) by (auto simp: Let_def)
next
  case (Try_pop out)
  then show ?thesis using pop_law [OF assms(1), of out] by auto
next
  case (Pop_n dst n)
  then show ?thesis using popn_law [OF assms(1), of n dst] assms(2) by (auto simp: Let_def)
qed

lemma run_refines:
  assumes "inv s" "list_all op_ok ops"
  shows "\<exists>s'. run_ops (op_step push1 pop1 pushn popn) ops s = Inr (fst (spec_run (bound s) ops (items s)), s') \<and> inv s' \<and>
              items s' = snd (spec_run (bound s) ops (items s))"
  using assms
proof (induction ops arbitrary: s)
  case Nil
  then show ?case by simp
next
  case (Cons x ops)
  obtain s1 where 1: "op_step push1 pop1 pushn popn x s = Inr (fst (spec_op (bound s) x (items s)), s1)" "inv s1" "bound s1 = bound s"
    "items s1 = snd (spec_op (bound s) x (items s))"
    using op_step_refines [OF Cons.prems(1), of x] Cons.prems(2) by auto
  then obtain s2 where "run_ops (op_step push1 pop1 pushn popn) ops s1 = Inr (fst (spec_run (bound s) ops (items s1)), s2)" "inv s2"
    "items s2 = snd (spec_run (bound s) ops (items s1))"
    using Cons.IH [OF 1(2)] Cons.prems(2) by auto
  then show ?case using 1 by (auto simp: Let_def split_beta)
qed

lemma batch_is_singles:
  assumes "inv s" "unat n \<le> length src" "pushn src n s = Inr (k, s1)" "push_each push1 (take (unat n) src) s = Inr (j, s2)"
  shows "unat k = j \<and> items s1 = items s2"
proof -
  have "min (unat n) (bound s - length (items s)) < 18446744073709551616"
    using unat_u64_less [of n] by linarith
  then show ?thesis
    using pushn_law [OF assms(1,2)] push_each_law [OF assms(1), of "take (unat n) src"] assms
    by (auto simp: unat_of_nat_u64 min_def split: if_splits)
qed

end

subsection \<open>One handle for both ends\<close>

type_synonym 'a solo = "queue \<times> 'a shm"

definition solo_push :: "'a \<Rightarrow> 'a solo \<Rightarrow> fault + bool \<times> 'a solo" where
  "solo_push v = (\<lambda>(q, m). bindE (try_push v q m) (\<lambda>(b, q, m). Inr (b, (q, m))))"

definition solo_pop :: "bool \<Rightarrow> 'a \<Rightarrow> 'a solo \<Rightarrow> fault + bool \<times> 'a \<times> 'a solo" where
  "solo_pop ndebug out = (\<lambda>(q, m). bindE (try_pop ndebug out q m) (\<lambda>(b, x, q, m). Inr (b, x, (q, m))))"

definition solo_push_n :: "'a list \<Rightarrow> u64 \<Rightarrow> 'a solo \<Rightarrow> fault + u64 \<times> 'a solo" where
  "solo_push_n src n = (\<lambda>(q, m). bindE (push_n src n q m) (\<lambda>(k, q, m). Inr (k, (q, m))))"

definition solo_pop_n :: "'a list \<Rightarrow> u64 \<Rightarrow> 'a solo \<Rightarrow> fault + u64 \<times> 'a list \<times> 'a solo" where
  "solo_pop_n dst n = (\<lambda>(q, m). bindE (pop_n dst n q m) (\<lambda>(k, xs, q, m). Inr (k, xs, (q, m))))"

definition solo_ok :: "'a solo \<Rightarrow> bool" where
  "solo_ok = (\<lambda>(q, m). prod_ok q m \<and> cons_ok q m)"

definition solo_items :: "'a solo \<Rightarrow> 'a list" where
  "solo_items = (\<lambda>(q, m). contents q m)"

definition solo_bound :: "'a solo \<Rightarrow> nat" where
  "solo_bound = (\<lambda>(q, m). cap q - 1)"

lemmas solo_defs = solo_push_def solo_pop_def solo_push_n_def solo_pop_n_def solo_ok_def solo_items_def solo_bound_def

lemma contents_bound: "ring_ok (cap q) m \<Longrightarrow> length (contents q m) \<le> cap q - 1"
  using used_less [of "wpos m" "cap q" "rpos m"] by (auto simp: length_contents ring_ok_def)

interpretation solo: batched_fifo solo_ok solo_items solo_bound solo_push "solo_pop ndebug" solo_push_n solo_pop_n
  for ndebug
proof unfold_locales
  fix s :: "'b solo" assume "solo_ok s"
  then show "length (solo_items s) \<le> solo_bound s"
    using contents_bound by (cases s) (auto simp: solo_defs prod_ok_def)
next
  fix s :: "'b solo" and v assume "solo_ok s"
  then obtain q m where s: "s = (q, m)" and ok: "prod_ok q m" "cons_ok q m"
    by (cases s) (auto simp: solo_ok_def)
  show "\<exists>s'. solo_push v s = Inr (length (solo_items s) < solo_bound s, s') \<and> solo_ok s' \<and> solo_bound s' = solo_bound s \<and>
      solo_items s' = (if length (solo_items s) < solo_bound s then solo_items s @ [v] else solo_items s)"
    by (rule try_push_cases [OF ok(1), of v]) (use ok prod_ok_refresh in \<open>auto simp: s solo_defs\<close>)
next
  fix s :: "'b solo" and out assume "solo_ok s"
  then obtain q m where s: "s = (q, m)" and ok: "prod_ok q m" "cons_ok q m"
    by (cases s) (auto simp: solo_ok_def)
  show "\<exists>s'. solo_pop ndebug out s = Inr (solo_items s \<noteq> [], if solo_items s = [] then out else hd (solo_items s), s') \<and>
      solo_ok s' \<and> solo_bound s' = solo_bound s \<and> solo_items s' = tl (solo_items s)"
    by (rule try_pop_cases [OF ok(2), of ndebug out]) (use ok cons_ok_refresh in \<open>auto simp: s solo_defs\<close>)
next
  fix s :: "'b solo" and n and src :: "'b list" assume "solo_ok s" and n: "unat (n :: u64) \<le> length src"
  then obtain q m where s: "s = (q, m)" and ok: "prod_ok q m" "cons_ok q m"
    by (cases s) (auto simp: solo_ok_def)
  show "\<exists>s'. solo_push_n src n s = Inr (of_nat (min (unat n) (solo_bound s - length (solo_items s))), s') \<and>
      solo_ok s' \<and> solo_bound s' = solo_bound s \<and>
      solo_items s' = solo_items s @ take (min (unat n) (solo_bound s - length (solo_items s))) src"
    by (rule push_n_cases [OF ok(1) n]) (use ok in \<open>auto simp: s solo_defs\<close>)
next
  fix s :: "'b solo" and n and dst :: "'b list" assume "solo_ok s" and n: "unat (n :: u64) \<le> length dst"
  then obtain q m where s: "s = (q, m)" and ok: "prod_ok q m" "cons_ok q m"
    by (cases s) (auto simp: solo_ok_def)
  show "\<exists>s'. solo_pop_n dst n s = Inr (of_nat (min (unat n) (length (solo_items s))),
        splice dst 0 (take (min (unat n) (length (solo_items s))) (solo_items s)), s') \<and>
      solo_ok s' \<and> solo_bound s' = solo_bound s \<and>
      solo_items s' = drop (min (unat n) (length (solo_items s))) (solo_items s)"
    by (rule pop_n_cases [OF ok(2) n]) (use ok in \<open>auto simp: s solo_defs\<close>)
qed

subsection \<open>A producer's and a consumer's handle\<close>

record 'a chan =
  pend :: queue
  cend :: queue
  mem :: "'a shm"

definition chan_push :: "'a \<Rightarrow> 'a chan \<Rightarrow> fault + bool \<times> 'a chan" where
  "chan_push v c = bindE (try_push v (pend c) (mem c)) (\<lambda>(b, q, m). Inr (b, c\<lparr>pend := q, mem := m\<rparr>))"

definition chan_pop :: "bool \<Rightarrow> 'a \<Rightarrow> 'a chan \<Rightarrow> fault + bool \<times> 'a \<times> 'a chan" where
  "chan_pop ndebug out c =
     bindE (try_pop ndebug out (cend c) (mem c)) (\<lambda>(b, x, q, m). Inr (b, x, c\<lparr>cend := q, mem := m\<rparr>))"

definition chan_push_n :: "'a list \<Rightarrow> u64 \<Rightarrow> 'a chan \<Rightarrow> fault + u64 \<times> 'a chan" where
  "chan_push_n src n c = bindE (push_n src n (pend c) (mem c)) (\<lambda>(k, q, m). Inr (k, c\<lparr>pend := q, mem := m\<rparr>))"

definition chan_pop_n :: "'a list \<Rightarrow> u64 \<Rightarrow> 'a chan \<Rightarrow> fault + u64 \<times> 'a list \<times> 'a chan" where
  "chan_pop_n dst n c =
     bindE (pop_n dst n (cend c) (mem c)) (\<lambda>(k, xs, q, m). Inr (k, xs, c\<lparr>cend := q, mem := m\<rparr>))"

definition chan_ok :: "'a chan \<Rightarrow> bool" where
  "chan_ok c \<longleftrightarrow> prod_ok (pend c) (mem c) \<and> cons_ok (cend c) (mem c) \<and> cap (pend c) = cap (cend c)"

definition chan_items :: "'a chan \<Rightarrow> 'a list" where
  "chan_items c = contents (cend c) (mem c)"

definition chan_bound :: "'a chan \<Rightarrow> nat" where
  "chan_bound c = cap (cend c) - 1"

definition chan_step :: "bool \<Rightarrow> 'a op \<Rightarrow> 'a chan \<Rightarrow> fault + 'a result \<times> 'a chan" where
  "chan_step ndebug = op_step chan_push (chan_pop ndebug) chan_push_n chan_pop_n"

lemmas chan_defs = chan_push_def chan_pop_def chan_push_n_def chan_pop_n_def chan_ok_def chan_items_def chan_bound_def

lemma contents_cong: "cap p = cap q \<Longrightarrow> contents p m = contents q m"
  by (simp add: contents_def)

interpretation chan: batched_fifo chan_ok chan_items chan_bound chan_push "chan_pop ndebug" chan_push_n chan_pop_n
  for ndebug
proof unfold_locales
  fix c :: "'b chan" assume "chan_ok c"
  then show "length (chan_items c) \<le> chan_bound c"
    using contents_bound by (auto simp: chan_defs cons_ok_def)
next
  fix c :: "'b chan" and v assume "chan_ok c"
  then have ok: "prod_ok (pend c) (mem c)" "cons_ok (cend c) (mem c)" and same: "cap (pend c) = cap (cend c)"
    by (auto simp: chan_ok_def)
  show "\<exists>c'. chan_push v c = Inr (length (chan_items c) < chan_bound c, c') \<and> chan_ok c' \<and> chan_bound c' = chan_bound c \<and>
      chan_items c' = (if length (chan_items c) < chan_bound c then chan_items c @ [v] else chan_items c)"
    by (rule try_push_cases [OF ok(1), of v])
      (use ok same prod_ok_refresh in \<open>auto simp: chan_defs contents_cong [OF same]\<close>)
next
  fix c :: "'b chan" and out assume "chan_ok c"
  then have ok: "prod_ok (pend c) (mem c)" "cons_ok (cend c) (mem c)" and same: "cap (pend c) = cap (cend c)"
    by (auto simp: chan_ok_def)
  show "\<exists>c'. chan_pop ndebug out c = Inr (chan_items c \<noteq> [], if chan_items c = [] then out else hd (chan_items c), c') \<and>
      chan_ok c' \<and> chan_bound c' = chan_bound c \<and> chan_items c' = tl (chan_items c)"
    by (rule try_pop_cases [OF ok(2), of ndebug out])
      (use ok same cons_ok_refresh in \<open>auto simp: chan_defs\<close>)
next
  fix c :: "'b chan" and n and src :: "'b list" assume "chan_ok c" and n: "unat (n :: u64) \<le> length src"
  then have ok: "prod_ok (pend c) (mem c)" "cons_ok (cend c) (mem c)" and same: "cap (pend c) = cap (cend c)"
    by (auto simp: chan_ok_def)
  show "\<exists>c'. chan_push_n src n c = Inr (of_nat (min (unat n) (chan_bound c - length (chan_items c))), c') \<and>
      chan_ok c' \<and> chan_bound c' = chan_bound c \<and>
      chan_items c' = chan_items c @ take (min (unat n) (chan_bound c - length (chan_items c))) src"
    by (rule push_n_cases [OF ok(1) n]) (use ok same in \<open>auto simp: chan_defs contents_cong [OF same]\<close>)
next
  fix c :: "'b chan" and n and dst :: "'b list" assume "chan_ok c" and n: "unat (n :: u64) \<le> length dst"
  then have ok: "prod_ok (pend c) (mem c)" "cons_ok (cend c) (mem c)" and same: "cap (pend c) = cap (cend c)"
    by (auto simp: chan_ok_def)
  show "\<exists>c'. chan_pop_n dst n c = Inr (of_nat (min (unat n) (length (chan_items c))),
        splice dst 0 (take (min (unat n) (length (chan_items c))) (chan_items c)), c') \<and>
      chan_ok c' \<and> chan_bound c' = chan_bound c \<and>
      chan_items c' = drop (min (unat n) (length (chan_items c))) (chan_items c)"
    by (rule pop_n_cases [OF ok(2) n]) (use ok same in \<open>auto simp: chan_defs\<close>)
qed

subsection \<open>Properties\<close>

definition sample_queue :: queue where
  "sample_queue = ShmSpscQueue\<lparr>capacity_m := 4\<rparr>"

definition sample_chan :: "nat chan" where
  "sample_chan = \<lparr>pend = sample_queue, cend = sample_queue,
     mem = \<lparr>block = sample_block\<lparr>capacity := 4, writeIdx := 0, readIdx := 0\<rparr>, slots = [0, 0, 0, 0]\<rparr>\<rparr>"

lemmas sample_defs = sample_chan_def sample_queue_def sample_block_def ShmSpscQueue_def

lemma sample_chan_ok [simp]: "chan_ok sample_chan" "chan_items sample_chan = []" "chan_bound sample_chan = 3"
  by (simp_all add: chan_defs prod_ok_def cons_ok_def ring_ok_def contents_def ring_def sample_defs)

lemma sample_solo_ok [simp]: "solo_ok (sample_queue, mem sample_chan)"
  by (simp add: solo_ok_def prod_ok_def cons_ok_def ring_ok_def sample_defs)

text \<open>
  C16. The queue refines its specification: on a valid pair of handles, any sequence of single and
  batched pushes and pops, in any order between the two ends, never faults and returns exactly
  what a bounded list of \<^verbatim>\<open>capacity()\<close> elements would, batches moving as many as fit.
\<close>

theorem queue_refines_bounded_list:
  assumes "chan_ok c" and "list_all op_ok ops"
  shows "\<exists>c'. run_ops (chan_step ndebug) ops c = Inr (fst (spec_run (chan_bound c) ops (chan_items c)), c') \<and>
              chan_ok c' \<and> chan_items c' = snd (spec_run (chan_bound c) ops (chan_items c))"
  unfolding chan_step_def by (rule chan.run_refines [OF assms])

theorem queue_refines_bounded_list_witness:
  "\<exists>c'. run_ops (chan_step True) [Push_n [1, 2] 2, Try_push 3, Try_push 4, Try_pop 0, Pop_n [0, 0] 2] sample_chan =
          Inr ([Pushed_n 2, Pushed True, Pushed False, Popped True 1, Popped_n 2 [2, 3]], c')"
proof -
  let ?ops = "[Push_n [1, 2] 2, Try_push 3, Try_push 4, Try_pop 0, Pop_n [0, 0] 2] :: nat op list"
  have "fst (spec_run 3 ?ops []) = [Pushed_n 2, Pushed True, Pushed False, Popped True 1, Popped_n 2 [2, 3]]"
    by (simp add: splice_def Let_def)
  then show ?thesis using queue_refines_bounded_list [of sample_chan ?ops True] by auto
qed

text \<open>
  First in, first out: over any such run, what was in the queue followed by everything accepted,
  in order, is everything handed out, in order, followed by what is left. Nothing is lost,
  duplicated or reordered.
\<close>

theorem queue_fifo:
  assumes "chan_ok c" and "list_all op_ok ops" and "run_ops (chan_step ndebug) ops c = Inr (rs, c')"
  shows "chan_items c @ concat (map2 accepted ops rs) = concat (map delivered rs) @ chan_items c'"
proof -
  have "rs = fst (spec_run (chan_bound c) ops (chan_items c))"
    "chan_items c' = snd (spec_run (chan_bound c) ops (chan_items c))"
    using chan.run_refines [OF assms(1,2), of ndebug] assms(3) by (auto simp: chan_step_def)
  then show ?thesis
    using spec_run_conserves [OF assms(2), of "chan_bound c" "chan_items c" rs "chan_items c'"] by simp
qed

theorem queue_fifo_witness:
  "\<exists>rs c'. run_ops (chan_step True) [Try_push 7, Try_push 8, Try_pop 0] sample_chan = Inr (rs, c') \<and>
     concat (map2 accepted [Try_push 7, Try_push 8, Try_pop 0] rs) = concat (map delivered rs) @ chan_items c'"
proof -
  define ops :: "nat op list" where "ops = [Try_push 7, Try_push 8, Try_pop 0]"
  have ok: "list_all op_ok ops" by (simp add: ops_def)
  obtain rs c' where run: "run_ops (chan_step True) ops sample_chan = Inr (rs, c')"
    using chan.run_refines [OF sample_chan_ok(1) ok, of True] unfolding chan_step_def by blast
  then show ?thesis
    using queue_fifo [OF sample_chan_ok(1) ok run] unfolding ops_def sample_chan_ok(2) append_Nil by blast
qed

text \<open>
  C17. A batch is the single operation repeated: \<^verbatim>\<open>push_n\<close> accepts as many elements as calling
  \<^verbatim>\<open>try_push\<close> on them one by one until the first refusal, and leaves the same queue.
\<close>

theorem push_n_equals_repeated_try_push:
  assumes "solo_ok (q, m)" and "unat n \<le> length src"
    and "solo_push_n src n (q, m) = Inr (k, s1)" and "push_each solo_push (take (unat n) src) (q, m) = Inr (j, s2)"
  shows "unat k = j \<and> solo_items s1 = solo_items s2"
  by (rule solo.batch_is_singles [OF assms])

theorem push_n_equals_repeated_try_push_witness:
  "\<exists>k s1 j s2. solo_push_n [1, 2, 3, 4, 5] 5 (sample_queue, mem sample_chan) = Inr (k, s1) \<and>
     push_each solo_push [1, 2, 3, 4, 5] (sample_queue, mem sample_chan) = Inr (j, s2) \<and>
     unat k = j \<and> solo_items s1 = solo_items s2"
proof -
  define s where "s = (sample_queue, mem sample_chan)"
  define src :: "nat list" where "src = [1, 2, 3, 4, 5]"
  have ok: "solo_ok s" and n: "unat (5 :: u64) \<le> length src" and src: "take (unat (5 :: u64)) src = src"
    by (simp_all add: s_def src_def)
  obtain k s1 where 1: "solo_push_n src 5 s = Inr (k, s1)"
    using solo.pushn_law [OF ok n] by blast
  obtain j s2 where 2: "push_each solo_push (take (unat (5 :: u64)) src) s = Inr (j, s2)"
    using solo.push_each_law [OF ok] by blast
  show ?thesis
    using push_n_equals_repeated_try_push [OF ok [unfolded s_def] n 1 [unfolded s_def] 2 [unfolded s_def]] 1 2
    unfolding src unfolding s_def src_def by blast
qed

end
