(* ===== verification/Spsc.thy ===== *)
theory Spsc
  imports Ring
begin

section \<open>Producer and consumer running concurrently\<close>

text \<open>
  The operations of \<open>Ring\<close> cut at their atomic accesses, with the two processes interleaved
  freely. Memory is release/acquire memory, not sequentially consistent memory: each index has
  one writer, so its modification order is the list of the values stored to it, and an acquire
  load of the peer's index may return any value of that list that is not older than the one this
  process loaded last. Element copies are not atomic: every slot is written or read in a step of
  its own.

  Data races are detected, not assumed away. A write to a slot is stamped with the number of the
  index store that will publish it, a read with the number of the store that will release it; an
  access is \<open>bad\<close> when the other side's last access to the slot is not ordered before it by an
  acquire load that saw that store, or when the slot lies outside the array. A process may also
  die between any two steps and be replaced by one that attaches to the same ring afterwards; death
  is a kernel event, so the successor starts with at least its predecessor's view. \<open>Discipline\<close> looks at
  processes that are already attaching while their predecessor still works.

  \<open>wtot\<close>, \<open>rtot\<close>, \<open>sent\<close> and \<open>got\<close> are history variables: no rule reads them. They
  record how many elements each store published or released, and what was published and popped.
\<close>

datatype 'a ppc =
    PIdle
  | PTry 'a u64 \<comment> \<open>\<^verbatim>\<open>try_push\<close>, line 218: the cache says full, the load is next\<close>
  | PBatch "'a list" u64 \<comment> \<open>\<^verbatim>\<open>push_n\<close>, line 238\<close>
  | PCopy "(nat \<times> 'a) list" "'a list" u64 \<comment> \<open>slots still to write, the elements of this call, the next index\<close>

datatype 'a cpc =
    CIdle
  | CFront \<comment> \<open>\<^verbatim>\<open>front\<close>, line 263\<close>
  | CBatch u64 \<comment> \<open>\<^verbatim>\<open>pop_n\<close>, line 302\<close>
  | CHeld u64 "'a option" \<comment> \<open>\<^verbatim>\<open>front\<close> returned this slot; what was last read through the pointer\<close>
  | CCopy "nat list" "'a list" u64 \<comment> \<open>slots still to read, the elements copied, the next index\<close>

record 'a conf =
  whist :: "u64 list"
  rhist :: "u64 list"
  cells :: "'a list"
  wmark :: "nat list"
  rmark :: "nat list"
  pq :: queue
  rview :: nat
  ppc :: "'a ppc"
  cq :: queue
  wview :: nat
  cpc :: "'a cpc"
  bad :: bool
  wtot :: "nat list"
  rtot :: "nat list"
  sent :: "'a list"
  got :: "'a option list"

text \<open>The index after one element (lines 213--216 and 278--281) and after a batch (lines 251--254, 315--318).\<close>

definition next_one :: "queue \<Rightarrow> u64 \<Rightarrow> u64" where
  "next_one q i = (let next = i + 1 in if next = capacity_m q then 0 else next)"

definition next_many :: "queue \<Rightarrow> u64 \<Rightarrow> u64 \<Rightarrow> u64" where
  "next_many q i count = (let next = i + count in if next \<ge> capacity_m q then next - capacity_m q else next)"

text \<open>The slots a batch of \<open>count\<close> elements at index \<open>i\<close> touches, in the order of its two copies (lines 245--250, 309--314).\<close>

definition batch_slots :: "queue \<Rightarrow> u64 \<Rightarrow> u64 \<Rightarrow> nat list" where
  "batch_slots q i count =
     (let first = min count (capacity_m q - i)
      in [unat i ..< unat i + unat first] @ (if count > first then [0 ..< unat (count - first)] else []))"

definition copy_one :: "'a \<Rightarrow> u64 \<Rightarrow> 'a conf \<Rightarrow> 'a ppc" where
  "copy_one v next s = PCopy [(unat (last (whist s)), v)] [v] next"

definition copy_many :: "'a list \<Rightarrow> u64 \<Rightarrow> u64 \<Rightarrow> 'a conf \<Rightarrow> 'a ppc" where
  "copy_many src n free s =
     (let w = last (whist s); count = min n free; b = take (unat count) src
      in PCopy (zip (batch_slots (pq s) w count) b) b (next_many (pq s) w count))"

definition read_many :: "u64 \<Rightarrow> u64 \<Rightarrow> 'a conf \<Rightarrow> 'a cpc" where
  "read_many n avail s =
     (let r = last (rhist s); count = min n avail
      in CCopy (batch_slots (cq s) r count) [] (next_many (cq s) r count))"

text \<open>The steps of the producer.\<close>

inductive prod_step :: "'a conf \<Rightarrow> 'a conf \<Rightarrow> bool" where
  try_push_cached: "ppc s = PIdle \<Longrightarrow> next = next_one (pq s) (last (whist s)) \<Longrightarrow> next \<noteq> readIdxCache_m (pq s) \<Longrightarrow>
    prod_step s (s\<lparr>ppc := copy_one v next s\<rparr>)"
| try_push_miss: "ppc s = PIdle \<Longrightarrow> next = next_one (pq s) (last (whist s)) \<Longrightarrow> next = readIdxCache_m (pq s) \<Longrightarrow>
    prod_step s (s\<lparr>ppc := PTry v next\<rparr>)"
| try_push_load: "ppc s = PTry v next \<Longrightarrow> rview s \<le> j \<Longrightarrow> j < length (rhist s) \<Longrightarrow> x = rhist s ! j \<Longrightarrow>
    prod_step s (s\<lparr>rview := j, pq := (pq s)\<lparr>readIdxCache_m := x\<rparr>,
                   ppc := (if next = x then PIdle else copy_one v next s)\<rparr>)"
| push_n_cached: "ppc s = PIdle \<Longrightarrow> n \<noteq> 0 \<Longrightarrow> unat n \<le> length src \<Longrightarrow>
    free = freeSlots (pq s) (last (whist s)) (readIdxCache_m (pq s)) \<Longrightarrow> \<not> free < n \<Longrightarrow>
    prod_step s (s\<lparr>ppc := copy_many src n free s\<rparr>)"
| push_n_miss: "ppc s = PIdle \<Longrightarrow> n \<noteq> 0 \<Longrightarrow> unat n \<le> length src \<Longrightarrow>
    freeSlots (pq s) (last (whist s)) (readIdxCache_m (pq s)) < n \<Longrightarrow>
    prod_step s (s\<lparr>ppc := PBatch src n\<rparr>)"
| push_n_load: "ppc s = PBatch src n \<Longrightarrow> rview s \<le> j \<Longrightarrow> j < length (rhist s) \<Longrightarrow> x = rhist s ! j \<Longrightarrow>
    free = freeSlots (pq s) (last (whist s)) x \<Longrightarrow>
    prod_step s (s\<lparr>rview := j, pq := (pq s)\<lparr>readIdxCache_m := x\<rparr>,
                   ppc := (if free = 0 then PIdle else copy_many src n free s)\<rparr>)"
| copy_in: "ppc s = PCopy ((i, v) # todo) b next \<Longrightarrow>
    prod_step s (s\<lparr>cells := (cells s)[i := v], wmark := (wmark s)[i := length (whist s)],
                   bad := (bad s \<or> length (cells s) \<le> i \<or> rview s < rmark s ! i), ppc := PCopy todo b next\<rparr>)"
| publish_store: "ppc s = PCopy [] b next \<Longrightarrow>
    prod_step s (s\<lparr>whist := whist s @ [next], ppc := PIdle,
                   wtot := wtot s @ [last (wtot s) + length b], sent := sent s @ b\<rparr>)"
| prod_replaced: "rview s \<le> j \<Longrightarrow> j < length (rhist s) \<Longrightarrow>
    prod_step s (s\<lparr>rview := j, pq := (pq s)\<lparr>readIdxCache_m := rhist s ! j\<rparr>, ppc := PIdle\<rparr>)"

text \<open>
  The steps of the consumer. \<^verbatim>\<open>try_pop\<close> is \<open>front_*\<close>, one \<open>peek\<close> and \<open>pop_store\<close>. The assertion
  of \<^verbatim>\<open>pop\<close> (line 276) may load any admissible write index; if that equals the read index the
  process aborts, which is a \<open>bad\<close> event too.
\<close>

inductive cons_step :: "'a conf \<Rightarrow> 'a conf \<Rightarrow> bool" where
  front_cached: "cpc s = CIdle \<Longrightarrow> last (rhist s) \<noteq> writeIdxCache_m (cq s) \<Longrightarrow>
    cons_step s (s\<lparr>cpc := CHeld (last (rhist s)) None\<rparr>)"
| front_miss: "cpc s = CIdle \<Longrightarrow> last (rhist s) = writeIdxCache_m (cq s) \<Longrightarrow> cons_step s (s\<lparr>cpc := CFront\<rparr>)"
| front_load: "cpc s = CFront \<Longrightarrow> wview s \<le> j \<Longrightarrow> j < length (whist s) \<Longrightarrow> x = whist s ! j \<Longrightarrow>
    cons_step s (s\<lparr>wview := j, cq := (cq s)\<lparr>writeIdxCache_m := x\<rparr>,
                   cpc := (if last (rhist s) = x then CIdle else CHeld (last (rhist s)) None)\<rparr>)"
| peek: "cpc s = CHeld r out \<Longrightarrow>
    cons_step s (s\<lparr>rmark := (rmark s)[unat r := length (rhist s)], cpc := CHeld r (Some (cells s ! unat r)),
                   bad := (bad s \<or> length (cells s) \<le> unat r \<or> wview s < wmark s ! unat r)\<rparr>)"
| pop_store: "cpc s = CHeld r out \<Longrightarrow>
    cons_step s (s\<lparr>rhist := rhist s @ [next_one (cq s) (last (rhist s))], cpc := CIdle,
                   rtot := rtot s @ [last (rtot s) + 1], got := got s @ [out]\<rparr>)"
| pop_assert_fails: "cpc s = CHeld r out \<Longrightarrow> wview s \<le> j \<Longrightarrow> j < length (whist s) \<Longrightarrow> whist s ! j = last (rhist s) \<Longrightarrow>
    cons_step s (s\<lparr>bad := True\<rparr>)"
| pop_n_cached: "cpc s = CIdle \<Longrightarrow> n \<noteq> 0 \<Longrightarrow> avail = usedSlots (cq s) (writeIdxCache_m (cq s)) (last (rhist s)) \<Longrightarrow>
    \<not> avail < n \<Longrightarrow> cons_step s (s\<lparr>cpc := read_many n avail s\<rparr>)"
| pop_n_miss: "cpc s = CIdle \<Longrightarrow> n \<noteq> 0 \<Longrightarrow> usedSlots (cq s) (writeIdxCache_m (cq s)) (last (rhist s)) < n \<Longrightarrow>
    cons_step s (s\<lparr>cpc := CBatch n\<rparr>)"
| pop_n_load: "cpc s = CBatch n \<Longrightarrow> wview s \<le> j \<Longrightarrow> j < length (whist s) \<Longrightarrow> x = whist s ! j \<Longrightarrow>
    avail = usedSlots (cq s) x (last (rhist s)) \<Longrightarrow>
    cons_step s (s\<lparr>wview := j, cq := (cq s)\<lparr>writeIdxCache_m := x\<rparr>,
                   cpc := (if avail = 0 then CIdle else read_many n avail s)\<rparr>)"
| copy_out: "cpc s = CCopy (i # todo) acc next \<Longrightarrow>
    cons_step s (s\<lparr>rmark := (rmark s)[i := length (rhist s)], cpc := CCopy todo (acc @ [cells s ! i]) next,
                   bad := (bad s \<or> length (cells s) \<le> i \<or> wview s < wmark s ! i)\<rparr>)"
| release_store: "cpc s = CCopy [] acc next \<Longrightarrow>
    cons_step s (s\<lparr>rhist := rhist s @ [next], cpc := CIdle,
                   rtot := rtot s @ [last (rtot s) + length acc], got := got s @ map Some acc\<rparr>)"
| cons_replaced: "wview s \<le> j \<Longrightarrow> j < length (whist s) \<Longrightarrow>
    cons_step s (s\<lparr>wview := j, cq := (cq s)\<lparr>writeIdxCache_m := whist s ! j\<rparr>, cpc := CIdle\<rparr>)"

definition spsc_step :: "'a conf \<Rightarrow> 'a conf \<Rightarrow> bool" where
  "spsc_step s t \<longleftrightarrow> prod_step s t \<or> cons_step s t"

text \<open>A ring as \<^verbatim>\<open>create\<close> leaves it, with a fresh handle on each side.\<close>

definition spsc_init :: "u64 \<Rightarrow> 'a list \<Rightarrow> 'a conf" where
  "spsc_init c xs =
     \<lparr>whist = [0], rhist = [0], cells = xs, wmark = replicate (length xs) 0, rmark = replicate (length xs) 0,
      pq = ShmSpscQueue\<lparr>capacity_m := c, role_m := Producer\<rparr>, rview = 0, ppc = PIdle,
      cq = ShmSpscQueue\<lparr>capacity_m := c, role_m := Consumer\<rparr>, wview = 0, cpc = CIdle,
      bad = False, wtot = [0], rtot = [0], sent = [], got = []\<rparr>"

definition geometry_ok :: "u64 \<Rightarrow> 'a list \<Rightarrow> bool" where
  "geometry_ok c xs \<longleftrightarrow> 2 \<le> unat c \<and> unat c \<le> 2 ^ 63 \<and> unat c \<le> length xs"

inductive reachable :: "u64 \<Rightarrow> 'a list \<Rightarrow> 'a conf \<Rightarrow> bool" for c :: u64 and xs :: "'a list" where
  init: "reachable c xs (spsc_init c xs)"
| step: "reachable c xs s \<Longrightarrow> spsc_step s t \<Longrightarrow> reachable c xs t"

subsection \<open>Index arithmetic over running totals\<close>

text \<open>
  The totals never wrap; the index of a total is its residue. All of the producer's and the
  consumer's index arithmetic is the same arithmetic on totals.
\<close>

abbreviation idx :: "nat \<Rightarrow> nat \<Rightarrow> u64" where
  "idx n p \<equiv> of_nat (p mod n)"

lemma unat_idx:
  assumes "0 < n" "n \<le> 2 ^ 63"
  shows "unat (idx n p) = p mod n"
proof -
  have "p mod n < n" using assms by simp
  then have "p mod n < 18446744073709551616" using assms(2) by simp
  then show ?thesis by (rule unat_of_nat_u64)
qed

lemma idx_eq_iff: "0 < n \<Longrightarrow> n \<le> 2 ^ 63 \<Longrightarrow> idx n p = idx n p' \<longleftrightarrow> p mod n = p' mod n"
  by (metis unat_idx)

lemma next_one_idx:
  assumes "cap q = n" "2 \<le> n" "n \<le> 2 ^ 63"
  shows "next_one q (idx n p) = idx n (Suc p)"
proof (rule unsigned_word_eqI)
  have u: "unat (idx n x) = x mod n" for x using assms by (simp add: unat_idx)
  show "unat (next_one q (idx n p)) = unat (idx n (Suc p))"
    using unat_step [of "idx n p" "capacity_m q"] assms u [of p] u [of "Suc p"]
    by (simp add: next_one_def Let_def mod_Suc_eq)
qed

lemma next_many_idx:
  assumes "cap q = n" "2 \<le> n" "n \<le> 2 ^ 63" "unat k \<le> n"
  shows "next_many q (idx n p) k = idx n (p + unat k)"
proof (rule unsigned_word_eqI)
  have u: "unat (idx n x) = x mod n" for x using assms by (simp add: unat_idx)
  show "unat (next_many q (idx n p) k) = unat (idx n (p + unat k))"
    using unat_advance [of "idx n p" "capacity_m q" k] assms u [of p] u [of "p + unat k"]
    by (simp add: next_many_def Let_def mod_add_left_eq)
qed

lemma batch_slots_idx:
  assumes "cap q = n" "2 \<le> n" "n \<le> 2 ^ 63" "unat k \<le> n"
  shows "batch_slots q (idx n p) k = map (\<lambda>i. (p + i) mod n) [0..<unat k]"
proof -
  define w f where "w = p mod n" and "f = min (unat k) (n - p mod n)"
  have w: "unat (idx n p) = w" "w < n" using assms by (simp_all add: unat_idx w_def)
  have f: "unat (min k (capacity_m q - idx n p)) = f"
    using w assms(1) by (simp add: unat_min unat_sub word_le_nat_alt f_def flip: w_def)
  have m: "min k (capacity_m q - idx n p) \<le> k" by simp
  have rest: "unat (k - min k (capacity_m q - idx n p)) = unat k - f"
    using f m by (simp only: unat_sub word_le_nat_alt)
  have gt: "min k (capacity_m q - idx n p) < k \<longleftrightarrow> f < unat k"
    using f by (simp only: word_less_nat_alt)
  have "batch_slots q (idx n p) k = [w..<w + f] @ [0..<unat k - f]"
    unfolding batch_slots_def Let_def gt rest f w(1) by auto
  also have "\<dots> = map (\<lambda>i. (w + i) mod n) [0..<unat k]"
  proof (rule nth_equalityI)
    fix i assume "i < length ([w..<w + f] @ [0..<unat k - f])"
    then have i: "i < unat k" by (auto simp: f_def split: if_splits)
    show "([w..<w + f] @ [0..<unat k - f]) ! i = map (\<lambda>i. (w + i) mod n) [0..<unat k] ! i"
      using i w(2) assms(4) by (auto simp: nth_append mod_below_double f_def simp flip: w_def)
  qed (auto simp: f_def)
  finally show ?thesis by (simp add: w_def mod_add_left_eq)
qed

lemma freeSlots_idx:
  assumes "cap q = n" "2 \<le> n" "n \<le> 2 ^ 63" "R \<le> P" "P < R + n"
  shows "unat (freeSlots q (idx n P) (idx n R)) = n - 1 - (P - R)"
  using freeSlots_unat [of "idx n P" q "idx n R"] used_of_totals [OF assms(4,5)] assms by (simp add: unat_idx)

lemma usedSlots_idx:
  assumes "cap q = n" "2 \<le> n" "n \<le> 2 ^ 63" "C \<le> W" "W < C + n"
  shows "unat (usedSlots q (idx n W) (idx n C)) = W - C"
  using usedSlots_unat [of "idx n W" q "idx n C"] used_of_totals [OF assms(4,5)] assms by (simp add: unat_idx)

lemma next_free_iff:
  assumes "2 \<le> n" "n \<le> 2 ^ 63" "R \<le> P" "P < R + n"
  shows "idx n (Suc P) = idx n R \<longleftrightarrow> Suc P = R + n"
proof -
  have "Suc P mod n = R mod n \<longleftrightarrow> Suc P = R + n"
    using mod_eq_window [of R n "Suc P"] assms by fastforce
  then show ?thesis using assms by (simp add: idx_eq_iff)
qed

lemma idx_empty_iff:
  assumes "2 \<le> n" "n \<le> 2 ^ 63" "C \<le> W" "W < C + n"
  shows "idx n C = idx n W \<longleftrightarrow> C = W"
  using mod_eq_window [of C n W] assms by (auto simp: idx_eq_iff)

subsection \<open>The invariant\<close>

text \<open>
  \<open>P\<close> and \<open>C\<close> are the totals published and released so far, \<open>R\<close> and \<open>W\<close> the totals the
  producer and the consumer have seen of each other. The positions \<open>C ..< P\<close> hold the elements
  sent and not yet popped; the producer writes only to positions from \<open>P\<close> up to one ring length
  above \<open>R\<close>, the consumer reads only positions from \<open>C\<close> up to \<open>W\<close>.
\<close>

abbreviation "totP s \<equiv> last (wtot s)"
abbreviation "totC s \<equiv> last (rtot s)"
abbreviation "totR s \<equiv> rtot s ! rview s"
abbreviation "totW s \<equiv> wtot s ! wview s"

definition shape :: "nat \<Rightarrow> 'a conf \<Rightarrow> bool" where
  "shape n s \<longleftrightarrow> cap (pq s) = n \<and> cap (cq s) = n \<and> 2 \<le> n \<and> n \<le> 2 ^ 63 \<and> n \<le> length (cells s) \<and>
     length (wmark s) = length (cells s) \<and> length (rmark s) = length (cells s)"

definition hist :: "nat \<Rightarrow> 'a conf \<Rightarrow> bool" where
  "hist n s \<longleftrightarrow> wtot s \<noteq> [] \<and> rtot s \<noteq> [] \<and> sorted (wtot s) \<and> sorted (rtot s) \<and>
     whist s = map (idx n) (wtot s) \<and> rhist s = map (idx n) (rtot s) \<and>
     rview s < length (rtot s) \<and> wview s < length (wtot s) \<and>
     readIdxCache_m (pq s) = idx n (totR s) \<and> writeIdxCache_m (cq s) = idx n (totW s) \<and>
     totC s \<le> totW s \<and> totP s < totR s + n"

definition data :: "nat \<Rightarrow> 'a conf \<Rightarrow> bool" where
  "data n s \<longleftrightarrow> length (sent s) = totP s \<and> length (got s) = totC s \<and>
     (\<forall>i. totC s \<le> i \<and> i < totP s \<longrightarrow> cells s ! (i mod n) = sent s ! i) \<and>
     (\<forall>i < totC s. got s ! i = None \<or> got s ! i = Some (sent s ! i))"

definition wmarks :: "nat \<Rightarrow> 'a conf \<Rightarrow> bool" where
  "wmarks n s \<longleftrightarrow> (\<forall>k < length (cells s). wmark s ! k \<le> length (wtot s)) \<and>
     (\<forall>i j. totC s \<le> i \<and> i < totP s \<and> j < length (wtot s) \<and> i < wtot s ! j \<longrightarrow> wmark s ! (i mod n) \<le> j)"

definition rmarks :: "nat \<Rightarrow> 'a conf \<Rightarrow> bool" where
  "rmarks n s \<longleftrightarrow> (\<forall>k < length (cells s). rmark s ! k \<le> length (rtot s)) \<and>
     (\<forall>i j. i < totP s \<and> totP s \<le> i + n \<and> j < length (rtot s) \<and> i < rtot s ! j \<longrightarrow> rmark s ! (i mod n) \<le> j) \<and>
     (\<forall>k < n. totP s \<le> k \<longrightarrow> rmark s ! k = 0)"

definition ppc_ok :: "nat \<Rightarrow> nat \<Rightarrow> nat \<Rightarrow> 'a list \<Rightarrow> 'a ppc \<Rightarrow> bool" where
  "ppc_ok n P R xs pc = (case pc of
     PIdle \<Rightarrow> True
   | PTry v next \<Rightarrow> next = idx n (Suc P)
   | PBatch src k \<Rightarrow> unat k \<le> length src
   | PCopy todo b next \<Rightarrow> P + length b < R + n \<and> next = idx n (P + length b) \<and>
       (\<exists>d \<le> length b. todo = map (\<lambda>i. ((P + i) mod n, b ! i)) [d..<length b] \<and>
          (\<forall>i < d. xs ! ((P + i) mod n) = b ! i)))"

definition cpc_ok :: "nat \<Rightarrow> nat \<Rightarrow> nat \<Rightarrow> 'a list \<Rightarrow> 'a cpc \<Rightarrow> bool" where
  "cpc_ok n C W xs pc = (case pc of
     CIdle \<Rightarrow> True | CFront \<Rightarrow> True | CBatch _ \<Rightarrow> True
   | CHeld r out \<Rightarrow> r = idx n C \<and> C < W \<and> (out = None \<or> out = Some (xs ! C))
   | CCopy todo acc next \<Rightarrow> C + length acc + length todo \<le> W \<and> next = idx n (C + length acc + length todo) \<and>
       acc = take (length acc) (drop C xs) \<and>
       todo = map (\<lambda>i. (C + i) mod n) [length acc ..< length acc + length todo])"

definition spsc_inv :: "nat \<Rightarrow> 'a conf \<Rightarrow> bool" where
  "spsc_inv n s \<longleftrightarrow> shape n s \<and> hist n s \<and> data n s \<and> wmarks n s \<and> rmarks n s \<and>
     ppc_ok n (totP s) (totR s) (cells s) (ppc s) \<and> cpc_ok n (totC s) (totW s) (sent s) (cpc s) \<and> \<not> bad s"

lemmas inv_unfold = spsc_inv_def shape_def hist_def data_def wmarks_def rmarks_def

lemma hist_order:
  assumes "hist n s"
  shows "totR s \<le> totC s" "totC s \<le> totW s" "totW s \<le> totP s" "totP s < totR s + n"
    "last (whist s) = idx n (totP s)" "last (rhist s) = idx n (totC s)"
    "length (whist s) = length (wtot s)" "length (rhist s) = length (rtot s)"
    "j < length (rtot s) \<Longrightarrow> rhist s ! j = idx n (rtot s ! j)" "j < length (wtot s) \<Longrightarrow> whist s ! j = idx n (wtot s ! j)"
    "rview s \<le> j \<Longrightarrow> j < length (rtot s) \<Longrightarrow> totR s \<le> rtot s ! j"
    "wview s \<le> j \<Longrightarrow> j < length (wtot s) \<Longrightarrow> totW s \<le> wtot s ! j"
    "j < length (rtot s) \<Longrightarrow> rtot s ! j \<le> totC s" "j < length (wtot s) \<Longrightarrow> wtot s ! j \<le> totP s"
proof -
  have l: "xs ! i \<le> last xs" if "sorted xs" "i < length xs" for xs :: "nat list" and i
    using that by (cases xs rule: rev_cases) (auto simp: sorted_append nth_append)
  show "totR s \<le> totC s" "totW s \<le> totP s" "totC s \<le> totW s" "totP s < totR s + n"
    "j < length (rtot s) \<Longrightarrow> rtot s ! j \<le> totC s" "j < length (wtot s) \<Longrightarrow> wtot s ! j \<le> totP s"
    using assms l by (auto simp: hist_def)
  show "last (whist s) = idx n (totP s)" "last (rhist s) = idx n (totC s)"
    "length (whist s) = length (wtot s)" "length (rhist s) = length (rtot s)"
    "j < length (rtot s) \<Longrightarrow> rhist s ! j = idx n (rtot s ! j)" "j < length (wtot s) \<Longrightarrow> whist s ! j = idx n (wtot s ! j)"
    using assms by (simp_all add: hist_def last_map)
  show "rview s \<le> j \<Longrightarrow> j < length (rtot s) \<Longrightarrow> totR s \<le> rtot s ! j"
    "wview s \<le> j \<Longrightarrow> j < length (wtot s) \<Longrightarrow> totW s \<le> wtot s ! j"
    using assms by (simp_all add: hist_def sorted_nth_mono)
qed

lemma inv_init:
  assumes "geometry_ok c xs"
  shows "spsc_inv (unat c) (spsc_init c xs)"
  using assms by (simp add: inv_unfold geometry_ok_def spsc_init_def ppc_ok_def cpc_ok_def ShmSpscQueue_def)

subsection \<open>Every step keeps it\<close>

lemma ppc_ok_mono: "ppc_ok n P R xs pc \<Longrightarrow> R \<le> R' \<Longrightarrow> ppc_ok n P R' xs pc"
  by (fastforce simp: ppc_ok_def split: ppc.splits)

lemma cpc_ok_mono: "cpc_ok n C W xs pc \<Longrightarrow> W \<le> W' \<Longrightarrow> cpc_ok n C W' xs pc"
  by (auto simp: cpc_ok_def split: cpc.splits)

lemma cpc_ok_append: "cpc_ok n C W xs pc \<Longrightarrow> W \<le> length xs \<Longrightarrow> cpc_ok n C W (xs @ ys) pc"
  by (auto simp: cpc_ok_def nth_append split: cpc.splits)

lemma inv_set_ppc: "spsc_inv n s \<Longrightarrow> ppc_ok n (totP s) (totR s) (cells s) pc \<Longrightarrow> spsc_inv n (s\<lparr>ppc := pc\<rparr>)"
  by (simp add: inv_unfold)

lemma inv_set_cpc: "spsc_inv n s \<Longrightarrow> cpc_ok n (totC s) (totW s) (sent s) pc \<Longrightarrow> spsc_inv n (s\<lparr>cpc := pc\<rparr>)"
  by (simp add: inv_unfold)

lemma inv_load_read:
  assumes "spsc_inv n s" "rview s \<le> j" "j < length (rhist s)"
  shows "spsc_inv n (s\<lparr>rview := j, pq := (pq s)\<lparr>readIdxCache_m := rhist s ! j\<rparr>\<rparr>)"
proof -
  have h: "hist n s" using assms(1) by (simp add: spsc_inv_def)
  note o = hist_order [OF h]
  have j: "j < length (rtot s)" "totR s \<le> rtot s ! j" "rhist s ! j = idx n (rtot s ! j)" using assms o by auto
  show ?thesis
    using assms(1) j o(4) ppc_ok_mono [OF _ j(2)] by (auto simp: inv_unfold)
qed

lemma inv_load_write:
  assumes "spsc_inv n s" "wview s \<le> j" "j < length (whist s)"
  shows "spsc_inv n (s\<lparr>wview := j, cq := (cq s)\<lparr>writeIdxCache_m := whist s ! j\<rparr>\<rparr>)"
proof -
  have h: "hist n s" using assms(1) by (simp add: spsc_inv_def)
  note o = hist_order [OF h]
  have j: "j < length (wtot s)" "totW s \<le> wtot s ! j" "whist s ! j = idx n (wtot s ! j)" using assms o by auto
  show ?thesis
    using assms(1) j o(2) cpc_ok_mono [OF _ j(2)] by (auto simp: inv_unfold)
qed

lemma spsc_invD:
  assumes "spsc_inv n s"
  shows "shape n s" "hist n s" "data n s" "wmarks n s" "rmarks n s"
    "ppc_ok n (totP s) (totR s) (cells s) (ppc s)" "cpc_ok n (totC s) (totW s) (sent s) (cpc s)" "\<not> bad s"
    "cap (pq s) = n" "cap (cq s) = n" "2 \<le> n" "n \<le> 2 ^ 63" "n \<le> length (cells s)" "0 < n"
  using assms by (auto simp: spsc_inv_def shape_def)

lemma copy_one_ok:
  assumes "spsc_inv n s" "Suc (totP s) < totR s + n"
  shows "ppc_ok n (totP s) (totR s) (cells s) (copy_one v (idx n (Suc (totP s))) s)"
  using assms hist_order(5) [OF spsc_invD(2) [OF assms(1)]] spsc_invD(11,12) [OF assms(1)]
  by (auto simp: ppc_ok_def copy_one_def unat_idx intro!: exI [of _ 0])

lemma zip_map_upt_take:
  assumes "k \<le> length ys"
  shows "zip (map f [0..<k]) (take k ys) = map (\<lambda>i. (f i, ys ! i)) [0..<k]"
  using assms by (intro nth_equalityI) auto

lemma copy_many_ok:
  assumes i: "spsc_inv n s" and src: "unat k \<le> length src"
    and free: "free = freeSlots (pq s) (last (whist s)) (idx n (totR s))"
  shows "ppc_ok n (totP s) (totR s) (cells s) (copy_many src k free s)"
proof -
  note o = hist_order [OF spsc_invD(2) [OF i]] and g = spsc_invD(9-14) [OF i]
  define c where "c = min k free"
  have f: "unat free = n - 1 - (totP s - totR s)"
    unfolding free o(5) using o(1-4) by (intro freeSlots_idx g) linarith+
  have c: "unat c \<le> unat k" "unat c \<le> n - 1 - (totP s - totR s)"
    using f by (simp_all add: c_def unat_min)
  then have cn: "unat c \<le> n" by linarith
  have room: "totP s + unat c < totR s + n" using c o(1-4) g(6) by linarith
  define b where "b = take (unat c) src"
  have lb: "length b = unat c" using c src by (simp add: b_def)
  have "copy_many src k free s = PCopy (map (\<lambda>i. ((totP s + i) mod n, b ! i)) [0..<length b]) b (idx n (totP s + length b))"
    unfolding copy_many_def Let_def o(5) c_def [symmetric]
    using batch_slots_idx [OF g(1,3,4) cn] next_many_idx [OF g(1,3,4) cn] c(1) src lb
    by (auto simp: b_def zip_map_upt_take)
  then show ?thesis using room lb by (auto simp: ppc_ok_def)
qed

lemma try_start:
  assumes "spsc_inv n s"
  shows "next_one (pq s) (last (whist s)) = idx n (Suc (totP s))"
    "idx n (Suc (totP s)) = readIdxCache_m (pq s) \<longleftrightarrow> \<not> Suc (totP s) < totR s + n"
proof -
  note o = hist_order [OF spsc_invD(2) [OF assms]] and g = spsc_invD(9-14) [OF assms]
  show "next_one (pq s) (last (whist s)) = idx n (Suc (totP s))"
    unfolding o(5) by (rule next_one_idx [OF g(1,3,4)])
  have "readIdxCache_m (pq s) = idx n (totR s)" using spsc_invD(2) [OF assms] by (simp add: hist_def)
  then show "idx n (Suc (totP s)) = readIdxCache_m (pq s) \<longleftrightarrow> \<not> Suc (totP s) < totR s + n"
    using next_free_iff [of n "totR s" "totP s"] o(1-4) g by auto
qed

lemma slot_distinct:
  assumes "i mod n = (p mod n :: nat)" "C \<le> i" "i < P" "P \<le> p" "p < C + n"
  shows False
  using mod_eq_window [of i n p] assms by simp

lemma inv_copy_in:
  assumes i: "spsc_inv n s" and pc: "ppc s = PCopy ((k, v) # todo) b next"
  shows "spsc_inv n (s\<lparr>cells := (cells s)[k := v], wmark := (wmark s)[k := length (whist s)],
                   bad := (bad s \<or> length (cells s) \<le> k \<or> rview s < rmark s ! k), ppc := PCopy todo b next\<rparr>)"
proof -
  note o = hist_order [OF spsc_invD(2) [OF i]] and g = spsc_invD(9-14) [OF i]
  define P where "P = totP s"
  obtain d where d: "d \<le> length b" "(k, v) # todo = map (\<lambda>i. ((P + i) mod n, b ! i)) [d..<length b]"
    and wr: "\<forall>i < d. cells s ! ((P + i) mod n) = b ! i" and room: "P + length b < totR s + n"
    and nx: "next = idx n (P + length b)"
    using spsc_invD(6) [OF i] by (auto simp: ppc_ok_def pc P_def)
  have lt: "d < length b" using d(2) by (cases "d < length b") auto
  then have k: "k = (P + d) mod n" "v = b ! d" "todo = map (\<lambda>i. ((P + i) mod n, b ! i)) [Suc d..<length b]"
    using d(2) by (simp_all add: upt_rec [of d])
  have p: "P + d < totR s + n" "P + d < totC s + n" using lt room o(1) by linarith+
  have kn: "k < n" "k < length (cells s)" using k(1) g(5) mod_less_divisor [OF g(6), of "P + d"] by linarith+
  have live: "k \<noteq> i mod n" if "totC s \<le> i" "i < P" for i
    using slot_distinct [of i n "P + d" "totC s" P] that p k by auto
  have old: "(P + i) mod n \<noteq> k" if "i < d" for i
    using mod_shift_inj [of P i n d] that k p lt room o(1-4) by (auto simp: P_def)
  have safe: "rmark s ! k \<le> rview s"
  proof (cases "P + d < n")
    case True
    then show ?thesis using spsc_invD(5) [OF i] k by (auto simp: rmarks_def P_def)
  next
    case False
    then have "(P + d - n) mod n = k" by (simp add: k le_mod_geq)
    moreover have "P + d - n < totP s" "totP s \<le> P + d - n + n" "P + d - n < totR s" "rview s < length (rtot s)"
      using False p o(1-4) spsc_invD(2) [OF i] by (auto simp: P_def hist_def)
    ultimately show ?thesis using spsc_invD(5) [OF i] unfolding rmarks_def by metis
  qed
  have "\<forall>i < Suc d. (cells s)[k := v] ! ((P + i) mod n) = b ! i"
  proof (intro allI impI)
    fix i assume "i < Suc d"
    then show "(cells s)[k := v] ! ((P + i) mod n) = b ! i"
      using wr old [of i] kn k(1,2) by (cases "i = d") auto
  qed
  then have pcok: "ppc_ok n P (totR s) ((cells s)[k := v]) (PCopy todo b next)"
    unfolding ppc_ok_def ppc.case
    using room nx k(3) lt by (auto intro!: exI [of _ "Suc d"])
  have "data n (s\<lparr>cells := (cells s)[k := v]\<rparr>)"
    using spsc_invD(3) [OF i] live by (auto simp: data_def P_def)
  moreover have "wmarks n (s\<lparr>cells := (cells s)[k := v], wmark := (wmark s)[k := length (whist s)]\<rparr>)"
    using spsc_invD(1,4) [OF i] live kn by (auto simp: wmarks_def P_def nth_list_update shape_def o(7))
  ultimately show ?thesis
    using i safe pcok kn by (simp add: inv_unfold P_def)
qed

lemma inv_publish:
  assumes i: "spsc_inv n s" and pc: "ppc s = PCopy [] b next"
  shows "spsc_inv n (s\<lparr>whist := whist s @ [next], ppc := PIdle,
                   wtot := wtot s @ [totP s + length b], sent := sent s @ b\<rparr>)"
proof -
  note o = hist_order [OF spsc_invD(2) [OF i]] and g = spsc_invD(9-14) [OF i]
  define P where "P = totP s"
  have wr: "\<forall>i < length b. cells s ! ((P + i) mod n) = b ! i" and room: "P + length b < totR s + n"
    and nx: "next = idx n (P + length b)"
    using spsc_invD(6) [OF i] by (auto simp: ppc_ok_def pc P_def)
  define t where "t = s\<lparr>whist := whist s @ [next], ppc := PIdle, wtot := wtot s @ [P + length b], sent := sent s @ b\<rparr>"
  have "wtot s ! j \<le> P + length b" if "j < length (wtot s)" for j
    using o(14) [OF that] by (simp add: P_def)
  then have h: "hist n t"
    using spsc_invD(2) [OF i] nx room
    by (auto simp: hist_def t_def nth_append sorted_append in_set_conv_nth P_def)
  have "data n t"
    unfolding data_def
  proof (intro conjI allI impI)
    have ls: "length (sent s) = P" using spsc_invD(3) [OF i] by (simp add: data_def P_def)
    then show "length (sent t) = totP t" "length (got t) = totC t"
      using spsc_invD(3) [OF i] by (auto simp: data_def t_def)
    show "cells t ! (i mod n) = sent t ! i" if "totC t \<le> i \<and> i < totP t" for i
    proof (cases "i < P")
      case True
      then show ?thesis using that spsc_invD(3) [OF i] ls by (auto simp: data_def t_def nth_append P_def)
    next
      case False
      then show ?thesis using that wr [rule_format, of "i - P"] ls by (auto simp: t_def nth_append)
    qed
    show "got t ! i = None \<or> got t ! i = Some (sent t ! i)" if "i < totC t" for i
      using that spsc_invD(3) [OF i] ls o(1-3) by (auto simp: data_def t_def nth_append P_def)
  qed
  moreover have "wmarks n t"
    unfolding wmarks_def
  proof (intro conjI allI impI)
    have le: "wmark s ! (k mod n) \<le> length (wtot s)" for k
      using spsc_invD(4) [OF i] g mod_less_divisor [OF g(6), of k] less_le_trans unfolding wmarks_def by metis
    show "wmark t ! k \<le> length (wtot t)" if "k < length (cells t)" for k
      using that spsc_invD(4) [OF i] by (auto simp: wmarks_def t_def intro: le_SucI)
    show "wmark t ! (i mod n) \<le> j" if "totC t \<le> i \<and> i < totP t \<and> j < length (wtot t) \<and> i < wtot t ! j" for i j
    proof (cases "j < length (wtot s)")
      case True
      then have "i < wtot s ! j" "i < totP s" "totC s \<le> i" using that o(14) [of j] by (auto simp: t_def nth_append)
      then show ?thesis using True spsc_invD(4) [OF i] by (auto simp: wmarks_def t_def)
    next
      case False
      then show ?thesis using that le [of i] by (auto simp: t_def)
    qed
  qed
  moreover have "rmarks n t"
    unfolding rmarks_def
  proof (intro conjI allI impI)
    show "rmark t ! k \<le> length (rtot t)" if "k < length (cells t)" for k
      using that spsc_invD(5) [OF i] by (auto simp: rmarks_def t_def)
    show "rmark t ! k = 0" if "k < n" "totP t \<le> k" for k
      using that spsc_invD(5) [OF i] by (auto simp: rmarks_def t_def P_def)
    show "rmark t ! (i mod n) \<le> j"
      if "i < totP t \<and> totP t \<le> i + n \<and> j < length (rtot t) \<and> i < rtot t ! j" for i j
    proof -
      have "rtot s ! j \<le> totC s" using that o(13) by (auto simp: t_def)
      then have "i < totP s" "totP s \<le> i + n" using that o(1-3) by (auto simp: t_def P_def)
      then show ?thesis using that spsc_invD(5) [OF i] by (auto simp: rmarks_def t_def)
    qed
  qed
  moreover have "shape n t" using spsc_invD(1) [OF i] by (simp add: shape_def t_def)
  moreover have "cpc_ok n (totC t) (totW t) (sent t) (cpc t)"
  proof -
    have "totW t = totW s" using spsc_invD(2) [OF i] by (auto simp: t_def nth_append hist_def)
    moreover have "totW s \<le> length (sent s)" using spsc_invD(3) [OF i] o by (simp add: data_def)
    ultimately show ?thesis using cpc_ok_append [OF spsc_invD(7) [OF i]] by (simp add: t_def)
  qed
  moreover have "ppc_ok n (totP t) (totR t) (cells t) (ppc t)" "\<not> bad t"
    using spsc_invD(8) [OF i] by (simp_all add: t_def ppc_ok_def)
  ultimately have "spsc_inv n t" using h by (simp add: spsc_inv_def)
  then show ?thesis by (simp add: t_def P_def)
qed

lemma inv_prod_step:
  assumes "prod_step s t" "spsc_inv n s"
  shows "spsc_inv n t"
  using assms
proof (induction rule: prod_step.induct)
  case (try_push_cached s "next" v)
  then show ?case
    using try_start [OF try_push_cached.prems] copy_one_ok [OF try_push_cached.prems, of v]
    by (auto intro!: inv_set_ppc)
next
  case (try_push_miss s "next" v)
  then show ?case
    using try_start(1) [OF try_push_miss.prems] by (intro inv_set_ppc) (simp_all add: ppc_ok_def)
next
  case (try_push_load s v "next" j x)
  define t where "t = s\<lparr>rview := j, pq := (pq s)\<lparr>readIdxCache_m := x\<rparr>\<rparr>"
  have t: "spsc_inv n t" using inv_load_read [OF try_push_load.prems] try_push_load by (simp add: t_def)
  have nx: "next = idx n (Suc (totP t))"
    using spsc_invD(6) [OF try_push_load.prems] try_push_load(1) by (simp add: ppc_ok_def t_def)
  have "copy_one v next s = copy_one v next t" by (simp add: copy_one_def t_def)
  then have "spsc_inv n (t\<lparr>ppc := (if next = x then PIdle else copy_one v next s)\<rparr>)"
    using try_start(2) [OF t] copy_one_ok [OF t, of v] nx
    by (intro inv_set_ppc t) (auto simp: t_def ppc_ok_def)
  then show ?case by (simp add: t_def)
next
  case (push_n_cached s k src free)
  have "readIdxCache_m (pq s) = idx n (totR s)" using spsc_invD(2) [OF push_n_cached.prems] by (simp add: hist_def)
  then show ?case
    using push_n_cached copy_many_ok [OF push_n_cached.prems, of k src free] by (intro inv_set_ppc) simp_all
next
  case (push_n_miss s k src)
  then show ?case by (intro inv_set_ppc) (simp_all add: ppc_ok_def)
next
  case (push_n_load s src k j x free)
  define t where "t = s\<lparr>rview := j, pq := (pq s)\<lparr>readIdxCache_m := x\<rparr>\<rparr>"
  have t: "spsc_inv n t" using inv_load_read [OF push_n_load.prems] push_n_load by (simp add: t_def)
  have k: "unat k \<le> length src" using spsc_invD(6) [OF push_n_load.prems] push_n_load(1) by (simp add: ppc_ok_def)
  have "x = idx n (totR t)" using spsc_invD(2) [OF t] by (simp add: hist_def t_def)
  then have "free = freeSlots (pq t) (last (whist t)) (idx n (totR t))"
    using push_n_load by (simp add: t_def freeSlots_def)
  then have "ppc_ok n (totP t) (totR t) (cells t) (copy_many src k free t)" by (rule copy_many_ok [OF t k])
  moreover have "copy_many src k free s = copy_many src k free t"
    by (simp add: copy_many_def t_def batch_slots_def next_many_def Let_def)
  ultimately have "spsc_inv n (t\<lparr>ppc := (if free = 0 then PIdle else copy_many src k free s)\<rparr>)"
    by (intro inv_set_ppc t) (simp add: ppc_ok_def)
  then show ?case by (simp add: t_def)
next
  case (copy_in s i v todo b "next")
  then show ?case by (intro inv_copy_in) simp_all
next
  case (publish_store s b "next")
  then show ?case by (intro inv_publish) simp_all
next
  case (prod_replaced s j)
  then have "spsc_inv n (s\<lparr>rview := j, pq := (pq s)\<lparr>readIdxCache_m := rhist s ! j\<rparr>\<rparr>)"
    by (intro inv_load_read) simp_all
  from inv_set_ppc [OF this, of PIdle] show ?case by (simp add: ppc_ok_def)
qed

text \<open>
  A read of position \<open>p\<close> between \<open>C\<close> and \<open>W\<close>: ordered after the write of that element, in range,
  and it yields the element sent there. Stamping the slot keeps the marks.
\<close>

lemma read_ok:
  assumes i: "spsc_inv n s" and p: "totC s \<le> p" "p < totW s"
  shows "cells s ! (p mod n) = sent s ! p" "p mod n < length (cells s)" "wmark s ! (p mod n) \<le> wview s"
    and "rmarks n (s\<lparr>rmark := (rmark s)[p mod n := length (rhist s)]\<rparr>)"
proof -
  note o = hist_order [OF spsc_invD(2) [OF i]] and g = spsc_invD(9-14) [OF i]
  have P: "p < totP s" using p o(3) by linarith
  show "cells s ! (p mod n) = sent s ! p" using spsc_invD(3) [OF i] p P by (simp add: data_def)
  show lt: "p mod n < length (cells s)" using g mod_less_divisor [OF g(6), of p] by linarith
  show "wmark s ! (p mod n) \<le> wview s"
    using spsc_invD(4,2) [OF i] p P by (auto simp: wmarks_def hist_def)
  show "rmarks n (s\<lparr>rmark := (rmark s)[p mod n := length (rhist s)]\<rparr>)"
    unfolding rmarks_def
  proof (intro conjI allI impI, goal_cases)
    case (1 k)
    then show ?case
      using spsc_invD(1,5) [OF i] by (cases "k = p mod n") (simp_all add: rmarks_def shape_def o(8))
  next
    case (2 q j)
    have "q mod n \<noteq> p mod n"
    proof
      assume e: "q mod n = p mod n"
      have "q = p"
        using mod_eq_window [OF e] mod_eq_window [OF e [symmetric]] 2 P p o by (cases "q \<le> p") auto
      then show False using 2 o(13) [of j] p by auto
    qed
    then have "(rmark s)[p mod n := length (rhist s)] ! (q mod n) = rmark s ! (q mod n)" by simp
    then show ?case using 2 spsc_invD(5) [OF i] by (simp add: rmarks_def)
  next
    case (3 k)
    have "k \<noteq> p mod n" using 3 P mod_less_eq_dividend [of p n] by auto
    then show ?case using 3 spsc_invD(5) [OF i] by (simp add: rmarks_def)
  qed
qed

lemma inv_peek:
  assumes i: "spsc_inv n s" and pc: "cpc s = CHeld r out"
  shows "spsc_inv n (s\<lparr>rmark := (rmark s)[unat r := length (rhist s)], cpc := CHeld r (Some (cells s ! unat r)),
                   bad := (bad s \<or> length (cells s) \<le> unat r \<or> wview s < wmark s ! unat r)\<rparr>)"
proof -
  note g = spsc_invD(9-14) [OF i]
  have r: "r = idx n (totC s)" "totC s < totW s" using spsc_invD(7) [OF i] pc by (auto simp: cpc_ok_def)
  have u: "unat r = totC s mod n" using g by (simp add: r unat_idx)
  have "cpc_ok n (totC s) (totW s) (sent s) (CHeld r (Some (sent s ! totC s)))" using r by (simp add: cpc_ok_def)
  then show ?thesis
    using i read_ok [OF i order_refl r(2)] unfolding u by (simp add: inv_unfold)
qed

lemma inv_copy_out:
  assumes i: "spsc_inv n s" and pc: "cpc s = CCopy (k # todo) acc next"
  shows "spsc_inv n (s\<lparr>rmark := (rmark s)[k := length (rhist s)], cpc := CCopy todo (acc @ [cells s ! k]) next,
                   bad := (bad s \<or> length (cells s) \<le> k \<or> wview s < wmark s ! k)\<rparr>)"
proof -
  define C a where "C = totC s" and "a = length acc"
  have c: "C + a + Suc (length todo) \<le> totW s" "next = idx n (C + a + Suc (length todo))"
      "acc = take a (drop C (sent s))" "k # todo = map (\<lambda>i. (C + i) mod n) [a ..< a + Suc (length todo)]"
    using spsc_invD(7) [OF i] pc by (auto simp: cpc_ok_def C_def a_def)
  have k: "k = (C + a) mod n" "todo = map (\<lambda>i. (C + i) mod n) [Suc a ..< Suc a + length todo]"
  proof -
    have "[a ..< a + Suc (length todo)] = a # [Suc a ..< Suc a + length todo]" by (simp add: upt_conv_Cons del: upt_Suc)
    then have "k # todo = (C + a) mod n # map (\<lambda>i. (C + i) mod n) [Suc a ..< Suc a + length todo]"
      using c(4) by (simp only: list.map)
    then show "k = (C + a) mod n" "todo = map (\<lambda>i. (C + i) mod n) [Suc a ..< Suc a + length todo]"
      by (simp_all only: list.inject)
  qed
  have p: "totC s \<le> C + a" "C + a < totW s" using c(1) by (simp_all add: C_def)
  have ls: "totW s \<le> length (sent s)"
    using spsc_invD(3) [OF i] hist_order(3) [OF spsc_invD(2) [OF i]] by (simp add: data_def)
  have "take (Suc a) (drop C (sent s)) = acc @ [sent s ! (C + a)]"
    using c(3) p ls by (simp add: take_Suc_conv_app_nth)
  then have "cpc_ok n C (totW s) (sent s) (CCopy todo (acc @ [sent s ! (C + a)]) next)"
    using c(1,2) k(2) by (simp add: cpc_ok_def a_def)
  then show ?thesis
    using i read_ok [OF i p] unfolding k(1) [symmetric] by (simp add: inv_unfold C_def)
qed

text \<open>Releasing the positions below \<open>C + k\<close>, after they have been read.\<close>

lemma inv_release:
  assumes i: "spsc_inv n s" and k: "totC s + k \<le> totW s" and nx: "next = idx n (totC s + k)" and lo: "length out = k"
    and out: "\<And>i. i < k \<Longrightarrow> out ! i = None \<or> out ! i = Some (sent s ! (totC s + i))"
  shows "spsc_inv n (s\<lparr>rhist := rhist s @ [next], cpc := CIdle,
                   rtot := rtot s @ [totC s + k], got := got s @ out\<rparr>)"
proof -
  note o = hist_order [OF spsc_invD(2) [OF i]] and g = spsc_invD(9-14) [OF i]
  define t where "t = s\<lparr>rhist := rhist s @ [next], cpc := CIdle, rtot := rtot s @ [totC s + k], got := got s @ out\<rparr>"
  have R: "totR t = totR s" using spsc_invD(2) [OF i] by (simp add: t_def hist_def nth_append)
  have "rtot s ! j \<le> totC s + k" if "j < length (rtot s)" for j
    using o(13) [OF that] by simp
  then have "hist n t"
    using spsc_invD(2) [OF i] nx k
    by (auto simp: hist_def t_def nth_append sorted_append in_set_conv_nth)
  moreover have "data n t"
    unfolding data_def
  proof (intro conjI allI impI)
    have lg: "length (got s) = totC s" using spsc_invD(3) [OF i] by (simp add: data_def)
    then show "length (sent t) = totP t" "length (got t) = totC t"
      using spsc_invD(3) [OF i] lo by (auto simp: data_def t_def)
    show "cells t ! (i mod n) = sent t ! i" if "totC t \<le> i \<and> i < totP t" for i
      using that spsc_invD(3) [OF i] by (auto simp: data_def t_def)
    show "got t ! i = None \<or> got t ! i = Some (sent t ! i)" if "i < totC t" for i
      using that spsc_invD(3) [OF i] out [of "i - totC s"] lg
      by (auto simp: data_def t_def nth_append)
  qed
  moreover have "wmarks n t" using spsc_invD(4) [OF i] by (auto simp: wmarks_def t_def)
  moreover have "rmarks n t"
    unfolding rmarks_def
  proof (intro conjI allI impI)
    have le: "rmark s ! (m mod n) \<le> length (rtot s)" for m
      using spsc_invD(5) [OF i] g mod_less_divisor [OF g(6), of m] less_le_trans unfolding rmarks_def by metis
    show "rmark t ! m \<le> length (rtot t)" if "m < length (cells t)" for m
      using that spsc_invD(5) [OF i] by (auto simp: rmarks_def t_def intro: le_SucI)
    show "rmark t ! m = 0" if "m < n" "totP t \<le> m" for m
      using that spsc_invD(5) [OF i] by (auto simp: rmarks_def t_def)
    show "rmark t ! (m mod n) \<le> j"
      if "m < totP t \<and> totP t \<le> m + n \<and> j < length (rtot t) \<and> m < rtot t ! j" for m j
      using that spsc_invD(5) [OF i] le [of m]
      by (cases "j < length (rtot s)") (auto simp: rmarks_def t_def nth_append)
  qed
  moreover have "shape n t" using spsc_invD(1) [OF i] by (simp add: shape_def t_def)
  moreover have "ppc_ok n (totP t) (totR t) (cells t) (ppc t)"
    unfolding R using spsc_invD(6) [OF i] by (simp add: t_def)
  moreover have "cpc_ok n (totC t) (totW t) (sent t) (cpc t)" "\<not> bad t"
    using spsc_invD(8) [OF i] by (simp_all add: t_def cpc_ok_def)
  ultimately have "spsc_inv n t" by (simp add: spsc_inv_def)
  then show ?thesis by (simp add: t_def)
qed

lemma hold_iff:
  assumes "spsc_inv n s"
  shows "last (rhist s) = writeIdxCache_m (cq s) \<longleftrightarrow> totC s = totW s"
    and "totC s < totW s \<Longrightarrow> cpc_ok n (totC s) (totW s) (sent s) (CHeld (last (rhist s)) None)"
proof -
  note o = hist_order [OF spsc_invD(2) [OF assms]] and g = spsc_invD(9-14) [OF assms]
  have "writeIdxCache_m (cq s) = idx n (totW s)" using spsc_invD(2) [OF assms] by (simp add: hist_def)
  then show "last (rhist s) = writeIdxCache_m (cq s) \<longleftrightarrow> totC s = totW s"
    using idx_empty_iff [OF g(3,4) o(2)] o(1-6) by simp
  show "cpc_ok n (totC s) (totW s) (sent s) (CHeld (last (rhist s)) None)" if "totC s < totW s"
    using that o(6) by (simp add: cpc_ok_def)
qed

lemma read_many_ok:
  assumes i: "spsc_inv n s" and avail: "avail = usedSlots (cq s) (idx n (totW s)) (last (rhist s))"
  shows "cpc_ok n (totC s) (totW s) (sent s) (read_many k avail s)"
proof -
  note o = hist_order [OF spsc_invD(2) [OF i]] and g = spsc_invD(9-14) [OF i]
  define c where "c = min k avail"
  have "unat avail = totW s - totC s"
    unfolding avail o(6) using o(1-4) by (intro usedSlots_idx g) linarith+
  then have "unat c \<le> totW s - totC s" by (simp add: c_def unat_min)
  then have c: "totC s + unat c \<le> totW s" "unat c \<le> n" using o(1-4) by linarith+
  have "read_many k avail s = CCopy (map (\<lambda>i. (totC s + i) mod n) [0..<unat c]) [] (idx n (totC s + unat c))"
    unfolding read_many_def Let_def o(6) c_def [symmetric]
    using batch_slots_idx [OF g(2,3,4) c(2)] next_many_idx [OF g(2,3,4) c(2)] by simp
  then show ?thesis using c by (simp add: cpc_ok_def)
qed

lemma pop_assert_holds:
  assumes i: "spsc_inv n s" and pc: "cpc s = CHeld r out" and j: "wview s \<le> j" "j < length (whist s)"
  shows "whist s ! j \<noteq> last (rhist s)"
proof -
  note o = hist_order [OF spsc_invD(2) [OF i]] and g = spsc_invD(9-14) [OF i]
  have "j < length (wtot s)" using j o by simp
  then have "totC s < wtot s ! j" "wtot s ! j < totC s + n"
    using spsc_invD(7) [OF i] pc o(1-4) o(12) [OF j(1)] o(14) [of j] by (auto simp: cpc_ok_def)
  then show ?thesis
    using idx_empty_iff [OF g(3,4), of "totC s" "wtot s ! j"] o(6) o(10) [OF \<open>j < length (wtot s)\<close>] by auto
qed

lemma inv_cons_step:
  assumes "cons_step s t" "spsc_inv n s"
  shows "spsc_inv n t"
  using assms
proof (induction rule: cons_step.induct)
  case (front_cached s)
  then show ?case
    using hold_iff [OF front_cached.prems] hist_order(2) [OF spsc_invD(2) [OF front_cached.prems]]
    by (intro inv_set_cpc) auto
next
  case (front_miss s)
  then show ?case by (intro inv_set_cpc) (simp_all add: cpc_ok_def)
next
  case (front_load s j x)
  define t where "t = s\<lparr>wview := j, cq := (cq s)\<lparr>writeIdxCache_m := x\<rparr>\<rparr>"
  have t: "spsc_inv n t" using inv_load_write [OF front_load.prems] front_load by (simp add: t_def)
  have "spsc_inv n (t\<lparr>cpc := (if last (rhist s) = x then CIdle else CHeld (last (rhist s)) None)\<rparr>)"
    using hold_iff [OF t] hist_order(2) [OF spsc_invD(2) [OF t]]
    by (intro inv_set_cpc t) (auto simp: cpc_ok_def t_def)
  then show ?case by (simp add: t_def)
next
  case (peek s r out)
  then show ?case by (intro inv_peek) simp_all
next
  case (pop_store s r out)
  note o = hist_order [OF spsc_invD(2) [OF pop_store.prems]] and g = spsc_invD(9-14) [OF pop_store.prems]
  have "totC s + 1 \<le> totW s" "out = None \<or> out = Some (sent s ! totC s)"
    using spsc_invD(7) [OF pop_store.prems] pop_store(1) by (auto simp: cpc_ok_def)
  moreover have "next_one (cq s) (last (rhist s)) = idx n (totC s + 1)"
    unfolding o(6) using next_one_idx [OF g(2,3,4)] by simp
  ultimately show ?case by (intro inv_release pop_store) auto
next
  case (pop_assert_fails s r out j)
  then show ?case using pop_assert_holds [OF pop_assert_fails.prems] by simp
next
  case (pop_n_cached s k avail)
  have "writeIdxCache_m (cq s) = idx n (totW s)" using spsc_invD(2) [OF pop_n_cached.prems] by (simp add: hist_def)
  then show ?case
    using pop_n_cached read_many_ok [OF pop_n_cached.prems, of avail k] by (intro inv_set_cpc) simp_all
next
  case (pop_n_miss s k)
  then show ?case by (intro inv_set_cpc) (simp_all add: cpc_ok_def)
next
  case (pop_n_load s k j x avail)
  define t where "t = s\<lparr>wview := j, cq := (cq s)\<lparr>writeIdxCache_m := x\<rparr>\<rparr>"
  have t: "spsc_inv n t" using inv_load_write [OF pop_n_load.prems] pop_n_load by (simp add: t_def)
  have "x = idx n (totW t)" using spsc_invD(2) [OF t] by (simp add: hist_def t_def)
  then have "avail = usedSlots (cq t) (idx n (totW t)) (last (rhist t))"
    using pop_n_load by (simp add: t_def usedSlots_def)
  then have "cpc_ok n (totC t) (totW t) (sent t) (read_many k avail t)" by (rule read_many_ok [OF t])
  moreover have "read_many k avail s = read_many k avail t"
    by (simp add: read_many_def t_def batch_slots_def next_many_def Let_def)
  ultimately have "spsc_inv n (t\<lparr>cpc := (if avail = 0 then CIdle else read_many k avail s)\<rparr>)"
    by (intro inv_set_cpc t) (simp add: cpc_ok_def)
  then show ?case by (simp add: t_def)
next
  case (copy_out s i todo acc "next")
  then show ?case by (intro inv_copy_out) simp_all
next
  case (release_store s acc "next")
  have c: "totC s + length acc \<le> totW s" "next = idx n (totC s + length acc)"
      "acc = take (length acc) (drop (totC s) (sent s))"
    using spsc_invD(7) [OF release_store.prems] release_store(1) by (auto simp: cpc_ok_def)
  have ls: "totW s \<le> length (sent s)"
    using spsc_invD(3) [OF release_store.prems] hist_order(3) [OF spsc_invD(2) [OF release_store.prems]]
    by (simp add: data_def)
  have "acc ! i = sent s ! (totC s + i)" if "i < length acc" for i
  proof -
    have "acc ! i = take (length acc) (drop (totC s) (sent s)) ! i" using c(3) by simp
    then show ?thesis using that c(1) ls by simp
  qed
  then show ?case using c(1,2) by (intro inv_release release_store) auto
next
  case (cons_replaced s j)
  then have "spsc_inv n (s\<lparr>wview := j, cq := (cq s)\<lparr>writeIdxCache_m := whist s ! j\<rparr>\<rparr>)"
    by (intro inv_load_write) simp_all
  from inv_set_cpc [OF this, of CIdle] show ?case by (simp add: cpc_ok_def)
qed

lemma reachable_inv:
  assumes "reachable c xs s" "geometry_ok c xs"
  shows "spsc_inv (unat c) s"
  using assms
proof (induction rule: reachable.induct)
  case init
  then show ?case by (rule inv_init)
next
  case (step s t)
  then show ?case unfolding spsc_step_def using inv_prod_step inv_cons_step by blast
qed

subsection \<open>The sequential operations are executions of the step relation\<close>

text \<open>
  The memory of a configuration as the sequential operations of \<open>Ring\<close> see it. Running one of
  them without interference is the sequence of its atomic steps.
\<close>

definition mem_of :: "control_block \<Rightarrow> 'a conf \<Rightarrow> 'a shm" where
  "mem_of b s = \<lparr>block = b\<lparr>writeIdx := last (whist s), readIdx := last (rhist s)\<rparr>, slots = cells s\<rparr>"

lemma mem_of_simps [simp]:
  "writeIdx (block (mem_of b s)) = last (whist s)" "readIdx (block (mem_of b s)) = last (rhist s)"
  "slots (mem_of b s) = cells s"
  by (simp_all add: mem_of_def)

definition write_all :: "(nat \<times> 'a) list \<Rightarrow> 'a list \<Rightarrow> 'a list" where
  "write_all todo xs = fold (\<lambda>(i, v) xs. xs[i := v]) todo xs"

lemma write_all_simps [simp]:
  "write_all [] xs = xs" "write_all ((i, v) # todo) xs = write_all todo (xs[i := v])"
  "write_all (as @ bs) xs = write_all bs (write_all as xs)"
  by (simp_all add: write_all_def)

lemma write_all_upt:
  "d + length ys \<le> length xs \<Longrightarrow> write_all (zip [d..<d + length ys] ys) xs = splice xs d ys"
proof (induction ys arbitrary: d xs)
  case (Cons y ys)
  have "[d..<d + length (y # ys)] = d # [Suc d..<Suc d + length ys]" by (simp add: upt_conv_Cons del: upt_Suc)
  then have "write_all (zip [d..<d + length (y # ys)] (y # ys)) xs = splice (xs[d := y]) (Suc d) ys"
    using Cons.IH [of "Suc d" "xs[d := y]"] Cons.prems by simp
  then show ?case using Cons.prems by (simp add: splice_def take_Suc_conv_app_nth)
qed simp

lemma copy_in_all:
  "ppc s = PCopy todo b next \<Longrightarrow>
   \<exists>t. prod_step\<^sup>*\<^sup>* s t \<and> ppc t = PCopy [] b next \<and> cells t = write_all todo (cells s) \<and> pq t = pq s \<and>
       whist t = whist s \<and> rhist t = rhist s \<and> sent t = sent s \<and> got t = got s"
proof (induction todo arbitrary: s)
  case Nil
  then show ?case by auto
next
  case (Cons a todo)
  obtain i v where a: "a = (i, v)" by (cases a)
  let ?t = "s\<lparr>cells := (cells s)[i := v], wmark := (wmark s)[i := length (whist s)],
              bad := (bad s \<or> length (cells s) \<le> i \<or> rview s < rmark s ! i), ppc := PCopy todo b next\<rparr>"
  have "prod_step s ?t" using Cons.prems by (intro prod_step.copy_in) (simp add: a)
  with Cons.IH [of ?t] show ?case by (auto simp: a intro: converse_rtranclp_into_rtranclp)
qed

text \<open>From the start of a copy to its publication.\<close>

definition writes :: "'a conf \<Rightarrow> 'a list \<Rightarrow> queue \<Rightarrow> 'a list \<Rightarrow> u64 \<Rightarrow> 'a conf \<Rightarrow> bool" where
  "writes s b q ys w t \<longleftrightarrow> prod_step\<^sup>*\<^sup>* s t \<and> ppc t = PIdle \<and> pq t = q \<and> cells t = ys \<and> last (whist t) = w \<and>
     rhist t = rhist s \<and> sent t = sent s @ b \<and> got t = got s"

lemma publish_all:
  assumes "prod_step s u" "ppc u = PCopy todo b next" "rhist u = rhist s" "sent u = sent s" "got u = got s"
  shows "\<exists>t. writes s b (pq u) (write_all todo (cells u)) next t"
proof -
  obtain t where t: "prod_step\<^sup>*\<^sup>* u t" "ppc t = PCopy [] b next" "cells t = write_all todo (cells u)" "pq t = pq u"
      "rhist t = rhist u" "sent t = sent u" "got t = got u"
    using copy_in_all [OF assms(2)] by auto
  let ?v = "t\<lparr>whist := whist t @ [next], ppc := PIdle, wtot := wtot t @ [last (wtot t) + length b], sent := sent t @ b\<rparr>"
  have "prod_step t ?v" using t(2) by (rule prod_step.publish_store)
  then have "prod_step\<^sup>*\<^sup>* s ?v"
    using t(1) assms(1) by (meson converse_rtranclp_into_rtranclp rtranclp.rtrancl_into_rtrancl)
  then show ?thesis using t assms by (intro exI [of _ ?v]) (simp add: writes_def)
qed

lemma try_push_realised:
  assumes idle: "ppc s = PIdle" and view: "rview s < length (rhist s)"
    and run: "try_push v (pq s) (mem_of b s) = Inr (r, q', m')"
  shows "\<exists>t. prod_step\<^sup>*\<^sup>* s t \<and> ppc t = PIdle \<and> pq t = q' \<and> mem_of b t = m' \<and>
             sent t = sent s @ (if r then [v] else []) \<and> got t = got s"
proof -
  define w nx where "w = last (whist s)" and "nx = next_one (pq s) w"
  define x where "x = rhist s ! (length (rhist s) - 1)"
  have x: "last (rhist s) = x" "length (rhist s) - 1 < length (rhist s)" "rview s \<le> length (rhist s) - 1"
    using view by (simp_all add: x_def last_conv_nth flip: length_greater_0_conv)
  have copied: "memcpy (cells s) (unat w) [v] 0 (Suc 0) = Inr ys \<longleftrightarrow> unat w < length (cells s) \<and> ys = (cells s)[unat w := v]" for ys
    by (auto simp: memcpy_def upd_conv_take_nth_drop)
  show ?thesis
  proof (cases "nx = readIdxCache_m (pq s)")
    case False
    then have res: "r" "q' = pq s" "m' = (mem_of b s)\<lparr>slots := (cells s)[unat w := v],
        block := (block (mem_of b s))\<lparr>writeIdx := nx\<rparr>\<rparr>"
      using run by (auto simp: try_push_def Let_def next_one_def nx_def copied simp flip: w_def)
    let ?u = "s\<lparr>ppc := copy_one v nx s\<rparr>"
    have "prod_step s ?u" using idle False by (intro prod_step.try_push_cached) (simp_all add: nx_def w_def)
    from publish_all [OF this, of "[(unat w, v)]" "[v]" nx] show ?thesis
      using res by (auto simp: copy_one_def writes_def mem_of_def w_def)
  next
    case True
    let ?u = "s\<lparr>ppc := PTry v nx\<rparr>"
    let ?q = "(pq s)\<lparr>readIdxCache_m := x\<rparr>"
    let ?t = "?u\<lparr>rview := length (rhist s) - 1, pq := ?q, ppc := (if nx = x then PIdle else copy_one v nx ?u)\<rparr>"
    have su: "prod_step s ?u" using idle True by (intro prod_step.try_push_miss) (simp_all add: nx_def w_def)
    have ut: "prod_step ?u ?t"
      using prod_step.try_push_load [of ?u v nx "length (rhist s) - 1" x] x by (simp add: x_def)
    show ?thesis
    proof (cases "nx = x")
      case full: True
      then have "\<not> r" "q' = ?q" "m' = mem_of b s"
        using run True x(1) by (auto simp: try_push_def Let_def next_one_def nx_def w_def)
      moreover have "prod_step\<^sup>*\<^sup>* s ?t" using su ut by (meson rtranclp.rtrancl_into_rtrancl rtranclp.rtrancl_refl)
      ultimately show ?thesis using full by (intro exI [of _ ?t]) (simp add: mem_of_def)
    next
      case False
      then have res: "r" "q' = ?q" "m' = (mem_of b s)\<lparr>slots := (cells s)[unat w := v],
          block := (block (mem_of b s))\<lparr>writeIdx := nx\<rparr>\<rparr>"
        using run True x(1) by (auto simp: try_push_def Let_def next_one_def nx_def copied simp flip: w_def)
      have "ppc ?t = PCopy [(unat w, v)] [v] nx" using False by (simp add: copy_one_def w_def)
      from publish_all [OF ut this] obtain t where t: "writes ?u [v] ?q ((cells s)[unat w := v]) nx t" by auto
      then show ?thesis
        using su res by (auto simp: writes_def mem_of_def intro: converse_rtranclp_into_rtranclp)
    qed
  qed
qed

lemma push_n_publish_write_all:
  assumes "push_n_publish src n w free q m = Inr (c, q', m')" and count: "count = min n free"
  shows "c = count \<and> q' = q \<and> unat count \<le> length src \<and>
         m' = m\<lparr>slots := write_all (zip (batch_slots q w count) (take (unat count) src)) (slots m),
                block := (block m)\<lparr>writeIdx := next_many q w count\<rparr>\<rparr>"
proof -
  define first where "first = min count (capacity_m q - w)"
  obtain s1 s2 where c1: "memcpy (slots m) (unat w) src 0 (unat first) = Inr s1"
    and c2: "(if count > first then memcpy s1 0 src (unat first) (unat (count - first)) else Inr s1) = Inr s2"
    and res: "c = count" "q' = q" "m' = m\<lparr>slots := s2, block := (block m)\<lparr>writeIdx := next_many q w count\<rparr>\<rparr>"
    using assms(1) unfolding push_n_publish_def Let_def count [symmetric] first_def [symmetric]
    by (auto simp: next_many_def Let_def)
  have f: "unat first \<le> unat count" by (simp add: first_def unat_min)
  have d: "unat (count - first) = unat count - unat first" using f by (simp only: unat_sub word_le_nat_alt)
  have gt: "count > first \<longleftrightarrow> unat first < unat count" by (simp only: word_less_nat_alt)
  have b1: "unat w + unat first \<le> length (slots m)" "unat first \<le> length src"
      "s1 = splice (slots m) (unat w) (take (unat first) src)"
    using memcpy_InrD [OF c1] by auto
  have b2: "unat count \<le> length src" "unat count - unat first \<le> length s1"
      "s2 = splice s1 0 (take (unat count - unat first) (drop (unat first) src))"
    using c2 f b1 unfolding d gt by (auto dest: memcpy_InrD split: if_splits)
  have bs: "batch_slots q w count = [unat w..<unat w + unat first] @ [0..<unat count - unat first]"
    unfolding batch_slots_def Let_def first_def [symmetric] d gt by auto
  have tk: "take (unat count) src = take (unat first) src @ take (unat count - unat first) (drop (unat first) src)"
    using f by (metis add_diff_inverse_nat not_less take_add)
  have "write_all (zip (batch_slots q w count) (take (unat count) src)) (slots m) = s2"
    using write_all_upt [of "unat w" "take (unat first) src" "slots m"]
      write_all_upt [of 0 "take (unat count - unat first) (drop (unat first) src)" s1] b1 b2
    by (simp add: bs tk min_absorb1)
  then show ?thesis using res b2 by simp
qed

lemma push_n_realised:
  assumes idle: "ppc s = PIdle" and view: "rview s < length (rhist s)" and src: "unat n \<le> length src"
    and run: "push_n src n (pq s) (mem_of b s) = Inr (r, q', m')"
  shows "\<exists>t. prod_step\<^sup>*\<^sup>* s t \<and> ppc t = PIdle \<and> pq t = q' \<and> mem_of b t = m' \<and>
             sent t = sent s @ take (unat r) src \<and> got t = got s"
proof (cases "n = 0")
  case True
  then show ?thesis using run idle by (intro exI [of _ s]) (simp add: push_n_def)
next
  case n: False
  define w where "w = last (whist s)"
  define x where "x = rhist s ! (length (rhist s) - 1)"
  have x: "last (rhist s) = x" "length (rhist s) - 1 < length (rhist s)" "rview s \<le> length (rhist s) - 1"
    using view by (simp_all add: x_def last_conv_nth flip: length_greater_0_conv)
  define free where "free = freeSlots (pq s) w (readIdxCache_m (pq s))"
  show ?thesis
  proof (cases "free < n")
    case False
    then have "push_n_publish src n w free (pq s) (mem_of b s) = Inr (r, q', m')"
      using run n by (simp add: push_n_def Let_def free_def w_def)
    note res = push_n_publish_write_all [OF this refl]
    let ?u = "s\<lparr>ppc := copy_many src n free s\<rparr>"
    have su: "prod_step s ?u" using idle n src False by (intro prod_step.push_n_cached) (simp_all add: free_def w_def)
    have "ppc ?u = PCopy (zip (batch_slots (pq s) w (min n free)) (take (unat (min n free)) src))
        (take (unat (min n free)) src) (next_many (pq s) w (min n free))"
      by (simp add: copy_many_def Let_def w_def)
    from publish_all [OF su this] show ?thesis
      using res by (auto simp: writes_def mem_of_def)
  next
    case True
    let ?u = "s\<lparr>ppc := PBatch src n\<rparr>"
    let ?q = "(pq s)\<lparr>readIdxCache_m := x\<rparr>"
    define free' where "free' = freeSlots (pq s) w x"
    have f': "free' = freeSlots ?q w x" by (simp add: free'_def freeSlots_def)
    let ?t = "?u\<lparr>rview := length (rhist s) - 1, pq := ?q, ppc := (if free' = 0 then PIdle else copy_many src n free' ?u)\<rparr>"
    have su: "prod_step s ?u" using idle n src True by (intro prod_step.push_n_miss) (simp_all add: free_def w_def)
    have ut: "prod_step ?u ?t"
      using prod_step.push_n_load [of ?u src n "length (rhist s) - 1" x free'] x
      by (simp add: x_def free'_def w_def)
    show ?thesis
    proof (cases "free' = 0")
      case full: True
      then have "r = 0" "q' = ?q" "m' = mem_of b s"
        using run True x(1) n f' by (auto simp: push_n_def Let_def free_def w_def)
      moreover have "prod_step\<^sup>*\<^sup>* s ?t" using su ut by (meson rtranclp.rtrancl_into_rtrancl rtranclp.rtrancl_refl)
      ultimately show ?thesis using full by (intro exI [of _ ?t]) (simp add: mem_of_def)
    next
      case False
      then have "push_n_publish src n w free' ?q (mem_of b s) = Inr (r, q', m')"
        using run n True x(1) f' by (simp add: push_n_def Let_def free_def w_def)
      note res = push_n_publish_write_all [OF this refl]
      have "ppc ?t = PCopy (zip (batch_slots ?q w (min n free')) (take (unat (min n free')) src))
          (take (unat (min n free')) src) (next_many ?q w (min n free'))"
        using False by (simp add: copy_many_def Let_def w_def batch_slots_def next_many_def)
      from publish_all [OF ut this] show ?thesis
        using su res by (auto simp: writes_def mem_of_def intro: converse_rtranclp_into_rtranclp)
    qed
  qed
qed

lemma front_realised:
  assumes idle: "cpc s = CIdle" and view: "wview s < length (whist s)"
    and run: "front (cq s) (mem_of b s) = (p, q')"
  shows "\<exists>t. cons_step\<^sup>*\<^sup>* s t \<and> cpc t = (case p of None \<Rightarrow> CIdle | Some r \<Rightarrow> CHeld r None) \<and> cq t = q' \<and>
             mem_of b t = mem_of b s \<and> sent t = sent s \<and> got t = got s"
proof -
  define r where "r = last (rhist s)"
  define x where "x = whist s ! (length (whist s) - 1)"
  have x: "last (whist s) = x" "length (whist s) - 1 < length (whist s)" "wview s \<le> length (whist s) - 1"
    using view by (simp_all add: x_def last_conv_nth flip: length_greater_0_conv)
  show ?thesis
  proof (cases "r = writeIdxCache_m (cq s)")
    case False
    then have "p = Some r" "q' = cq s" using run by (auto simp: front_def Let_def r_def)
    moreover have "cons_step s (s\<lparr>cpc := CHeld r None\<rparr>)"
      unfolding r_def using idle False by (intro cons_step.front_cached) (simp_all add: r_def)
    ultimately show ?thesis by (intro exI [of _ "s\<lparr>cpc := CHeld r None\<rparr>"]) (auto simp: mem_of_def)
  next
    case True
    let ?u = "s\<lparr>cpc := CFront\<rparr>"
    let ?q = "(cq s)\<lparr>writeIdxCache_m := x\<rparr>"
    let ?t = "?u\<lparr>wview := length (whist s) - 1, cq := ?q, cpc := (if r = x then CIdle else CHeld r None)\<rparr>"
    have "cons_step s ?u" using idle True by (intro cons_step.front_miss) (simp_all add: r_def)
    moreover have "cons_step ?u ?t"
      using cons_step.front_load [of ?u "length (whist s) - 1" x] x by (cases "r = x") (simp_all add: x_def r_def)
    ultimately have "cons_step\<^sup>*\<^sup>* s ?t" by (meson rtranclp.rtrancl_into_rtrancl rtranclp.rtrancl_refl)
    moreover have "p = (if r = x then None else Some r)" "q' = ?q"
      using run True x(1) by (auto simp: front_def Let_def r_def split: if_splits)
    ultimately show ?thesis by (intro exI [of _ ?t]) (auto simp: mem_of_def)
  qed
qed

lemma try_pop_realised:
  assumes idle: "cpc s = CIdle" and view: "wview s < length (whist s)"
    and run: "try_pop ndebug out (cq s) (mem_of b s) = Inr (r, out', q', m')"
  shows "\<exists>t. cons_step\<^sup>*\<^sup>* s t \<and> cpc t = CIdle \<and> cq t = q' \<and> mem_of b t = m' \<and>
             got t = got s @ (if r then [Some out'] else []) \<and> sent t = sent s"
proof -
  obtain p q where f: "front (cq s) (mem_of b s) = (p, q)" by (cases "front (cq s) (mem_of b s)")
  obtain t where t: "cons_step\<^sup>*\<^sup>* s t" "cpc t = (case p of None \<Rightarrow> CIdle | Some r \<Rightarrow> CHeld r None)" "cq t = q"
      "mem_of b t = mem_of b s" "sent t = sent s" "got t = got s"
    using front_realised [OF idle view f] by blast
  show ?thesis
  proof (cases p)
    case None
    then show ?thesis using t f run by (intro exI [of _ t]) (auto simp: try_pop_def)
  next
    case (Some k)
    have eq: "cells t = cells s" "last (rhist t) = last (rhist s)" "last (whist t) = last (whist s)"
      using arg_cong [OF t(4), of slots] arg_cong [OF t(4), of "\<lambda>m. readIdx (block m)"]
        arg_cong [OF t(4), of "\<lambda>m. writeIdx (block m)"] by auto
    obtain o1 m where c: "memcpy [out] 0 (cells s) (unat k) 1 = Inr o1" and pop: "pop_front ndebug q (mem_of b s) = Inr m"
      and res: "r" "out' = o1 ! 0" "q' = q" "m' = m"
      using run f Some by (auto simp: try_pop_def)
    have "out' = cells s ! unat k"
      using c res(2) by (auto simp: memcpy_def take_Suc_conv_app_nth hd_drop_conv_nth take_Suc split: if_splits)
    moreover have "m = (mem_of b s)\<lparr>block := (block (mem_of b s))\<lparr>readIdx := next_one q (last (rhist s))\<rparr>\<rparr>"
      using pop by (auto simp: pop_front_def Let_def next_one_def split: if_splits)
    moreover define u where "u = t\<lparr>rmark := (rmark t)[unat k := length (rhist t)], cpc := CHeld k (Some (cells t ! unat k)),
                   bad := (bad t \<or> length (cells t) \<le> unat k \<or> wview t < wmark t ! unat k)\<rparr>"
    moreover define v where "v = u\<lparr>rhist := rhist u @ [next_one (cq u) (last (rhist u))], cpc := CIdle,
                   rtot := rtot u @ [last (rtot u) + 1], got := got u @ [Some (cells t ! unat k)]\<rparr>"
    moreover have "cons_step t u" unfolding u_def using t(2) Some by (intro cons_step.peek [of t k None]) simp
    moreover have "cons_step u v" unfolding v_def by (rule cons_step.pop_store [of u k]) (simp add: u_def)
    ultimately show ?thesis
      using t res eq by (intro exI [of _ v]) (auto simp: mem_of_def intro: rtranclp.rtrancl_into_rtrancl)
  qed
qed

lemma copy_out_all:
  "cpc s = CCopy todo acc next \<Longrightarrow>
   \<exists>t. cons_step\<^sup>*\<^sup>* s t \<and> cpc t = CCopy [] (acc @ map (\<lambda>i. cells s ! i) todo) next \<and> cells t = cells s \<and> cq t = cq s \<and>
       whist t = whist s \<and> rhist t = rhist s \<and> sent t = sent s \<and> got t = got s"
proof (induction todo arbitrary: s acc)
  case Nil
  then show ?case by auto
next
  case (Cons i todo)
  let ?t = "s\<lparr>rmark := (rmark s)[i := length (rhist s)], cpc := CCopy todo (acc @ [cells s ! i]) next,
              bad := (bad s \<or> length (cells s) \<le> i \<or> wview s < wmark s ! i)\<rparr>"
  have "cons_step s ?t" using Cons.prems by (rule cons_step.copy_out)
  with Cons.IH [of ?t "acc @ [cells s ! i]"] show ?case by (auto intro: converse_rtranclp_into_rtranclp)
qed

lemma release_all:
  assumes "cons_step s u" "cpc u = CCopy todo [] next" "whist u = whist s" "sent u = sent s" "got u = got s"
    "cells u = cells s"
  shows "\<exists>t. cons_step\<^sup>*\<^sup>* s t \<and> cpc t = CIdle \<and> cq t = cq u \<and> cells t = cells s \<and> last (rhist t) = next \<and>
             whist t = whist s \<and> sent t = sent s \<and> got t = got s @ map (\<lambda>i. Some (cells s ! i)) todo"
proof -
  obtain t where t: "cons_step\<^sup>*\<^sup>* u t" "cpc t = CCopy [] (map (\<lambda>i. cells u ! i) todo) next" "cells t = cells u" "cq t = cq u"
      "whist t = whist u" "sent t = sent u" "got t = got u"
    using copy_out_all [OF assms(2)] by auto
  let ?a = "map (\<lambda>i. cells u ! i) todo"
  let ?v = "t\<lparr>rhist := rhist t @ [next], cpc := CIdle, rtot := rtot t @ [last (rtot t) + length ?a], got := got t @ map Some ?a\<rparr>"
  have "cons_step t ?v" using t(2) by (rule cons_step.release_store)
  then have "cons_step\<^sup>*\<^sup>* s ?v"
    using t(1) assms(1) by (meson converse_rtranclp_into_rtranclp rtranclp.rtrancl_into_rtrancl)
  then show ?thesis using t assms by (intro exI [of _ ?v]) simp
qed

lemma take_drop_nth:
  "d + k \<le> length xs \<Longrightarrow> take k (drop d xs) = map (\<lambda>i. xs ! i) [d..<d + k]"
  by (intro nth_equalityI) auto

lemma pop_n_consume_slots:
  assumes "pop_n_consume dst n r avail q m = Inr (c, d, q', m')" and count: "count = min n avail"
  shows "c = count \<and> q' = q \<and> m' = m\<lparr>block := (block m)\<lparr>readIdx := next_many q r count\<rparr>\<rparr> \<and>
         take (unat count) d = map (\<lambda>i. slots m ! i) (batch_slots q r count)"
proof -
  define first where "first = min count (capacity_m q - r)"
  obtain d1 d2 where c1: "memcpy dst 0 (slots m) (unat r) (unat first) = Inr d1"
    and c2: "(if count > first then memcpy d1 (unat first) (slots m) 0 (unat (count - first)) else Inr d1) = Inr d2"
    and res: "c = count" "q' = q" "d = d2" "m' = m\<lparr>block := (block m)\<lparr>readIdx := next_many q r count\<rparr>\<rparr>"
    using assms(1) unfolding pop_n_consume_def Let_def count [symmetric] first_def [symmetric]
    by (auto simp: next_many_def Let_def)
  have f: "unat first \<le> unat count" by (simp add: first_def unat_min)
  have e: "unat (count - first) = unat count - unat first" using f by (simp only: unat_sub word_le_nat_alt)
  have gt: "count > first \<longleftrightarrow> unat first < unat count" by (simp only: word_less_nat_alt)
  have b1: "unat first \<le> length dst" "unat r + unat first \<le> length (slots m)"
      "d1 = splice dst 0 (take (unat first) (drop (unat r) (slots m)))"
    using memcpy_InrD [OF c1] by auto
  have b2: "unat count \<le> length d1" "unat count - unat first \<le> length (slots m)"
      "d2 = splice d1 (unat first) (take (unat count - unat first) (slots m))"
    using c2 f b1 unfolding e gt by (auto dest: memcpy_InrD split: if_splits)
  have bs: "batch_slots q r count = [unat r..<unat r + unat first] @ [0..<unat count - unat first]"
    unfolding batch_slots_def Let_def first_def [symmetric] e gt by auto
  have l: "take (unat first) d1 = take (unat first) (drop (unat r) (slots m))"
    using b1 by (simp add: splice_def)
  have "take (unat count) d = take (unat first) (drop (unat r) (slots m)) @ take (unat count - unat first) (slots m)"
    using b1 b2 l f by (simp add: res splice_def)
  then show ?thesis
    using res b1 b2 take_drop_nth [OF b1(2)] take_drop_nth [of 0 "unat count - unat first" "slots m"] by (simp add: bs)
qed

lemma pop_n_realised:
  assumes idle: "cpc s = CIdle" and view: "wview s < length (whist s)"
    and run: "pop_n dst n (cq s) (mem_of b s) = Inr (c, dst', q', m')"
  shows "\<exists>t. cons_step\<^sup>*\<^sup>* s t \<and> cpc t = CIdle \<and> cq t = q' \<and> mem_of b t = m' \<and>
             got t = got s @ map Some (take (unat c) dst') \<and> sent t = sent s"
proof (cases "n = 0")
  case True
  then show ?thesis using run idle by (intro exI [of _ s]) (simp add: pop_n_def)
next
  case n: False
  define r where "r = last (rhist s)"
  define x where "x = whist s ! (length (whist s) - 1)"
  have x: "last (whist s) = x" "length (whist s) - 1 < length (whist s)" "wview s \<le> length (whist s) - 1"
    using view by (simp_all add: x_def last_conv_nth flip: length_greater_0_conv)
  define avail where "avail = usedSlots (cq s) (writeIdxCache_m (cq s)) r"
  show ?thesis
  proof (cases "avail < n")
    case False
    then have "pop_n_consume dst n r avail (cq s) (mem_of b s) = Inr (c, dst', q', m')"
      using run n by (simp add: pop_n_def Let_def avail_def r_def)
    note res = pop_n_consume_slots [OF this refl]
    let ?u = "s\<lparr>cpc := read_many n avail s\<rparr>"
    have su: "cons_step s ?u" using idle n False by (intro cons_step.pop_n_cached) (simp_all add: avail_def r_def)
    have "cpc ?u = CCopy (batch_slots (cq s) r (min n avail)) [] (next_many (cq s) r (min n avail))"
      by (simp add: read_many_def Let_def r_def)
    from release_all [OF su this] show ?thesis using res by (auto simp: mem_of_def)
  next
    case True
    let ?u = "s\<lparr>cpc := CBatch n\<rparr>"
    let ?q = "(cq s)\<lparr>writeIdxCache_m := x\<rparr>"
    define avail' where "avail' = usedSlots (cq s) x r"
    have a': "avail' = usedSlots ?q x r" by (simp add: avail'_def usedSlots_def)
    let ?t = "?u\<lparr>wview := length (whist s) - 1, cq := ?q, cpc := (if avail' = 0 then CIdle else read_many n avail' ?u)\<rparr>"
    have su: "cons_step s ?u" using idle n True by (intro cons_step.pop_n_miss) (simp_all add: avail_def r_def)
    have ut: "cons_step ?u ?t"
      using cons_step.pop_n_load [of ?u n "length (whist s) - 1" x avail'] x
      by (simp add: x_def avail'_def r_def)
    show ?thesis
    proof (cases "avail' = 0")
      case empty: True
      then have "c = 0" "q' = ?q" "m' = mem_of b s"
        using run True x(1) n a' by (auto simp: pop_n_def Let_def avail_def r_def)
      moreover have "cons_step\<^sup>*\<^sup>* s ?t" using su ut by (meson rtranclp.rtrancl_into_rtrancl rtranclp.rtrancl_refl)
      ultimately show ?thesis using empty by (intro exI [of _ ?t]) (simp add: mem_of_def)
    next
      case False
      then have "pop_n_consume dst n r avail' ?q (mem_of b s) = Inr (c, dst', q', m')"
        using run n True x(1) a' by (simp add: pop_n_def Let_def avail_def r_def)
      note res = pop_n_consume_slots [OF this refl]
      have "cpc ?t = CCopy (batch_slots ?q r (min n avail')) [] (next_many ?q r (min n avail'))"
        using False by (simp add: read_many_def Let_def r_def batch_slots_def next_many_def)
      from release_all [OF ut this] show ?thesis
        using su res by (auto simp: mem_of_def intro: converse_rtranclp_into_rtranclp)
    qed
  qed
qed

lemma steps_reachable:
  "prod_step\<^sup>*\<^sup>* s t \<Longrightarrow> reachable c xs s \<Longrightarrow> reachable c xs t"
  "cons_step\<^sup>*\<^sup>* s t \<Longrightarrow> reachable c xs s \<Longrightarrow> reachable c xs t"
  by (induction rule: rtranclp_induct; blast intro: reachable.step [unfolded spsc_step_def])+

subsection \<open>Properties\<close>

lemma prod_step_frame:
  "prod_step s t \<Longrightarrow> cpc t = cpc s \<and> cq t = cq s \<and> wview t = wview s \<and> rhist t = rhist s \<and> got t = got s \<and>
     (\<exists>ys. whist t = whist s @ ys) \<and> (\<exists>ys. sent t = sent s @ ys)"
  by (induction rule: prod_step.induct) auto

lemma prod_steps_frame:
  "prod_step\<^sup>*\<^sup>* s t \<Longrightarrow> cpc t = cpc s \<and> cq t = cq s \<and> wview t = wview s \<and> length (whist s) \<le> length (whist t)"
  by (induction rule: rtranclp_induct) (auto dest: prod_step_frame)

text \<open>A run for the witnesses: two pushes into a ring of three slots, then a \<^verbatim>\<open>front\<close>.\<close>

lemma sample_reachable:
  "\<exists>s. reachable 3 [0, 0, 0 :: nat] s \<and> ppc s = PIdle \<and> cpc s = CHeld 0 None \<and> sent s = [7, 8] \<and> got s = []"
proof -
  define s0 :: "nat conf" where "s0 = spsc_init 3 [0, 0, 0]"
  have r0: "reachable 3 [0, 0, 0] s0" unfolding s0_def by (rule reachable.init)
  obtain q m where p: "push_n [7, 8] 2 (pq s0) (mem_of sample_block s0) = Inr (2, q, m)"
    and m: "writeIdx (block m) = 2" "readIdx (block m) = 0"
    by (simp add: s0_def spsc_init_def push_n_def push_n_publish_def freeSlots_def memcpy_def Let_def ShmSpscQueue_def)
  have i0: "ppc s0 = PIdle" "rview s0 < length (rhist s0)" by (simp_all add: s0_def spsc_init_def)
  obtain s1 where s1: "prod_step\<^sup>*\<^sup>* s0 s1" "ppc s1 = PIdle" "mem_of sample_block s1 = m" "sent s1 = [7, 8]" "got s1 = []"
    using push_n_realised [OF i0 _ p] by (auto simp: s0_def spsc_init_def)
  have i1: "cpc s1 = CIdle" "wview s1 < length (whist s1)" "writeIdxCache_m (cq s1) = 0"
    using prod_steps_frame [OF s1(1)] by (auto simp: s0_def spsc_init_def ShmSpscQueue_def)
  have "last (rhist s1) = 0" "last (whist s1) = 2" using s1(3) m by (auto simp: mem_of_def)
  then obtain q' where "front (cq s1) (mem_of sample_block s1) = (Some 0, q')" using i1 by (simp add: front_def)
  from front_realised [OF i1(1,2) this] obtain s2 where
    s2: "cons_step\<^sup>*\<^sup>* s1 s2" "cpc s2 = CHeld 0 None" "sent s2 = sent s1" "got s2 = got s1" by auto
  have "ppc s2 = ppc s1"
    using s2(1) by (induction rule: rtranclp_induct) (auto elim: cons_step.cases)
  then show ?thesis
    using steps_reachable(2) [OF s2(1) steps_reachable(1) [OF s1(1) r0]] s1 s2 by auto
qed

lemma sample_geometry [simp]: "geometry_ok 3 [0, 0, 0 :: nat]"
  by (simp add: geometry_ok_def)

text \<open>
  C2. FIFO under every interleaving of the two processes, on release/acquire memory and with
  either side crashing at any point and being replaced by a process that attaches afterwards: what
  the consumer popped is a prefix of what the producer published, element by element (\<open>None\<close> where it
  popped without reading), the backlog never exceeds \<^verbatim>\<open>capacity()\<close>, and every element of the backlog
  is intact in its slot.
\<close>

theorem concurrent_fifo:
  assumes "reachable c xs s" and "geometry_ok c xs"
  shows "length (got s) \<le> length (sent s) \<and> length (sent s) - length (got s) \<le> unat c - 1 \<and>
         (\<forall>i < length (got s). got s ! i = None \<or> got s ! i = Some (sent s ! i)) \<and>
         (\<forall>i. length (got s) \<le> i \<and> i < length (sent s) \<longrightarrow> cells s ! (i mod unat c) = sent s ! i)"
proof -
  note i = reachable_inv [OF assms]
  show ?thesis
    using spsc_invD(3) [OF i] hist_order(1-4) [OF spsc_invD(2) [OF i]] by (auto simp: data_def)
qed

theorem concurrent_fifo_witness:
  "\<exists>s. reachable 3 [0, 0, 0 :: nat] s \<and> sent s = [7, 8] \<and> got s = [] \<and> cells s ! 0 = 7 \<and> cells s ! 1 = 8"
proof -
  obtain s where s: "reachable 3 [0, 0, 0 :: nat] s" "sent s = [7, 8]" "got s = []" using sample_reachable by blast
  have "cells s ! (i mod unat (3 :: u64)) = sent s ! i" if "i < 2" for i
    using concurrent_fifo [OF s(1) sample_geometry] that s by simp
  from this [of 0] this [of 1] show ?thesis using s by auto
qed

text \<open>
  C3. Freedom from data races, out-of-range accesses and assertion failures: no reachable state has
  performed a slot access that was not ordered after the peer's last access to that slot, one
  outside the array, or a \<^verbatim>\<open>pop\<close> whose assertion failed.
\<close>

theorem spsc_race_free:
  assumes "reachable c xs s" and "geometry_ok c xs"
  shows "\<not> bad s"
  by (rule spsc_invD(8) [OF reachable_inv [OF assms]])

theorem spsc_race_free_witness:
  "\<exists>s. reachable 3 [0, 0, 0 :: nat] s \<and> sent s = [7, 8] \<and> \<not> bad s"
  using sample_reachable spsc_race_free [OF _ sample_geometry] by blast

text \<open>
  C9. The pointer returned by \<^verbatim>\<open>front\<close> stays good until \<^verbatim>\<open>pop\<close>: it is in range, shows the oldest
  unpopped element, and no step of the producer (nor its crash and replacement) changes what it shows.
\<close>

theorem front_pointer_stable:
  assumes "reachable c xs s" and "geometry_ok c xs" and "cpc s = CHeld r out" and "prod_step s t"
  shows "cpc t = CHeld r out \<and> unat r < length (cells t) \<and> length (got s) < length (sent s) \<and>
         cells s ! unat r = sent s ! length (got s) \<and> cells t ! unat r = cells s ! unat r"
proof -
  have held: "unat r < length (cells s) \<and> length (got s) < length (sent s) \<and> cells s ! unat r = sent s ! length (got s)"
    if i: "spsc_inv (unat c) s" and "cpc s = CHeld r out" for s :: "'a conf"
  proof -
    note g = spsc_invD(9-14) [OF i]
    have r: "r = idx (unat c) (totC s)" "totC s < totW s" using spsc_invD(7) [OF i] that by (auto simp: cpc_ok_def)
    have "unat r = totC s mod unat c" using unat_idx [OF g(6,4)] r(1) by simp
    then show ?thesis
      using read_ok [OF i order_refl r(2)] spsc_invD(3) [OF i] r hist_order(3) [OF spsc_invD(2) [OF i]]
      by (simp add: data_def)
  qed
  note i = reachable_inv [OF assms(1,2)]
  note j = inv_prod_step [OF assms(4) i] and f = prod_step_frame [OF assms(4)]
  show ?thesis
    using held [OF i assms(3)] held [OF j] f assms(3) by (auto simp: nth_append)
qed

theorem front_pointer_stable_witness:
  "\<exists>s t. cpc s = CHeld 0 None \<and> prod_step s t \<and> cells t ! 0 = (7 :: nat)"
proof -
  obtain s where s: "reachable 3 [0, 0, 0 :: nat] s" "ppc s = PIdle" "cpc s = CHeld 0 None" "sent s = [7, 8]" "got s = []"
    using sample_reachable by blast
  define t where "t = s\<lparr>rview := rview s, pq := (pq s)\<lparr>readIdxCache_m := rhist s ! rview s\<rparr>, ppc := PIdle\<rparr>"
  have "rview s < length (rhist s)"
    using spsc_invD(2) [OF reachable_inv [OF s(1) sample_geometry]] by (simp add: hist_def)
  then have st: "prod_step s t" unfolding t_def by (intro prod_step.prod_replaced) simp_all
  then have "cells t ! 0 = 7" using front_pointer_stable [OF s(1) sample_geometry s(3) st] s by simp
  then show ?thesis using st s by blast
qed

text \<open>
  C10. Stale caches only err on the safe side: computed from its cached copy of the peer's index,
  the producer's free count never exceeds the room there is, and the consumer's used count never
  exceeds the backlog. Neither ever has to look at the peer's index to stay safe.
\<close>

theorem stale_caches_conservative:
  assumes "reachable c xs s" and "geometry_ok c xs"
  shows "unat (freeSlots (pq s) (last (whist s)) (readIdxCache_m (pq s))) \<le> unat c - 1 - (length (sent s) - length (got s)) \<and>
         unat (usedSlots (cq s) (writeIdxCache_m (cq s)) (last (rhist s))) \<le> length (sent s) - length (got s)"
proof -
  note i = reachable_inv [OF assms]
  note o = hist_order [OF spsc_invD(2) [OF i]] and g = spsc_invD(9-14) [OF i]
  have c: "readIdxCache_m (pq s) = idx (unat c) (totR s)" "writeIdxCache_m (cq s) = idx (unat c) (totW s)"
      "length (sent s) = totP s" "length (got s) = totC s"
    using spsc_invD(2,3) [OF i] by (simp_all add: hist_def data_def)
  have "unat (freeSlots (pq s) (last (whist s)) (readIdxCache_m (pq s))) = unat c - 1 - (totP s - totR s)"
    unfolding c o(5) using o(1-4) by (intro freeSlots_idx g) linarith+
  moreover have "unat (usedSlots (cq s) (writeIdxCache_m (cq s)) (last (rhist s))) = totW s - totC s"
    unfolding c o(6) using o(1-4) by (intro usedSlots_idx g) linarith+
  ultimately show ?thesis using o(1-4) unfolding c by linarith
qed

theorem stale_caches_conservative_witness:
  "\<exists>s. reachable 3 [0, 0, 0 :: nat] s \<and> sent s = [7, 8] \<and>
       unat (freeSlots (pq s) (last (whist s)) (readIdxCache_m (pq s))) = 0"
proof -
  obtain s where s: "reachable 3 [0, 0, 0 :: nat] s" "sent s = [7, 8]" "got s = []" using sample_reachable by blast
  then show ?thesis using stale_caches_conservative [OF s(1) sample_geometry] by auto
qed

text \<open>
  No spurious refusal: when \<^verbatim>\<open>try_push\<close> reloads the read index and sees the newest value, it gives
  up exactly when the ring holds \<^verbatim>\<open>capacity()\<close> elements; when \<^verbatim>\<open>front\<close> reloads the write index and sees
  the newest value, it returns null exactly when there is no element.
\<close>

theorem reload_is_exact:
  assumes "reachable c xs s" and "geometry_ok c xs"
  shows "(\<forall>v nx. ppc s = PTry v nx \<longrightarrow> (nx = last (rhist s) \<longleftrightarrow> length (sent s) - length (got s) = unat c - 1)) \<and>
         (last (rhist s) = last (whist s) \<longleftrightarrow> sent s = take (length (got s)) (sent s))"
proof -
  note i = reachable_inv [OF assms]
  note o = hist_order [OF spsc_invD(2) [OF i]] and g = spsc_invD(9-14) [OF i]
  have l: "length (sent s) = totP s" "length (got s) = totC s" using spsc_invD(3) [OF i] by (simp_all add: data_def)
  have "nx = last (rhist s) \<longleftrightarrow> totP s - totC s = unat c - 1" if "ppc s = PTry v nx" for v nx
  proof -
    have "nx = idx (unat c) (Suc (totP s))" using spsc_invD(6) [OF i] that by (simp add: ppc_ok_def)
    then have "nx = last (rhist s) \<longleftrightarrow> Suc (totP s) = totC s + unat c"
      unfolding o(6) using next_free_iff [OF g(3,4), of "totC s" "totP s"] o(1-4) by auto
    then show ?thesis using o(1-4) g(3) by linarith
  qed
  moreover have "last (rhist s) = last (whist s) \<longleftrightarrow> totC s = totP s"
    unfolding o(5,6) using o(1-4) by (intro idx_empty_iff g) linarith+
  moreover have "sent s = take (totC s) (sent s) \<longleftrightarrow> totC s = totP s"
  proof
    assume "sent s = take (totC s) (sent s)"
    then have "length (sent s) = min (length (sent s)) (totC s)" by (metis length_take)
    then show "totC s = totP s" using l o(1-3) by linarith
  qed (simp add: l)
  ultimately show ?thesis unfolding l by blast
qed

theorem reload_is_exact_witness:
  "\<exists>s. reachable 3 [0, 0, 0 :: nat] s \<and> sent s = [7, 8] \<and> last (rhist s) \<noteq> last (whist s)"
proof -
  obtain s where s: "reachable 3 [0, 0, 0 :: nat] s" "sent s = [7, 8]" "got s = []" using sample_reachable by blast
  then show ?thesis using reload_is_exact [OF s(1) sample_geometry] by auto
qed

definition realises :: "('a conf \<Rightarrow> 'a conf \<Rightarrow> bool) \<Rightarrow> control_block \<Rightarrow> 'a conf \<Rightarrow> ('a conf \<Rightarrow> queue) \<Rightarrow> queue \<Rightarrow> 'a shm \<Rightarrow>
    'a list \<Rightarrow> 'a list \<Rightarrow> 'a conf \<Rightarrow> bool" where
  "realises R b s h q' m' pushed popped t \<longleftrightarrow> R\<^sup>*\<^sup>* s t \<and> h t = q' \<and> mem_of b t = m' \<and>
     sent t = sent s @ pushed \<and> got t = got s @ map Some popped"

lemma ring_ok_mem_of:
  assumes "spsc_inv n s"
  shows "prod_ok (pq s) (mem_of b s)" "cons_ok (cq s) (mem_of b s)"
proof -
  note o = hist_order [OF spsc_invD(2) [OF assms]] and g = spsc_invD(9-14) [OF assms]
  have c: "readIdxCache_m (pq s) = idx n (totR s)" "writeIdxCache_m (cq s) = idx n (totW s)"
    using spsc_invD(2) [OF assms] by (simp_all add: hist_def)
  have u: "unat (idx n p) = p mod n" "p mod n < n" for p using g by (simp_all add: unat_idx)
  have d: "used n (totP s mod n) (totC s mod n) = totP s - totC s" "used n (totP s mod n) (totR s mod n) = totP s - totR s"
      "used n (totW s mod n) (totC s mod n) = totW s - totC s"
    using o(1-4) by (auto intro!: used_of_totals)
  have "ring_ok n (mem_of b s)" unfolding ring_ok_def mem_of_simps o(5,6) u using g u(2) by auto
  then show "prod_ok (pq s) (mem_of b s)" "cons_ok (cq s) (mem_of b s)"
    unfolding prod_ok_def cons_ok_def mem_of_simps g(1,2) o(5,6) c u d using u(2) o(1-4) by (auto intro: diff_le_mono2)
qed

text \<open>
  C11. The producer's operations of \<open>Ring\<close>, which transcribe the source, are executions of the step
  relation: from any reachable state in which the producer is idle, \<^verbatim>\<open>try_push\<close> and \<^verbatim>\<open>push_n\<close> do not
  fault, and a sequence of the producer's steps ends, idle again, in the operation's memory and
  handle with exactly the accepted elements published.
\<close>

theorem producer_operations_are_executions:
  assumes "reachable c xs s" and "geometry_ok c xs" and "ppc s = PIdle" and "unat n \<le> length src"
  shows "(\<exists>r q' m' t. try_push v (pq s) (mem_of b s) = Inr (r, q', m') \<and> ppc t = PIdle \<and>
            realises prod_step b s pq q' m' (if r then [v] else []) [] t) \<and>
         (\<exists>k q' m' t. push_n src n (pq s) (mem_of b s) = Inr (k, q', m') \<and> ppc t = PIdle \<and>
            realises prod_step b s pq q' m' (take (unat k) src) [] t)"
proof -
  note i = reachable_inv [OF assms(1,2)]
  have view: "rview s < length (rhist s)" using spsc_invD(2) [OF i] by (simp add: hist_def)
  note p = ring_ok_mem_of(1) [OF i, of b]
  obtain r q' m' where one: "try_push v (pq s) (mem_of b s) = Inr (r, q', m')"
    by (rule try_push_cases [OF p, of v]) auto
  obtain k q2 m2 where many: "push_n src n (pq s) (mem_of b s) = Inr (k, q2, m2)"
    by (rule push_n_cases [OF p assms(4)]) auto
  show ?thesis
    using one try_push_realised [OF assms(3) view one] many push_n_realised [OF assms(3) view assms(4) many]
    unfolding realises_def by auto
qed

theorem producer_operations_are_executions_witness:
  "\<exists>s r q' m' t. reachable 3 [0, 0, 0 :: nat] s \<and> sent s = [7, 8] \<and>
     try_push 9 (pq s) (mem_of sample_block s) = Inr (r, q', m') \<and>
     realises prod_step sample_block s pq q' m' (if r then [9] else []) [] t"
proof -
  obtain s where s: "reachable 3 [0, 0, 0 :: nat] s" "ppc s = PIdle" "sent s = [7, 8]" using sample_reachable by blast
  have "unat (1 :: u64) \<le> length [9 :: nat]" by simp
  from producer_operations_are_executions [OF s(1) sample_geometry s(2) this, of 9 sample_block] s(1,3)
  show ?thesis by blast
qed

text \<open>
  C12. The same for the consumer: from any reachable state in which it is idle, \<^verbatim>\<open>try_pop\<close> and \<^verbatim>\<open>pop_n\<close> do
  not fault (the assertion included), and a sequence of the consumer's steps ends, idle again, in the
  operation's memory and handle with exactly the elements it returned popped.
\<close>

theorem consumer_operations_are_executions:
  assumes "reachable c xs s" and "geometry_ok c xs" and "cpc s = CIdle" and "unat n \<le> length dst"
  shows "(\<exists>r out' q' m' t. try_pop ndebug out (cq s) (mem_of b s) = Inr (r, out', q', m') \<and> cpc t = CIdle \<and>
            realises cons_step b s cq q' m' [] (if r then [out'] else []) t) \<and>
         (\<exists>k dst' q' m' t. pop_n dst n (cq s) (mem_of b s) = Inr (k, dst', q', m') \<and> cpc t = CIdle \<and>
            realises cons_step b s cq q' m' [] (take (unat k) dst') t)"
proof -
  note i = reachable_inv [OF assms(1,2)]
  have view: "wview s < length (whist s)" using spsc_invD(2) [OF i] by (simp add: hist_def)
  note p = ring_ok_mem_of(2) [OF i, of b]
  obtain r o' q' m' where one: "try_pop ndebug out (cq s) (mem_of b s) = Inr (r, o', q', m')"
    by (rule try_pop_cases [OF p, of ndebug out]) auto
  obtain k d' q2 m2 where many: "pop_n dst n (cq s) (mem_of b s) = Inr (k, d', q2, m2)"
    by (rule pop_n_cases [OF p assms(4)]) auto
  show ?thesis
    using one try_pop_realised [OF assms(3) view one] many pop_n_realised [OF assms(3) view many]
    unfolding realises_def by auto
qed

theorem consumer_operations_are_executions_witness:
  "\<exists>r out' q' m' t. try_pop False (5 :: nat) (cq (spsc_init 3 [0, 0, 0 :: nat])) (mem_of sample_block (spsc_init 3 [0, 0, 0])) =
       Inr (r, out', q', m') \<and>
     realises cons_step sample_block (spsc_init 3 [0, 0, 0 :: nat]) cq q' m' [] (if r then [out'] else []) t"
proof -
  have "cpc (spsc_init 3 [0, 0, 0 :: nat]) = CIdle" "unat (1 :: u64) \<le> length [9 :: nat]" by (simp_all add: spsc_init_def)
  from consumer_operations_are_executions [OF reachable.init sample_geometry this, of False 5 sample_block]
  show ?thesis by blast
qed

end
