(* ===== verification/Lifecycle.thy ===== *)
theory Lifecycle
  imports Ring
begin

section \<open>The life of a handle: create, attach, validate, bind, move, detach\<close>

text \<open>
  Lines 38--50, 102--135, 150--209, 377--412 and 414--504 of
  \<^verbatim>\<open>include/shmspsc/ShmSpscQueue.h\<close>. The world is the kernel's state and the control block in
  every shared-memory object; a handle reaches a block through the address it holds, as long as
  the kernel still backs that address. Besides the calls of \<open>posix\<close> the host offers
  \<^verbatim>\<open>kill(pid, 0)\<close>, \<^verbatim>\<open>getpid\<close>, \<^verbatim>\<open>steady_clock::now\<close> and \<^verbatim>\<open>usleep\<close>; while this process sleeps the
  others may do anything to the world. Times are in nanoseconds.

  What competing processes do between the loads and the compare-and-swap of \<^verbatim>\<open>bind\<close> is the
  subject of \<open>Claim\<close>; here its loop runs undisturbed, but the weak compare-and-swap may fail
  spuriously any number of times.
\<close>

record 'k world =
  kern :: 'k
  objs :: "oid \<Rightarrow> control_block"

record 'k host =
  posix_of :: "'k posix"
  kill0 :: "i32 \<Rightarrow> 'k \<Rightarrow> errno option" \<comment> \<open>None: the signal could be sent\<close>
  getpid :: i32
  steady_now :: "'k \<Rightarrow> nat \<times> 'k"
  usleep :: "nat \<Rightarrow> 'k world \<Rightarrow> 'k world"
  spurious :: nat \<comment> \<open>how often the weak compare-and-swap fails before it is decided\<close>

datatype err = Throws exn | Faults fault

definition ESRCH :: errno where "ESRCH = 3"

definition processAlive :: "(i32 \<Rightarrow> errno option) \<Rightarrow> i32 \<Rightarrow> bool" where
  "processAlive kill pid =
     (if sint pid \<le> 0 then False
      else case kill pid of None \<Rightarrow> True | Some e \<Rightarrow> e \<noteq> ESRCH)"

definition kMagic :: u64 where "kMagic = 0x53484d5350534331"
definition kVersion :: u32 where "kVersion = 1"

text \<open>The block a handle's \<^verbatim>\<open>ctrl_\<close> reaches.\<close>

definition reaches :: "'k host \<Rightarrow> queue \<Rightarrow> 'k world \<Rightarrow> oid option" where
  "reaches H q w = (case ctrl_m q of None \<Rightarrow> None | Some a \<Rightarrow> backing (posix_of H) (kern w) a)"

definition deref :: "'k host \<Rightarrow> queue \<Rightarrow> 'k world \<Rightarrow> err + oid \<times> control_block" where
  "deref H q w = (case reaches H q w of None \<Rightarrow> Inl (Faults BadPointer) | Some ob \<Rightarrow> Inr (ob, objs w ob))"

definition store :: "oid \<Rightarrow> control_block \<Rightarrow> 'k world \<Rightarrow> 'k world" where
  "store ob c w = w\<lparr>objs := (objs w)(ob := c)\<rparr>"

text \<open>\<^verbatim>\<open>role == Role::Producer ? producerPid : consumerPid\<close> and its opposite.\<close>

definition pid_slot :: "role \<Rightarrow> control_block \<Rightarrow> i32" where
  "pid_slot r c = (case r of Producer \<Rightarrow> producerPid c | Consumer \<Rightarrow> consumerPid c)"

definition set_pid_slot :: "role \<Rightarrow> i32 \<Rightarrow> control_block \<Rightarrow> control_block" where
  "set_pid_slot r p c = (case r of Producer \<Rightarrow> c\<lparr>producerPid := p\<rparr> | Consumer \<Rightarrow> c\<lparr>consumerPid := p\<rparr>)"

definition peer_slot :: "role \<Rightarrow> control_block \<Rightarrow> i32" where
  "peer_slot r c = (case r of Producer \<Rightarrow> consumerPid c | Consumer \<Rightarrow> producerPid c)"

subsection \<open>validate and bind\<close>

definition validate :: "binary \<Rightarrow> u64 \<Rightarrow> control_block \<Rightarrow> exn + unit" where
  "validate b seg_size c =
     (if magic c \<noteq> kMagic then Inl (Runtime_error ''bad magic: not a shmspsc segment'')
      else if version c \<noteq> kVersion
      then Inl (Runtime_error (''version mismatch: segment v'' @ to_string (unat (version c)) @
                 '', binary v'' @ to_string (unat kVersion)))
      else if unat (cacheLineSize c) \<noteq> kCacheLine b
      then Inl (Runtime_error (''cache line mismatch: segment '' @ to_string (unat (cacheLineSize c)) @
                 '', binary '' @ to_string (kCacheLine b)))
      else if ucast (elemSize c) \<noteq> sizeof_T b \<or> ucast (elemAlign c) \<noteq> alignof_T b
      then Inl (Runtime_error (''element layout mismatch: segment '' @ to_string (unat (elemSize c)) @ ''/'' @
                 to_string (unat (elemAlign c)) @ '', binary '' @ to_string (unat (sizeof_T b)) @ ''/'' @
                 to_string (unat (alignof_T b))))
      else let needed = ucast (slotsOffset c) + capacity c * sizeof_T b in
           if needed > totalBytes c \<or> totalBytes c > seg_size
           then Inl (Runtime_error (''segment too small: needs '' @ to_string (unat needed) @ '', declared '' @
                      to_string (unat (totalBytes c)) @ '', mapped '' @ to_string (unat seg_size)))
           else Inr ())"

text \<open>
  The loop of lines 447--466 on an undisturbed slot: \<open>n\<close> further spurious failures of the
  compare-and-swap. The result is the value the slot is left with.
\<close>

fun claim_slot :: "(i32 \<Rightarrow> bool) \<Rightarrow> role \<Rightarrow> i32 \<Rightarrow> nat \<Rightarrow> i32 \<Rightarrow> exn + i32" where
  "claim_slot alive role self n expected =
     (if expected = self then Inr expected
      else if 0 < sint expected \<and> alive expected
      then Inl (Runtime_error (''a live '' @ (if role = Producer then ''producer'' else ''consumer'') @
                 '' is already attached (pid '' @ to_string (nat (sint expected)) @ '')''))
      else case n of 0 \<Rightarrow> Inr self | Suc m \<Rightarrow> claim_slot alive role self m expected)"

declare claim_slot.simps [simp del]

text \<open>Lines 431--436.\<close>

definition bind_members :: "role \<Rightarrow> control_block \<Rightarrow> queue \<Rightarrow> queue" where
  "bind_members role c q =
     q\<lparr>role_m := role, capacity_m := capacity c,
       slots_m := map_option (\<lambda>a. a + unat (slotsOffset c)) (ctrl_m q),
       readIdxCache_m := readIdx c, writeIdxCache_m := writeIdx c\<rparr>"

definition bind :: "'k host \<Rightarrow> role \<Rightarrow> queue \<Rightarrow> 'k world \<Rightarrow> (err + queue) \<times> queue \<times> 'k world" where
  "bind H role q w =
     (case deref H q w of
        Inl e \<Rightarrow> (Inl e, q, w)
      | Inr (ob, c) \<Rightarrow>
          (let q1 = bind_members role c q
           in case claim_slot (processAlive (\<lambda>p. kill0 H p (kern w))) role (getpid H) (spurious H) (pid_slot role c) of
                Inl e \<Rightarrow> (Inl (Throws e), q1, w)
              | Inr p \<Rightarrow> (let q2 = q1\<lparr>bound_m := True\<rparr> in (Inr q2, q2, store ob (set_pid_slot role p c) w))))"

subsection \<open>detach, moves, destruction\<close>

definition detach :: "'k host \<Rightarrow> queue \<Rightarrow> 'k world \<Rightarrow> (err + queue) \<times> 'k world" where
  "detach H q w =
     (let done = (\<lambda>w. let (s, k) = seg_reset (posix_of H) (seg_m q) (kern w)
                      in (Inr (q\<lparr>ctrl_m := None, slots_m := None, bound_m := False, seg_m := s\<rparr>), w\<lparr>kern := k\<rparr>))
      in if ctrl_m q \<noteq> None \<and> bound_m q
         then case deref H q w of
                Inl e \<Rightarrow> (Inl e, w)
              | Inr (ob, c) \<Rightarrow>
                  done (if pid_slot (role_m q) c = getpid H then store ob (set_pid_slot (role_m q) (- 1) c) w else w)
         else done w)"

definition swapWith :: "queue \<Rightarrow> queue \<Rightarrow> queue \<times> queue" where
  "swapWith q p =
     (let (s, t) = seg_swap (seg_m q) (seg_m p)
      in (\<lparr>seg_m = s, ctrl_m = ctrl_m p, slots_m = slots_m p, capacity_m = capacity_m p, role_m = role_m p,
           bound_m = bound_m p, readIdxCache_m = readIdxCache_m p, writeIdxCache_m = writeIdxCache_m p\<rparr>,
          \<lparr>seg_m = t, ctrl_m = ctrl_m q, slots_m = slots_m q, capacity_m = capacity_m q, role_m = role_m q,
           bound_m = bound_m q, readIdxCache_m = readIdxCache_m q, writeIdxCache_m = writeIdxCache_m q\<rparr>))"

definition queue_move :: "queue \<Rightarrow> queue \<times> queue" where
  "queue_move src = swapWith ShmSpscQueue src"

text \<open>\<open>same\<close> is \<^verbatim>\<open>this == &o\<close>; the results are the target, the source and the world.\<close>

definition queue_move_assign :: "'k host \<Rightarrow> bool \<Rightarrow> queue \<Rightarrow> queue \<Rightarrow> 'k world \<Rightarrow> (err + queue \<times> queue) \<times> 'k world" where
  "queue_move_assign H same dst src w =
     (if same then (Inr (dst, src), w)
      else case detach H dst w of
             (Inl e, w1) \<Rightarrow> (Inl e, w1)
           | (Inr dst1, w1) \<Rightarrow> (Inr (swapWith dst1 src), w1))"

text \<open>
  An exception leaves the function through the destructor of the local handle \<^verbatim>\<open>q\<close>
  (\<^verbatim>\<open>~ShmSpscQueue\<close> is \<^verbatim>\<open>detach\<close>).
\<close>

definition unwind :: "'k host \<Rightarrow> err \<Rightarrow> queue \<Rightarrow> 'k world \<Rightarrow> (err + queue) \<times> 'k world" where
  "unwind H e q w =
     (case e of
        Faults f \<Rightarrow> (Inl e, w)
      | Throws x \<Rightarrow> (case detach H q w of (Inl e', w') \<Rightarrow> (Inl e', w') | (Inr _, w') \<Rightarrow> (Inl e, w')))"

subsection \<open>create\<close>

text \<open>\<^verbatim>\<open>memset\<close> to zero and the stores of lines 162--171.\<close>

definition created_block :: "binary \<Rightarrow> u64 \<Rightarrow> u64 \<Rightarrow> control_block" where
  "created_block b nslots seg_size =
     \<lparr>magic = kMagic, capacity = nslots, totalBytes = seg_size, version = kVersion,
      cacheLineSize = of_nat (kCacheLine b), elemSize = ucast (sizeof_T b), elemAlign = ucast (alignof_T b),
      slotsOffset = ucast (sizeof_ControlBlock b), producerPid = 0, consumerPid = 0, ready = 0,
      writeIdx = 0, readIdx = 0\<rparr>"

definition create :: "'k host \<Rightarrow> binary \<Rightarrow> string \<Rightarrow> u64 \<Rightarrow> role \<Rightarrow> 'k world \<Rightarrow> (err + queue) \<times> 'k world" where
  "create H b name cap0 role w =
     (let cap1 = (if cap0 < 1 then 1 else cap0);
          nslots = cap1 + 1;
          q = ShmSpscQueue
      in case bytesNeeded b cap1 of
           Inl e \<Rightarrow> unwind H (Throws e) q w
         | Inr bytes \<Rightarrow>
             (case seg_create (posix_of H) name bytes (kern w) of
                (Inl e, k) \<Rightarrow> unwind H (Throws e) q (w\<lparr>kern := k\<rparr>)
              | (Inr s, k) \<Rightarrow>
                  (let (seg, _, k1) = seg_move_assign (posix_of H) False (seg_m q) s k;
                       q1 = q\<lparr>seg_m := seg, ctrl_m := addr_m seg\<rparr>;
                       w1 = w\<lparr>kern := k1\<rparr>
                   in case deref H q1 w1 of
                        Inl e \<Rightarrow> (Inl e, w1)
                      | Inr (ob, _) \<Rightarrow>
                          (case bind H role q1 (store ob (created_block b nslots (size_m seg)) w1) of
                             (Inl e, q2, w2) \<Rightarrow> unwind H e q2 w2
                           | (Inr q2, _, w2) \<Rightarrow>
                               (case deref H q2 w2 of
                                  Inl e \<Rightarrow> (Inl e, w2)
                                | Inr (ob, c) \<Rightarrow> (Inr q2, store ob (c\<lparr>ready := 1\<rparr>) w2))))))"

subsection \<open>attach\<close>

text \<open>Lines 206--208.\<close>

definition attach_finish :: "'k host \<Rightarrow> binary \<Rightarrow> role \<Rightarrow> queue \<Rightarrow> 'k world \<Rightarrow> (err + queue) \<times> 'k world" where
  "attach_finish H b role q w =
     (case deref H q w of
        Inl e \<Rightarrow> (Inl e, w)
      | Inr (ob, c) \<Rightarrow>
          (case validate b (size_m (seg_m q)) c of
             Inl e \<Rightarrow> unwind H (Throws e) q w
           | Inr _ \<Rightarrow>
               (case bind H role q w of
                  (Inl e, q1, w1) \<Rightarrow> unwind H e q1 w1
                | (Inr q1, _, w1) \<Rightarrow> (Inr q1, w1))))"

text \<open>
  One pass of the loop of lines 187--204: either the outcome of the call, or the handle and world
  with which the loop goes round again after \<^verbatim>\<open>usleep\<close>.
\<close>

definition attach_pass :: "'k host \<Rightarrow> binary \<Rightarrow> string \<Rightarrow> role \<Rightarrow> nat \<Rightarrow> queue \<Rightarrow> 'k world \<Rightarrow>
    ((err + queue) \<times> 'k world) + (queue \<times> 'k world)" where
  "attach_pass H b name role deadline q w =
     (let (t, k) = steady_now H (kern w);
          lastAttempt = (t \<ge> deadline)
      in case seg_open (posix_of H) name k of
           (Inl e, k1) \<Rightarrow>
             (let w1 = w\<lparr>kern := k1\<rparr>
              in if lastAttempt then Inl (unwind H (Throws e) q w1) else Inr (q, usleep H 1000 w1))
         | (Inr s, k1) \<Rightarrow>
             (let (seg, _, k2) = seg_move_assign (posix_of H) False (seg_m q) s k1;
                  q1 = q\<lparr>seg_m := seg, ctrl_m := addr_m seg\<rparr>;
                  w1 = w\<lparr>kern := k2\<rparr>
              in case deref H q1 w1 of
                   Inl e \<Rightarrow> Inl (Inl e, w1)
                 | Inr (ob, c) \<Rightarrow>
                     if ready c = 1 then Inl (attach_finish H b role q1 w1)
                     else if lastAttempt
                     then Inl (unwind H (Throws (Runtime_error (''timed out waiting for '' @ name))) q1 w1)
                     else Inr (q1, usleep H 1000 w1)))"

partial_function (option) attach_loop :: "'k host \<Rightarrow> binary \<Rightarrow> string \<Rightarrow> role \<Rightarrow> nat \<Rightarrow> queue \<Rightarrow> 'k world \<Rightarrow>
    ((err + queue) \<times> 'k world) option" where
  "attach_loop H b name role deadline q w =
     (case attach_pass H b name role deadline q w of
        Inl res \<Rightarrow> Some res
      | Inr (q', w') \<Rightarrow> attach_loop H b name role deadline q' w')"

text \<open>The handle and world after \<open>n\<close> passes that all went round again.\<close>

primrec attach_rounds :: "'k host \<Rightarrow> binary \<Rightarrow> string \<Rightarrow> role \<Rightarrow> nat \<Rightarrow> nat \<Rightarrow> queue \<Rightarrow> 'k world \<Rightarrow> (queue \<times> 'k world) option" where
  "attach_rounds H b name role deadline 0 q w = Some (q, w)"
| "attach_rounds H b name role deadline (Suc n) q w =
     (case attach_pass H b name role deadline q w of
        Inl _ \<Rightarrow> None
      | Inr (q', w') \<Rightarrow> attach_rounds H b name role deadline n q' w')"

definition attach :: "'k host \<Rightarrow> binary \<Rightarrow> string \<Rightarrow> role \<Rightarrow> u32 \<Rightarrow> 'k world \<Rightarrow> ((err + queue) \<times> 'k world) option" where
  "attach H b name role timeoutMs w =
     (let (t, k) = steady_now H (kern w);
          deadline = t + unat timeoutMs * 1000000
      in attach_loop H b name role deadline ShmSpscQueue (w\<lparr>kern := k\<rparr>))"

subsection \<open>The peer\<close>

definition peerAlive :: "'k host \<Rightarrow> queue \<Rightarrow> 'k world \<Rightarrow> err + bool" where
  "peerAlive H q w =
     (case deref H q w of
        Inl e \<Rightarrow> Inl e
      | Inr (ob, c) \<Rightarrow>
          (let pid = peer_slot (role_m q) c
           in Inr (if pid = 0 then True else processAlive (\<lambda>p. kill0 H p (kern w)) pid)))"

definition control :: "queue \<Rightarrow> addr option" where "control q = ctrl_m q"
definition name_q :: "queue \<Rightarrow> string" where "name_q q = name_m (seg_m q)"
definition valid_q :: "queue \<Rightarrow> bool" where "valid_q q \<longleftrightarrow> ctrl_m q \<noteq> None"

partial_function (option) wait_loop :: "'k host \<Rightarrow> nat \<Rightarrow> queue \<Rightarrow> 'k world \<Rightarrow> ((err + bool) \<times> 'k world) option" where
  "wait_loop H deadline q w =
     (case deref H q w of
        Inl e \<Rightarrow> Some (Inl e, w)
      | Inr (ob, c) \<Rightarrow>
          (if 0 < sint (peer_slot (role_m q) c) then Some (Inr True, w)
           else let (t, k) = steady_now H (kern w); w1 = w\<lparr>kern := k\<rparr>
                in if t \<ge> deadline then Some (Inr False, w1)
                   else wait_loop H deadline q (usleep H 1000 w1)))"

definition waitForPeer :: "'k host \<Rightarrow> u32 \<Rightarrow> queue \<Rightarrow> 'k world \<Rightarrow> ((err + bool) \<times> 'k world) option" where
  "waitForPeer H timeoutMs q w =
     (let (t, k) = steady_now H (kern w)
      in wait_loop H (t + unat timeoutMs * 1000000) q (w\<lparr>kern := k\<rparr>))"

subsection \<open>What the host promises\<close>

text \<open>
  \<open>time\<close> is the steady clock behind \<^verbatim>\<open>now\<close>: no call turns it back and \<^verbatim>\<open>usleep\<close> sleeps at least as long
  as asked. While this process sleeps the others may create, resize and unlink objects, but not
  touch its descriptors and mappings.
\<close>

locale shm_host = posix_shm "posix_of H" view for H :: "'k host" and view :: "'k \<Rightarrow> kview" +
  fixes time :: "'k \<Rightarrow> nat"
  assumes now_law: "steady_now H k = (t, k') \<Longrightarrow> time k \<le> t \<and> t \<le> time k' \<and> view k' = view k"
    and usleep_law: "time (kern w) + 1000 * us \<le> time (kern (usleep H us w))"
    and usleep_own_law:
      "fds (view (kern (usleep H us w))) = fds (view (kern w)) \<and> maps (view (kern (usleep H us w))) = maps (view (kern w))"
    and calls_law:
      "k' \<in> {sys_shm_unlink (posix_of H) n k, snd (sys_shm_open (posix_of H) n fl md k),
             snd (sys_ftruncate (posix_of H) fd len k), snd (sys_fstat (posix_of H) fd k),
             snd (sys_mmap (posix_of H) bytes fd k), sys_munmap (posix_of H) a bytes k, sys_close (posix_of H) fd k} \<Longrightarrow>
       time k \<le> time k'"

text \<open>A handle that holds a segment holds a live mapping, and a bound one points into it.\<close>

definition handle_ok :: "kview \<Rightarrow> queue \<Rightarrow> bool" where
  "handle_ok v q \<longleftrightarrow> ctrl_m q = addr_m (seg_m q) \<and> seg_mapped v (seg_m q) \<and> (bound_m q \<longrightarrow> ctrl_m q \<noteq> None)"

text \<open>The mappings of this process other than the handle's own.\<close>

definition other_maps :: "kview \<Rightarrow> queue \<Rightarrow> addr \<rightharpoonup> oid \<times> u64" where
  "other_maps v q = (case addr_m (seg_m q) of None \<Rightarrow> maps v | Some a \<Rightarrow> (maps v)(a := None))"

text \<open>What the control blocks may have become while this process slept.\<close>

definition others_did :: "'k host \<Rightarrow> (oid \<Rightarrow> control_block) \<Rightarrow> (oid \<Rightarrow> control_block) \<Rightarrow> bool" where
  "others_did H = (\<lambda>m m'. \<exists>us w. objs w = m \<and> objs (usleep H us w) = m')\<^sup>*\<^sup>*"

text \<open>The capacity \<^verbatim>\<open>create\<close> really uses (line 152).\<close>

definition clamped :: "u64 \<Rightarrow> u64" where
  "clamped cap0 = (if cap0 < 1 then 1 else cap0)"

subsection \<open>Equations and behaviour of the parts\<close>

lemma bind_members_simps [simp]:
  "seg_m (bind_members role c q) = seg_m q" "ctrl_m (bind_members role c q) = ctrl_m q"
  "bound_m (bind_members role c q) = bound_m q" "role_m (bind_members role c q) = role"
  "capacity_m (bind_members role c q) = capacity c" "readIdxCache_m (bind_members role c q) = readIdx c"
  "writeIdxCache_m (bind_members role c q) = writeIdx c"
  "slots_m (bind_members role c q) = map_option (\<lambda>a. a + unat (slotsOffset c)) (ctrl_m q)"
  by (simp_all add: bind_members_def)

lemma claim_slot_spurious: "claim_slot alive role self n e = claim_slot alive role self 0 e"
proof (induction n)
  case (Suc n)
  then show ?case
    by (subst claim_slot.simps, subst (asm) (2) claim_slot.simps, subst (2) claim_slot.simps) simp
qed simp

lemma claim_slot_0:
  "claim_slot alive role self n e = Inr p \<longleftrightarrow>
     p = self \<and> (e = self \<or> \<not> (0 < sint e \<and> alive e))"
  by (subst claim_slot_spurious) (auto simp: claim_slot.simps)

lemma claim_slot_fresh: "claim_slot alive role self n 0 = Inr self"
  by (simp add: claim_slot_0)

lemma pid_slot_set [simp]:
  "pid_slot r (set_pid_slot r p c) = p" "peer_slot r (set_pid_slot r p c) = peer_slot r c"
  "writeIdx (set_pid_slot r p c) = writeIdx c" "readIdx (set_pid_slot r p c) = readIdx c"
  "capacity (set_pid_slot r p c) = capacity c" "ready (set_pid_slot r p c) = ready c"
  by (simp_all add: pid_slot_def set_pid_slot_def peer_slot_def split: role.splits)

lemma validate_set_pid [simp]: "validate b sz (set_pid_slot r p c) = validate b sz c"
  "validate b sz (c\<lparr>ready := x\<rparr>) = validate b sz c"
  by (cases c; cases r; simp only: validate_def set_pid_slot_def role.case control_block.simps)+

lemma set_pid_slot_same: "set_pid_slot r (pid_slot r c) c = c"
  by (simp add: set_pid_slot_def pid_slot_def split: role.splits)

lemma validate_ok_iff:
  "validate b sz c = Inr () \<longleftrightarrow>
     magic c = kMagic \<and> version c = kVersion \<and> unat (cacheLineSize c) = kCacheLine b \<and>
     ucast (elemSize c) = sizeof_T b \<and> ucast (elemAlign c) = alignof_T b \<and>
     ucast (slotsOffset c) + capacity c * sizeof_T b \<le> totalBytes c \<and> totalBytes c \<le> sz"
  by (auto simp: validate_def Let_def not_less)

lemma swapWith_eq [simp]: "swapWith q p = (p, q)"
  by (simp add: swapWith_def)

lemma queue_move_eq [simp]: "queue_move q = (q, ShmSpscQueue)"
  by (simp add: queue_move_def)

context shm_host
begin

abbreviation "V w \<equiv> view (kern w)"

lemma reaches_iff:
  "reaches H q w = Some ob \<longleftrightarrow> (\<exists>a n. ctrl_m q = Some a \<and> maps (V w) a = Some (ob, n))"
  by (auto simp: reaches_def backing_law split: option.splits)

lemma deref_iff:
  "deref H q w = Inr (ob, c) \<longleftrightarrow> (\<exists>a n. ctrl_m q = Some a \<and> maps (V w) a = Some (ob, n)) \<and> c = objs w ob"
proof (cases "reaches H q w")
  case None
  then show ?thesis using reaches_iff [of q w ob] by (auto simp: deref_def)
next
  case (Some ob')
  then show ?thesis using reaches_iff [of q w ob'] by (auto simp: deref_def)
qed

lemma deref_handle:
  assumes "handle_ok (V w) q" "ctrl_m q \<noteq> None"
  obtains ob where "deref H q w = Inr (ob, objs w ob)" "reaches H q w = Some ob"
proof -
  obtain a where a: "ctrl_m q = Some a" using assms(2) by blast
  then obtain ob where "maps (V w) a = Some (ob, size_m (seg_m q))"
    using assms(1) by (auto simp: handle_ok_def seg_mapped_def split: option.splits)
  then show ?thesis using that a by (auto simp: deref_iff reaches_iff)
qed

text \<open>\<^verbatim>\<open>detach\<close> of a well-formed handle never faults.\<close>

lemma detach_ok:
  assumes "handle_ok (V w) q"
  shows "\<exists>w'. detach H q w = (Inr (q\<lparr>ctrl_m := None, slots_m := None, bound_m := False, seg_m := ShmSegment\<rparr>), w') \<and>
     kern w' = snd (seg_reset (posix_of H) (seg_m q) (kern w)) \<and>
     objs w' = (if bound_m q
       then (let ob = the (reaches H q w); c = objs w ob
             in if pid_slot (role_m q) c = getpid H then (objs w)(ob := set_pid_slot (role_m q) (- 1) c) else objs w)
       else objs w)"
proof (cases "ctrl_m q \<noteq> None \<and> bound_m q")
  case True
  then obtain ob where d: "deref H q w = Inr (ob, objs w ob)" "reaches H q w = Some ob"
    using deref_handle [OF assms] by blast
  obtain k where k: "seg_reset (posix_of H) (seg_m q) (kern w) = (ShmSegment, k)"
    using seg_reset_empty [of "posix_of H" "seg_m q" "kern w"] by (metis prod.collapse)
  show ?thesis
    using True d k by (auto simp: detach_def Let_def store_def)
next
  case False
  then have "\<not> bound_m q" using assms by (auto simp: handle_ok_def)
  moreover obtain k where "seg_reset (posix_of H) (seg_m q) (kern w) = (ShmSegment, k)"
    using seg_reset_empty [of "posix_of H" "seg_m q" "kern w"] by (metis prod.collapse)
  ultimately show ?thesis by (auto simp: detach_def Let_def)
qed

text \<open>Unwinding a handle that is not bound gives its mapping back and writes no memory.\<close>

lemma unwind_ok:
  assumes "handle_ok (V w) q" "\<not> bound_m q"
  shows "\<exists>w'. unwind H (Throws e) q w = (Inl (Throws e), w') \<and> objs w' = objs w \<and>
     kern w' = snd (seg_reset (posix_of H) (seg_m q) (kern w))"
  using detach_ok [OF assms(1)] assms(2) by (auto simp: unwind_def)

lemma unwind_empty: "unwind H (Throws e) ShmSpscQueue w = (Inl (Throws e), w)"
  using unwind_ok [of w ShmSpscQueue e]
  by (auto simp: handle_ok_def seg_mapped_def ShmSpscQueue_def ShmSegment_def [symmetric])
    (auto simp: ShmSegment_def unwind_def detach_def seg_reset_def)

lemma bind_cases:
  fixes role :: role
  assumes d: "deref H q w = Inr (ob, c)"
  defines "q1 \<equiv> bind_members role c q"
  obtains (claimed) "bind H role q w = (Inr (q1\<lparr>bound_m := True\<rparr>), q1\<lparr>bound_m := True\<rparr>, store ob (set_pid_slot role (getpid H) c) w)"
      "pid_slot role c = getpid H \<or> \<not> (0 < sint (pid_slot role c) \<and> processAlive (\<lambda>p. kill0 H p (kern w)) (pid_slot role c))"
  | (refused) x where "bind H role q w = (Inl (Throws x), q1, w)" "pid_slot role c \<noteq> getpid H"
      "0 < sint (pid_slot role c)" "processAlive (\<lambda>p. kill0 H p (kern w)) (pid_slot role c)"
proof (cases "claim_slot (processAlive (\<lambda>p. kill0 H p (kern w))) role (getpid H) (spurious H) (pid_slot role c)")
  case (Inl x)
  then have "\<not> claim_slot (processAlive (\<lambda>p. kill0 H p (kern w))) role (getpid H) (spurious H) (pid_slot role c) = Inr (getpid H)"
    by simp
  then show ?thesis using refused Inl d unfolding claim_slot_0 by (auto simp: bind_def q1_def Let_def)
next
  case (Inr p)
  have "p = getpid H" "pid_slot role c = getpid H \<or>
      \<not> (0 < sint (pid_slot role c) \<and> processAlive (\<lambda>p. kill0 H p (kern w)) (pid_slot role c))"
    using iffD1 [OF claim_slot_0 Inr] by auto
  moreover have "bind H role q w = (Inr (q1\<lparr>bound_m := True\<rparr>), q1\<lparr>bound_m := True\<rparr>, store ob (set_pid_slot role p c) w)"
    using d Inr by (simp add: bind_def q1_def Let_def)
  ultimately show ?thesis using claimed by blast
qed

end

context shm_host
begin

lemma create_ok:
  assumes run: "create H b name cap0 role w = (Inr q, w')"
  obtains ob a bytes where "bytesNeeded b (clamped cap0) = Inr bytes" "0 \<le> sint bytes"
    "ob \<notin> known (V w)" "maps (V w) a = None"
    "seg_m q = \<lparr>addr_m = Some a, size_m = bytes, owner_m = True, name_m = name\<rparr>"
    "ctrl_m q = Some a" "capacity_m q = clamped cap0 + 1" "role_m q = role" "bound_m q"
    "readIdxCache_m q = 0" "writeIdxCache_m q = 0"
    "slots_m q = Some (a + unat (ucast (sizeof_ControlBlock b) :: u32))"
    "V w' = (V w)\<lparr>links := (links (V w))(c_str name \<mapsto> ob), osize := (osize (V w))(ob := sint bytes),
               known := insert ob (known (V w)), owned := insert ob (owned (V w)),
               maps := (maps (V w))(a \<mapsto> (ob, bytes))\<rparr>"
    "objs w' = (objs w)(ob := (set_pid_slot role (getpid H) (created_block b (clamped cap0 + 1) bytes))\<lparr>ready := 1\<rparr>)"
proof -
  have not_unwind: "unwind H e q1 v \<noteq> (Inr q, v')" for e q1 v v'
    by (auto simp: unwind_def split: err.splits prod.splits sum.splits)
  from run obtain bytes s k where bn: "bytesNeeded b (clamped cap0) = Inr bytes"
    and sc: "seg_create (posix_of H) name bytes (kern w) = (Inr s, k)"
    by (auto simp: create_def Let_def clamped_def not_unwind split: sum.splits prod.splits)
  from seg_create_ok [OF sc] obtain ob a where
    s: "s = \<lparr>addr_m = Some a, size_m = bytes, owner_m = True, name_m = name\<rparr>" and nn: "0 \<le> sint bytes"
    and fresh: "ob \<notin> known (V w)" "maps (V w) a = None"
    and v: "view k = (V w)\<lparr>links := (links (V w))(c_str name \<mapsto> ob), osize := (osize (V w))(ob := sint bytes),
               known := insert ob (known (V w)), owned := insert ob (owned (V w)),
               maps := (maps (V w))(a \<mapsto> (ob, bytes))\<rparr>" by metis
  define q1 where "q1 = ShmSpscQueue\<lparr>seg_m := s, ctrl_m := Some a\<rparr>"
  define c where "c = created_block b (clamped cap0 + 1) bytes"
  define w1 where "w1 = store ob c (w\<lparr>kern := k\<rparr>)"
  have asg: "seg_move_assign (posix_of H) False (seg_m ShmSpscQueue) s k = (s, ShmSegment, k)"
    by (simp add: seg_move_assign_eq ShmSpscQueue_def)
  have d: "deref H q1 (w\<lparr>kern := k\<rparr>) = Inr (ob, objs w ob)" "deref H q1 w1 = Inr (ob, c)"
    by (auto simp: deref_iff q1_def v w1_def store_def)
  have rest: "create H b name cap0 role w =
      (case bind H role q1 w1 of
         (Inl e, q2, w2) \<Rightarrow> unwind H e q2 w2
       | (Inr q2, _, w2) \<Rightarrow> (case deref H q2 w2 of Inl e \<Rightarrow> (Inl e, w2) | Inr (ob, c) \<Rightarrow> (Inr q2, store ob (c\<lparr>ready := 1\<rparr>) w2)))"
    unfolding create_def Let_def clamped_def [symmetric]
    using bn sc asg d by (simp add: s q1_def [unfolded s] w1_def c_def)
  show ?thesis
  proof (rule bind_cases [OF d(2), of role])
    fix x q2 assume "bind H role q1 w1 = (Inl (Throws x), q2, w1)"
    then show ?thesis using run rest not_unwind by simp
  next
    assume p: "pid_slot role c = getpid H \<or>
        \<not> (0 < sint (pid_slot role c) \<and> processAlive (\<lambda>p. kill0 H p (kern w1)) (pid_slot role c))"
      and bd: "bind H role q1 w1 = (Inr ((bind_members role c q1)\<lparr>bound_m := True\<rparr>), (bind_members role c q1)\<lparr>bound_m := True\<rparr>, store ob (set_pid_slot role (getpid H) c) w1)"
    define q2 where "q2 = (bind_members role c q1)\<lparr>bound_m := True\<rparr>"
    have d2: "deref H q2 (store ob (set_pid_slot role (getpid H) c) w1) = Inr (ob, set_pid_slot role (getpid H) c)"
      by (auto simp: deref_iff q2_def q1_def w1_def store_def v)
    have "q = q2 \<and> w' = store ob ((set_pid_slot role (getpid H) c)\<lparr>ready := 1\<rparr>) (store ob (set_pid_slot role (getpid H) c) w1)"
      using run rest bd d2 by (simp add: q2_def)
    then show ?thesis
      using that [OF bn nn fresh] by (simp add: q2_def q1_def s c_def created_block_def w1_def store_def v ShmSpscQueue_def)
  qed
qed

text \<open>\<^verbatim>\<open>create\<close> has three outcomes; once the segment exists it cannot fail any more.\<close>

lemma create_cases:
  obtains (size) x where "bytesNeeded b (clamped cap0) = Inl x" "create H b name cap0 role w = (Inl (Throws x), w)"
  | (segment) bytes x k where "bytesNeeded b (clamped cap0) = Inr bytes"
      "seg_create (posix_of H) name bytes (kern w) = (Inl x, k)" "create H b name cap0 role w = (Inl (Throws x), w\<lparr>kern := k\<rparr>)"
  | (created) q w' where "create H b name cap0 role w = (Inr q, w')"
proof (cases "bytesNeeded b (clamped cap0)")
  case (Inl x)
  then have "create H b name cap0 role w = (Inl (Throws x), w)"
    unfolding create_def Let_def clamped_def [symmetric] by (simp add: unwind_empty)
  then show ?thesis using size Inl by blast
next
  case bn: (Inr bytes)
  obtain r k where sc: "seg_create (posix_of H) name bytes (kern w) = (r, k)" by force
  show ?thesis
  proof (cases r)
    case (Inl x)
    then have "create H b name cap0 role w = (Inl (Throws x), w\<lparr>kern := k\<rparr>)"
      unfolding create_def Let_def clamped_def [symmetric] using bn sc by (simp add: unwind_empty)
    then show ?thesis using segment bn sc Inl by blast
  next
    case (Inr s)
    from seg_create_ok [OF sc [unfolded Inr]] obtain ob a where
      s: "s = \<lparr>addr_m = Some a, size_m = bytes, owner_m = True, name_m = name\<rparr>" and
      v: "maps (view k) a = Some (ob, bytes)" by (metis (no_types, lifting) fun_upd_same kview.select_convs(6) kview.surjective kview.update_convs(6))
    define q1 where "q1 = ShmSpscQueue\<lparr>seg_m := s, ctrl_m := Some a\<rparr>"
    define c where "c = created_block b (clamped cap0 + 1) bytes"
    define w1 where "w1 = store ob c (w\<lparr>kern := k\<rparr>)"
    have d: "deref H q1 (w\<lparr>kern := k\<rparr>) = Inr (ob, objs w ob)" "deref H q1 w1 = Inr (ob, c)"
      by (auto simp: deref_iff q1_def v w1_def store_def)
    have z: "pid_slot role c = 0" by (cases role) (simp_all add: c_def created_block_def pid_slot_def)
    show ?thesis
    proof (rule bind_cases [OF d(2), of role])
      assume "0 < sint (pid_slot role c)"
      then show ?thesis by (simp add: z)
    next
      assume bd: "bind H role q1 w1 = (Inr ((bind_members role c q1)\<lparr>bound_m := True\<rparr>), (bind_members role c q1)\<lparr>bound_m := True\<rparr>, store ob (set_pid_slot role (getpid H) c) w1)"
      define q2 where "q2 = (bind_members role c q1)\<lparr>bound_m := True\<rparr>"
      define w2 where "w2 = store ob (set_pid_slot role (getpid H) c) w1"
      have "deref H q2 w2 = Inr (ob, set_pid_slot role (getpid H) c)"
        by (auto simp: deref_iff q2_def q1_def w1_def w2_def store_def v)
      moreover have "bind H role q1 w1 = (Inr q2, q2, w2)" using bd by (simp add: q2_def w2_def)
      ultimately have "create H b name cap0 role w = (Inr q2, store ob ((set_pid_slot role (getpid H) c)\<lparr>ready := 1\<rparr>) w2)"
        unfolding create_def Let_def clamped_def [symmetric]
        using bn sc Inr d by (simp add: s q1_def [unfolded s] w1_def c_def seg_move_assign_eq ShmSpscQueue_def)
      then show ?thesis by (rule created)
    qed
  qed
qed

end

text \<open>One pass of the attach loop, for a handle that is not bound and owns nothing.\<close>

definition attaching :: "kview \<Rightarrow> queue \<Rightarrow> bool" where
  "attaching v q \<longleftrightarrow> handle_ok v q \<and> \<not> bound_m q \<and> \<not> owner_m (seg_m q)"

text \<open>Outcomes of \<^verbatim>\<open>attach\<close>: refused with memory untouched and only the mappings \<open>M\<close> held, or attached to what the name is linked to, with one mapping beside \<open>M\<close>.\<close>

definition refused :: "('k \<Rightarrow> kview) \<Rightarrow> (addr \<rightharpoonup> oid \<times> u64) \<Rightarrow> 'k world \<Rightarrow> (err + queue) \<times> 'k world \<Rightarrow> bool" where
  "refused view M w = (\<lambda>(r, w'). (\<exists>x. r = Inl (Throws x)) \<and> objs w' = objs w \<and> fds (view (kern w')) = fds (view (kern w)) \<and> maps (view (kern w')) = M)"

definition attached :: "'k host \<Rightarrow> ('k \<Rightarrow> kview) \<Rightarrow> (addr \<rightharpoonup> oid \<times> u64) \<Rightarrow> binary \<Rightarrow> string \<Rightarrow> role \<Rightarrow> 'k world \<Rightarrow> (err + queue) \<times> 'k world \<Rightarrow> bool" where
  "attached H view M b name role w = (\<lambda>(r, w'). \<exists>q ob c. r = Inr q \<and> links (view (kern w)) (c_str name) = Some ob \<and> c = objs w ob \<and>
     reaches H q w' = Some ob \<and> handle_ok (view (kern w')) q \<and> bound_m q \<and> ready c = 1 \<and>
     validate b (size_m (seg_m q)) c = Inr () \<and>
     objs w' = (objs w)(ob := set_pid_slot role (getpid H) c) \<and> role_m q = role \<and> capacity_m q = capacity c \<and>
     readIdxCache_m q = readIdx c \<and> writeIdxCache_m q = writeIdx c \<and> \<not> owner_m (seg_m q) \<and>
     fds (view (kern w')) = fds (view (kern w)) \<and> other_maps (view (kern w')) q = M \<and>
     (pid_slot role c = getpid H \<or>
      \<not> (0 < sint (pid_slot role c) \<and> processAlive (\<lambda>p. kill0 H p (kern w')) (pid_slot role c))))"

text \<open>The name is linked to a complete object, which is unfit for this binary or whose slot a live process holds.\<close>

definition turned_away :: "'k host \<Rightarrow> ('k \<Rightarrow> kview) \<Rightarrow> binary \<Rightarrow> string \<Rightarrow> role \<Rightarrow> 'k world \<Rightarrow> bool" where
  "turned_away H view b name role w \<longleftrightarrow> (\<exists>ob c. links (view (kern w)) (c_str name) = Some ob \<and> c = objs w ob \<and> ready c = 1 \<and>
     (validate b (word_of_int (osize (view (kern w)) ob)) c \<noteq> Inr () \<or>
      pid_slot role c \<noteq> getpid H \<and> 0 < sint (pid_slot role c) \<and> (\<exists>k. processAlive (\<lambda>p. kill0 H p k) (pid_slot role c))))"

lemma maps_cong:
  "maps v' = maps v \<Longrightarrow> attaching v' q = attaching v q" "maps v' = maps v \<Longrightarrow> other_maps v' q = other_maps v q"
  by (cases "addr_m (seg_m q)"; simp add: attaching_def handle_ok_def seg_mapped_def other_maps_def)+

context shm_host
begin

lemma calls_time:
  "time k \<le> time (sys_shm_unlink (posix_of H) n k)" "time k \<le> time (sys_munmap (posix_of H) a bytes k)"
  "time k \<le> time (sys_close (posix_of H) fd k)"
  "sys_shm_open (posix_of H) n fl md k = (r1, k') \<Longrightarrow> time k \<le> time k'"
  "sys_fstat (posix_of H) fd k = (r2, k') \<Longrightarrow> time k \<le> time k'"
  "sys_mmap (posix_of H) bytes fd k = (r3, k') \<Longrightarrow> time k \<le> time k'"
  using calls_law [of _ n k fl md fd _ bytes a] by (auto dest: arg_cong [of _ _ snd])

lemma reset_time: "time k \<le> time (snd (seg_reset (posix_of H) s k))"
  by (auto simp: seg_reset_def Let_def split: option.splits intro: calls_time order_trans)

lemma mapAndClose_time: "mapAndClose (posix_of H) fd name bytes owner k = (r, k') \<Longrightarrow> time k \<le> time k'"
  by (auto simp: mapAndClose_def Let_def split: prod.splits sum.splits if_splits dest!: calls_time(6)
      intro: calls_time order_trans) (meson calls_time(1,3) order_trans)

lemma open_time: "seg_open (posix_of H) name k = (r, k') \<Longrightarrow> time k \<le> time k'"
  by (auto simp: seg_open_def Let_def split: prod.splits sum.splits if_splits
      dest!: calls_time(4,5) mapAndClose_time intro: calls_time order_trans)

lemma reset_other_maps:
  assumes "attaching (V w) q" "k = snd (seg_reset (posix_of H) (seg_m q) (kern w))"
  shows "maps (view k) = other_maps (V w) q" "fds (view k) = fds (V w)" "links (view k) = links (V w)"
  using seg_reset_view [of "kern w" "seg_m q"] assms
  by (auto simp: attaching_def handle_ok_def other_maps_def)

text \<open>Replacing the handle's segment by a freshly opened one.\<close>

lemma reopen:
  assumes q: "attaching (V w) q" and op: "seg_open (posix_of H) name (kern w) = (Inr s, k1)"
    and q1: "q1 = q\<lparr>seg_m := s, ctrl_m := addr_m s\<rparr>" and w1: "w1 = w\<lparr>kern := snd (seg_reset (posix_of H) (seg_m q) k1)\<rparr>"
  obtains ob where "attaching (V w1) q1" "other_maps (V w1) q1 = other_maps (V w) q" "fds (V w1) = fds (V w)"
    "links (V w) (c_str name) = Some ob" "deref H q1 w1 = Inr (ob, objs w ob)" "time (kern w) \<le> time (kern w1)"
    "objs w1 = objs w"
proof -
  from seg_open_ok [OF op] obtain ob a where
    s: "s = \<lparr>addr_m = Some a, size_m = word_of_int (osize (V w) ob), owner_m = False, name_m = name\<rparr>"
    and l: "links (V w) (c_str name) = Some ob" and a: "maps (V w) a = None"
    and v: "view k1 = (V w)\<lparr>maps := (maps (V w))(a \<mapsto> (ob, word_of_int (osize (V w) ob)))\<rparr>" by metis
  have ne: "addr_m (seg_m q) \<noteq> Some a"
    using q a by (auto simp: attaching_def handle_ok_def seg_mapped_def)
  have q': "attaching (V (w\<lparr>kern := k1\<rparr>)) q"
    using q ne by (auto simp: attaching_def handle_ok_def seg_mapped_def v split: option.splits)
  have "V w1 = view (snd (seg_reset (posix_of H) (seg_m q) k1))" by (simp add: w1)
  then have m: "maps (V w1) = other_maps (view k1) q" "fds (V w1) = fds (V w)"
    using reset_other_maps [OF q', of "kern w1"] by (simp_all add: w1 v)
  have m1: "maps (V w1) a = Some (ob, word_of_int (osize (V w) ob))"
    using ne by (auto simp: m other_maps_def v split: option.splits)
  have "other_maps (V w1) q1 = other_maps (V w) q"
    using ne a by (auto simp: other_maps_def q1 s m v fun_eq_iff split: option.splits)
  moreover have "attaching (V w1) q1"
    using q m1 by (auto simp: attaching_def handle_ok_def seg_mapped_def q1 s)
  moreover have "deref H q1 w1 = Inr (ob, objs w ob)"
    using m1 by (simp add: deref_iff q1 s w1)
  moreover have "time (kern w) \<le> time (kern w1)"
    using open_time [OF op] reset_time [of k1 "seg_m q"] by (simp add: w1)
  ultimately show ?thesis using that l m(2) by (simp add: w1)
qed

lemma attach_finish_cases:
  assumes q: "attaching (V w) q" and d: "deref H q w = Inr (ob, c)"
  obtains (refused) x w' where "attach_finish H b role q w = (Inl (Throws x), w')" "objs w' = objs w"
      "fds (V w') = fds (V w)" "maps (V w') = other_maps (V w) q"
  | (attached) w' where
      "attach_finish H b role q w = (Inr ((bind_members role c q)\<lparr>bound_m := True\<rparr>), w')"
      "validate b (size_m (seg_m q)) c = Inr ()" "objs w' = (objs w)(ob := set_pid_slot role (getpid H) c)"
      "kern w' = kern w"
      "pid_slot role c = getpid H \<or>
       \<not> (0 < sint (pid_slot role c) \<and> processAlive (\<lambda>p. kill0 H p (kern w)) (pid_slot role c))"
proof -
  have un: "\<exists>w'. unwind H (Throws x) q2 w = (Inl (Throws x), w') \<and> objs w' = objs w \<and>
      fds (V w') = fds (V w) \<and> maps (V w') = other_maps (V w) q"
    if q2: "seg_m q2 = seg_m q" "ctrl_m q2 = ctrl_m q" "bound_m q2 = bound_m q" for q2 x
  proof -
    have q2': "attaching (V w) q2" "other_maps (V w) q2 = other_maps (V w) q"
      using q q2 by (simp_all add: attaching_def handle_ok_def other_maps_def)
    from unwind_ok [of w q2 x] q2'(1) obtain w' where
      "unwind H (Throws x) q2 w = (Inl (Throws x), w')" "objs w' = objs w"
      "kern w' = snd (seg_reset (posix_of H) (seg_m q2) (kern w))" by (auto simp: attaching_def)
    then show ?thesis using reset_other_maps [OF q2'(1)] q2'(2) by auto
  qed
  show ?thesis
  proof (cases "validate b (size_m (seg_m q)) c")
    case (Inl x)
    then show ?thesis using un [of q x] refused d by (auto simp: attach_finish_def)
  next
    case (Inr u)
    show ?thesis
    proof (rule bind_cases [OF d, of role])
      fix x assume "bind H role q w = (Inl (Throws x), bind_members role c q, w)"
      then show ?thesis
        using un [of "bind_members role c q" x] refused d Inr by (auto simp: attach_finish_def)
    next
      assume "bind H role q w = (Inr ((bind_members role c q)\<lparr>bound_m := True\<rparr>), (bind_members role c q)\<lparr>bound_m := True\<rparr>, store ob (set_pid_slot role (getpid H) c) w)"
        "pid_slot role c = getpid H \<or>
         \<not> (0 < sint (pid_slot role c) \<and> processAlive (\<lambda>p. kill0 H p (kern w)) (pid_slot role c))"
      then show ?thesis
        using attached [of "store ob (set_pid_slot role (getpid H) c) w"] d Inr
        by (simp add: attach_finish_def store_def)
    qed
  qed
qed

end

context shm_host
begin

text \<open>A pass that goes round again has slept, before the deadline, and holds no more than it held.\<close>

lemma attach_pass_again:
  assumes q: "attaching (V w) q" and pass: "attach_pass H b name role deadline q w = Inr (q', w')"
  shows "attaching (V w') q'" "other_maps (V w') q' = other_maps (V w) q" "fds (V w') = fds (V w)"
    "time (kern w) < deadline" "time (kern w) + 1000000 \<le> time (kern w')" "others_did H (objs w) (objs w')"
proof -
  obtain t k where now: "steady_now H (kern w) = (t, k)" by force
  note n = now_law [OF now]
  define w0 where "w0 = w\<lparr>kern := k\<rparr>"
  have q0: "attaching (V w0) q" "V w0 = V w" using q n by (simp_all add: w0_def)
  have early: "\<not> deadline \<le> t"
    using pass now by (auto simp: attach_pass_def Let_def split: prod.splits sum.splits if_splits)
  obtain r k1 where op: "seg_open (posix_of H) name (kern w0) = (r, k1)" by force
  have opk: "seg_open (posix_of H) name k = (r, k1)" using op by (simp add: w0_def)
  obtain w1 where slept: "w' = usleep H 1000 w1" and q1: "attaching (V w1) q'" "other_maps (V w1) q' = other_maps (V w) q"
    "fds (V w1) = fds (V w)" "time k \<le> time (kern w1)" "objs w1 = objs w"
  proof (cases r)
    case (Inl e)
    have "view k1 = V w" using seg_open_fail [OF op [unfolded Inl]] q0(2) by simp
    moreover have "q' = q" "w' = usleep H 1000 (w\<lparr>kern := k1\<rparr>)"
      using pass now opk Inl early by (simp_all add: attach_pass_def Let_def)
    ultimately show ?thesis using that [of "w\<lparr>kern := k1\<rparr>"] q open_time [OF opk] by simp
  next
    case (Inr s)
    define w1 where "w1 = w0\<lparr>kern := snd (seg_reset (posix_of H) (seg_m q) k1)\<rparr>"
    define q2 where "q2 = q\<lparr>seg_m := s, ctrl_m := addr_m s\<rparr>"
    from reopen [OF q0(1) op [unfolded Inr] q2_def w1_def] obtain ob where
      r: "attaching (V w1) q2" "other_maps (V w1) q2 = other_maps (V w0) q" "fds (V w1) = fds (V w0)"
        "deref H q2 w1 = Inr (ob, objs w0 ob)" "time (kern w0) \<le> time (kern w1)" "objs w1 = objs w0" by blast
    have "q' = q2 \<and> w' = usleep H 1000 w1"
      using pass now opk Inr early r(4)
      by (auto simp: attach_pass_def Let_def seg_move_assign_eq q2_def w1_def w0_def split: if_splits)
    then show ?thesis using that [of w1] r q0(2) by (simp add: w0_def)
  qed
  note u = usleep_own_law [of 1000 w1] usleep_law [of w1 1000]
  show "attaching (V w') q'" "other_maps (V w') q' = other_maps (V w) q" "fds (V w') = fds (V w)"
    using q1 u maps_cong [of "V w'" "V w1" q'] by (simp_all add: slept)
  show "time (kern w) < deadline" using n early by simp
  show "time (kern w) + 1000000 \<le> time (kern w')" using n q1(4) u(2) by (simp add: slept)
  show "others_did H (objs w) (objs w')"
    unfolding others_did_def using q1(5) slept by (intro r_into_rtranclp) metis
qed

lemma attach_pass_end:
  assumes q: "attaching (V w) q" and pass: "attach_pass H b name role deadline q w = Inl res"
  shows "refused view (other_maps (V w) q) w res \<or> attached H view (other_maps (V w) q) b name role w res"
proof -
  obtain t k where now: "steady_now H (kern w) = (t, k)" by force
  define w0 where "w0 = w\<lparr>kern := k\<rparr>"
  have q0: "attaching (V w0) q" "V w0 = V w" "objs w0 = objs w" using q now_law [OF now] by (simp_all add: w0_def)
  obtain r k1 where op: "seg_open (posix_of H) name (kern w0) = (r, k1)" by force
  have opk: "seg_open (posix_of H) name k = (r, k1)" using op by (simp add: w0_def)
  have un: "refused view (other_maps (V w) q) w (unwind H (Throws x) q1 w1)"
    if "attaching (V w1) q1" "other_maps (V w1) q1 = other_maps (V w) q" "fds (V w1) = fds (V w)" "objs w1 = objs w" for x q1 w1
  proof -
    from unwind_ok [of w1 q1 x] that(1) obtain w' where
      "unwind H (Throws x) q1 w1 = (Inl (Throws x), w')" "objs w' = objs w1"
      "kern w' = snd (seg_reset (posix_of H) (seg_m q1) (kern w1))" by (auto simp: attaching_def)
    then show ?thesis using reset_other_maps [OF that(1)] that by (simp add: refused_def)
  qed
  show ?thesis
  proof (cases r)
    case (Inl e)
    have v1: "view k1 = V w" using seg_open_fail [OF op [unfolded Inl]] q0(2) by simp
    have "res = unwind H (Throws e) q (w\<lparr>kern := k1\<rparr>)"
      using pass now opk Inl by (auto simp: attach_pass_def Let_def split: if_splits)
    then show ?thesis using un [of "w\<lparr>kern := k1\<rparr>" q e] q v1 by simp
  next
    case (Inr s)
    define w1 where "w1 = w0\<lparr>kern := snd (seg_reset (posix_of H) (seg_m q) k1)\<rparr>"
    define q2 where "q2 = q\<lparr>seg_m := s, ctrl_m := addr_m s\<rparr>"
    from reopen [OF q0(1) op [unfolded Inr] q2_def w1_def] obtain ob where
      r: "attaching (V w1) q2" "other_maps (V w1) q2 = other_maps (V w) q" "fds (V w1) = fds (V w)"
        "links (V w) (c_str name) = Some ob" "deref H q2 w1 = Inr (ob, objs w ob)" "objs w1 = objs w"
      unfolding q0(2,3) by blast
    have res: "res = (if ready (objs w ob) = 1 then attach_finish H b role q2 w1
        else unwind H (Throws (Runtime_error (''timed out waiting for '' @ name))) q2 w1)"
      using pass now opk Inr r(5)
      by (auto simp: attach_pass_def Let_def seg_move_assign_eq q2_def w1_def w0_def split: if_splits)
    show ?thesis
    proof (cases "ready (objs w ob) = 1")
      case False
      then show ?thesis using un [OF r(1-3,6)] res by simp
    next
      case True
      show ?thesis
      proof (rule attach_finish_cases [OF r(1) r(5), of b role])
        fix x w' assume "attach_finish H b role q2 w1 = (Inl (Throws x), w')" "objs w' = objs w1"
          "fds (V w') = fds (V w1)" "maps (V w') = other_maps (V w1) q2"
        then show ?thesis using True res r by (simp add: refused_def)
      next
        fix w' assume f: "attach_finish H b role q2 w1 = (Inr ((bind_members role (objs w ob) q2)\<lparr>bound_m := True\<rparr>), w')"
          "validate b (size_m (seg_m q2)) (objs w ob) = Inr ()" "objs w' = (objs w1)(ob := set_pid_slot role (getpid H) (objs w ob))"
          "kern w' = kern w1" "pid_slot role (objs w ob) = getpid H \<or>
            \<not> (0 < sint (pid_slot role (objs w ob)) \<and> processAlive (\<lambda>p. kill0 H p (kern w1)) (pid_slot role (objs w ob)))"
        have "\<exists>a n. ctrl_m q2 = Some a \<and> maps (V w1) a = Some (ob, n)" using r(5) by (simp add: deref_iff)
        then have "attached H view (other_maps (V w) q) b name role w (attach_finish H b role q2 w1)"
          using f r True by (auto simp: attached_def reaches_iff attaching_def handle_ok_def other_maps_def)
        then show ?thesis using True res by simp
      qed
    qed
  qed
qed

text \<open>A pass that throws does so at the deadline, or because of a complete object that cannot be used.\<close>

lemma unwind_time:
  "attaching (V w) q \<Longrightarrow> unwind H (Throws x) q w = (r, w') \<Longrightarrow> time (kern w) \<le> time (kern w')"
  using unwind_ok [of w q x] reset_time [of "kern w" "seg_m q"] by (auto simp: attaching_def)

lemma attach_finish_refusal:
  assumes "attach_finish H b role q w = (Inl e, w')" and d: "deref H q w = Inr (ob, c)"
  shows "validate b (size_m (seg_m q)) c \<noteq> Inr () \<or>
    pid_slot role c \<noteq> getpid H \<and> 0 < sint (pid_slot role c) \<and> (\<exists>k. processAlive (\<lambda>p. kill0 H p k) (pid_slot role c))"
proof (cases "validate b (size_m (seg_m q)) c")
  case (Inr u)
  show ?thesis
    by (rule bind_cases [OF d, of role]) (use assms Inr in \<open>auto simp: attach_finish_def\<close>)
qed simp

lemma attach_pass_refusal:
  assumes q: "attaching (V w) q" and pass: "attach_pass H b name role deadline q w = Inl (Inl e, w')"
  shows "deadline \<le> time (kern w') \<or> turned_away H view b name role w"
proof -
  obtain t k where now: "steady_now H (kern w) = (t, k)" by force
  note n = now_law [OF now]
  define w0 where "w0 = w\<lparr>kern := k\<rparr>"
  have q0: "attaching (V w0) q" "V w0 = V w" "objs w0 = objs w" using q n by (simp_all add: w0_def)
  obtain r k1 where op: "seg_open (posix_of H) name (kern w0) = (r, k1)" by force
  have opk: "seg_open (posix_of H) name k = (r, k1)" using op by (simp add: w0_def)
  show ?thesis
  proof (cases r)
    case (Inl x)
    have "view k1 = V w" using seg_open_fail [OF op [unfolded Inl]] q0(2) by simp
    moreover have "unwind H (Throws x) q (w\<lparr>kern := k1\<rparr>) = (Inl e, w')" "deadline \<le> t"
      using pass now opk Inl by (auto simp: attach_pass_def Let_def split: if_splits)
    ultimately show ?thesis using unwind_time [of "w\<lparr>kern := k1\<rparr>" q x] q open_time [OF opk] n by fastforce
  next
    case (Inr s)
    define w1 where "w1 = w0\<lparr>kern := snd (seg_reset (posix_of H) (seg_m q) k1)\<rparr>"
    define q2 where "q2 = q\<lparr>seg_m := s, ctrl_m := addr_m s\<rparr>"
    from reopen [OF q0(1) op [unfolded Inr] q2_def w1_def] obtain ob where
      r: "attaching (V w1) q2" "links (V w) (c_str name) = Some ob" "deref H q2 w1 = Inr (ob, objs w ob)" "time k \<le> time (kern w1)"
      unfolding q0(2,3) by (auto simp: w0_def)
    from seg_open_ok [OF op [unfolded Inr]] have sz: "size_m (seg_m q2) = word_of_int (osize (V w) ob)"
      using r(2) q0(2) by (metis option.inject q2_def queue.select_convs(1) queue.update_convs(1,2) queue.surjective shm_segment.select_convs(2))
    show ?thesis
    proof (cases "ready (objs w ob) = 1")
      case True
      then have "attach_finish H b role q2 w1 = (Inl e, w')"
        using pass now opk Inr r(3) by (simp add: attach_pass_def Let_def seg_move_assign_eq q2_def w1_def w0_def)
      from attach_finish_refusal [OF this r(3)] show ?thesis using True r(2) sz by (auto simp: turned_away_def)
    next
      case False
      then have "unwind H (Throws (Runtime_error (''timed out waiting for '' @ name))) q2 w1 = (Inl e, w')" "deadline \<le> t"
        using pass now opk Inr r(3)
        by (auto simp: attach_pass_def Let_def seg_move_assign_eq q2_def w1_def w0_def split: if_splits)
      then show ?thesis using unwind_time [OF r(1)] r(4) n by fastforce
    qed
  qed
qed

lemma attach_rounds_step:
  "attach_rounds H b name role d (Suc n) q w =
     (case attach_rounds H b name role d n q w of
        None \<Rightarrow> None
      | Some (q', w') \<Rightarrow> (case attach_pass H b name role d q' w' of Inl _ \<Rightarrow> None | Inr x \<Rightarrow> Some x))"
proof (induction n arbitrary: q w)
  case (Suc n)
  show ?case
  proof (cases "attach_pass H b name role d q w")
    case (Inr x)
    then show ?thesis using Suc.IH [of "fst x" "snd x"] by (simp add: case_prod_beta)
  qed simp
qed (auto split: sum.splits)

text \<open>No pass that goes round again began at or after the deadline.\<close>

lemma attach_rounds_early:
  assumes "attach_rounds H b name role d n q w = Some x" "i < n" "attach_rounds H b name role d i q w = Some (q', w')"
  shows "fst (steady_now H (kern w')) < d"
proof -
  have "attach_rounds H b name role d (Suc i) q w \<noteq> None" using assms(2,1)
  proof (induction n arbitrary: x)
    case (Suc n)
    then show ?case by (cases "i = n") (auto simp: attach_rounds_step [of b name role d n] simp del: attach_rounds.simps(2) split: option.splits)
  qed simp
  then obtain y where "attach_pass H b name role d q' w' = Inr y"
    using assms(3) by (auto simp: attach_rounds_step simp del: attach_rounds.simps(2) split: sum.splits)
  then show ?thesis by (auto simp: attach_pass_def Let_def not_le split: prod.splits sum.splits if_splits)
qed

text \<open>The loop ends, by its deadline, and its outcome is that of its last pass.\<close>

lemma attach_loop_ends:
  assumes "attaching (V w) q"
  shows "\<exists>n q0 w0 res. attach_loop H b name role deadline q w = Some res \<and>
     attach_rounds H b name role deadline n q w = Some (q0, w0) \<and> attach_pass H b name role deadline q0 w0 = Inl res \<and>
     (0 < n \<longrightarrow> time (kern w) + (n - 1) * 1000000 < deadline) \<and> attaching (V w0) q0 \<and> other_maps (V w0) q0 = other_maps (V w) q \<and>
     others_did H (objs w) (objs w0) \<and> fds (V w0) = fds (V w)"
  using assms
proof (induction "deadline - time (kern w)" arbitrary: q w rule: less_induct)
  case less
  show ?case
  proof (cases "attach_pass H b name role deadline q w")
    case (Inl res)
    then show ?thesis
      using less.prems by (intro exI [of _ 0] exI [of _ q] exI [of _ w] exI [of _ res]) (simp add: attach_loop.simps others_did_def)
  next
    case (Inr qw)
    obtain q' w' where qw: "qw = (q', w')" by force
    note a = attach_pass_again [OF less.prems Inr [unfolded qw]]
    have "deadline - time (kern w') < deadline - time (kern w)" using a(4,5) by linarith
    from less.hyps [OF this a(1)] obtain n q0 w0 res where
      n: "attach_loop H b name role deadline q' w' = Some res" "attach_rounds H b name role deadline n q' w' = Some (q0, w0)"
      "attach_pass H b name role deadline q0 w0 = Inl res" "0 < n \<longrightarrow> time (kern w') + (n - 1) * 1000000 < deadline"
      "attaching (V w0) q0" "other_maps (V w0) q0 = other_maps (V w') q'" "others_did H (objs w') (objs w0)" "fds (V w0) = fds (V w')"
      by blast
    have "time (kern w) + n * 1000000 < deadline" using n(4) a(4,5) by (cases n) auto
    then show ?thesis
      using a(2,3,6) n Inr qw
      by (intro exI [of _ "Suc n"] exI [of _ q0] exI [of _ w0] exI [of _ res])
        (auto simp: attach_loop.simps [of H b name role deadline q w] others_did_def)
  qed
qed

end

subsection \<open>A host that keeps the promises\<close>

text \<open>
  Over the kernel \<open>ref_posix ef\<close>, with its counter as the clock. Process \<open>self\<close> is alive, process 1
  belongs to another user (\<^verbatim>\<open>EPERM\<close>), every other process is gone; the compare-and-swap fails
  spuriously twice.
\<close>

definition ref_host :: "(kcall \<Rightarrow> errno option) \<Rightarrow> i32 \<Rightarrow> kst host" where
  "ref_host ef self =
     \<lparr>posix_of = ref_posix ef,
      kill0 = (\<lambda>p k. if p = self then None else if p = 1 then Some 1 else Some 3),
      getpid = self,
      steady_now = (\<lambda>k. (fresh k, k)),
      usleep = (\<lambda>us w. w\<lparr>kern := (kern w)\<lparr>fresh := fresh (kern w) + 1000 * us\<rparr>\<rparr>),
      spurious = 2\<rparr>"

lemma ref_fresh_mono:
  "fresh k \<le> fresh (sys_shm_unlink (ref_posix ef) n k)" "fresh k \<le> fresh (snd (sys_shm_open (ref_posix ef) n fl md k))"
  "fresh k \<le> fresh (snd (sys_ftruncate (ref_posix ef) fd len k))" "fresh k \<le> fresh (snd (sys_fstat (ref_posix ef) fd k))"
  "fresh k \<le> fresh (snd (sys_mmap (ref_posix ef) bytes fd k))" "fresh k \<le> fresh (sys_munmap (ref_posix ef) a bytes k)"
  "fresh k \<le> fresh (sys_close (ref_posix ef) fd k)"
  by (simp_all add: ref_posix_def ref_open_def Let_def split: option.splits)

interpretation refh: shm_host "ref_host ef self" kv fresh for ef self
proof -
  have p: "posix_shm (posix_of (ref_host ef self)) kv" for ef self
    using refk.posix_shm_axioms [of ef] by (simp add: ref_host_def)
  show "shm_host (ref_host ef self) kv fresh" for ef self
  proof (intro shm_host.intro p shm_host_axioms.intro, goal_cases)
    case (4 k' n k fl md fd len bytes a)
    then show ?case
      using ref_fresh_mono [of k ef] by (elim insertE emptyE; simp add: ref_host_def)
  qed (auto simp: ref_host_def)
qed

definition world_init :: "kst world" where
  "world_init = \<lparr>kern = kst_init, objs = (\<lambda>_. sample_block)\<rparr>"

subsection \<open>Properties\<close>

lemma unat_clamped: "unat (clamped c) = max 1 (unat c)"
proof (cases "c < 1")
  case True
  then have "unat c < 1" by (simp add: word_less_nat_alt)
  then show ?thesis using True by (simp add: clamped_def)
next
  case False
  then have "1 \<le> unat c" by (simp add: word_less_nat_alt)
  then show ?thesis using False by (simp add: clamped_def)
qed

lemma unat_ucast_u32: "unat (x :: u64) < 4294967296 \<Longrightarrow> unat (ucast x :: u32) = unat x"
  by (simp add: unsigned_ucast_eq take_bit_nat_eq_self)

lemma ucast_u32_u64: "unat (x :: u64) < 4294967296 \<Longrightarrow> ucast (ucast x :: u32) = x"
proof (rule unsigned_word_eqI)
  assume "unat x < 4294967296"
  then show "unat (ucast (ucast x :: u32) :: u64) = unat x"
    by (simp add: unsigned_ucast_eq unsigned_take_bit_eq take_bit_nat_eq_self)
qed

lemma created_geometry:
  assumes b: "binary_ok b" "unat (sizeof_T b) < 2 ^ 32" and bn: "bytesNeeded b (clamped cap0) = Inr bytes"
    and nn: "0 \<le> sint bytes"
  defines "N \<equiv> max 1 (unat cap0) + 1"
  shows "unat (clamped cap0 + 1) = N" "2 \<le> N" "N \<le> 2 ^ 63"
    "unat bytes = 4 * kCacheLine b + N * unat (sizeof_T b)"
    "validate b bytes (created_block b (clamped cap0 + 1) bytes) = Inr ()"
proof -
  have ub: "unat bytes = 4 * kCacheLine b + N * unat (sizeof_T b)"
    using bytesNeeded_exact [OF b(1), of "clamped cap0"] bn by (simp add: Let_def unat_clamped N_def)
  have lt: "unat bytes < 2 ^ 63" using sint_nonneg_u64 [OF nn] by simp
  have t: "0 < unat (sizeof_T b)" using b(1) by (simp add: binary_ok_def word_less_nat_alt)
  have "N * 1 \<le> N * unat (sizeof_T b)" using t by (intro mult_le_mono2) simp
  then have N: "N \<le> 2 ^ 63" using ub lt by linarith
  then have "unat (clamped cap0) + 1 < 18446744073709551616" by (simp add: unat_clamped N_def)
  then have u: "unat (clamped cap0 + 1) = N" by (simp add: unat_word_ariths unat_clamped N_def)
  have line: "kCacheLine b \<le> 65536" "unat (alignof_T b) \<le> kCacheLine b"
    using b(1) by (auto simp: binary_ok_def dest: dvd_imp_le)
  have S: "unat (sizeof_ControlBlock b) = 4 * kCacheLine b" using b(1) by (rule unat_sizeof_ControlBlock)
  have "ucast (ucast (sizeof_ControlBlock b) :: u32) + (clamped cap0 + 1) * sizeof_T b = bytes"
  proof (rule unsigned_word_eqI)
    have "unat ((clamped cap0 + 1) * sizeof_T b) = N * unat (sizeof_T b)"
      using ub lt u by (simp add: unat_word_ariths(2))
    then show "unat (ucast (ucast (sizeof_ControlBlock b) :: u32) + (clamped cap0 + 1) * sizeof_T b) = unat bytes"
      using S line ub lt by (simp add: ucast_u32_u64 unat_word_ariths(1))
  qed
  moreover have "unat (of_nat (kCacheLine b) :: u32) = kCacheLine b" using line by (simp add: unat_of_nat)
  moreover have "ucast (ucast (sizeof_T b) :: u32) = sizeof_T b" "ucast (ucast (alignof_T b) :: u32) = alignof_T b"
    using b(2) line by (simp_all add: ucast_u32_u64)
  ultimately show "validate b bytes (created_block b (clamped cap0 + 1) bytes) = Inr ()"
    by (simp add: validate_ok_iff created_block_def)
  show "unat (clamped cap0 + 1) = N" "2 \<le> N" "N \<le> 2 ^ 63" "unat bytes = 4 * kCacheLine b + N * unat (sizeof_T b)"
    using u N ub by (simp_all add: N_def)
qed

text \<open>
  C6. \<^verbatim>\<open>create\<close>, when it returns, has published a complete empty queue: the name is linked to a new
  object whose control block passes every check of \<^verbatim>\<open>validate\<close>, with both indices zero, this
  process in its own pid slot, the other slot free and \<^verbatim>\<open>ready\<close> set; the ring has one slot more than
  the capacity asked for (at least two, never more than \<open>2 ^ 63\<close>), and control block and slots fill the
  mapping exactly. No other object is touched, and the handle is bound to the new one.
\<close>

theorem create_publishes_queue:
  assumes "shm_host H view time" and "binary_ok b" and "unat (sizeof_T b) < 2 ^ 32"
    and "create H b name cap0 role w = (Inr q, w')"
  shows "let N = max 1 (unat cap0) + 1 in 2 \<le> N \<and> N \<le> 2 ^ 63 \<and> cap q = N \<and>
     unat (size_m (seg_m q)) = 4 * kCacheLine b + N * unat (sizeof_T b) \<and>
     handle_ok (view (kern w')) q \<and> bound_m q \<and> role_m q = role \<and> readIdxCache_m q = 0 \<and> writeIdxCache_m q = 0 \<and>
     (\<exists>ob c. ob \<notin> known (view (kern w)) \<and> links (view (kern w')) (c_str name) = Some ob \<and>
        reaches H q w' = Some ob \<and> objs w' = (objs w)(ob := c) \<and> validate b (size_m (seg_m q)) c = Inr () \<and>
        capacity c = capacity_m q \<and> writeIdx c = 0 \<and> readIdx c = 0 \<and> ready c = 1 \<and>
        pid_slot role c = getpid H \<and> peer_slot role c = 0)"
proof -
  from shm_host.create_ok [OF assms(1,4)] obtain ob a bytes where
    bn: "bytesNeeded b (clamped cap0) = Inr bytes" "0 \<le> sint bytes"
    and q: "seg_m q = \<lparr>addr_m = Some a, size_m = bytes, owner_m = True, name_m = name\<rparr>" "ctrl_m q = Some a"
      "capacity_m q = clamped cap0 + 1" "role_m q = role" "bound_m q" "readIdxCache_m q = 0" "writeIdxCache_m q = 0"
    and new: "ob \<notin> known (view (kern w))"
    and v: "view (kern w') = (view (kern w))\<lparr>links := (links (view (kern w)))(c_str name \<mapsto> ob),
        osize := (osize (view (kern w)))(ob := sint bytes), known := insert ob (known (view (kern w))),
        owned := insert ob (owned (view (kern w))), maps := (maps (view (kern w)))(a \<mapsto> (ob, bytes))\<rparr>"
    and m: "objs w' = (objs w)(ob := (set_pid_slot role (getpid H) (created_block b (clamped cap0 + 1) bytes))\<lparr>ready := 1\<rparr>)"
    by metis
  note g = created_geometry [OF assms(2,3) bn]
  let ?c = "(set_pid_slot role (getpid H) (created_block b (clamped cap0 + 1) bytes))\<lparr>ready := 1\<rparr>"
  have fields: "capacity ?c = capacity_m q" "writeIdx ?c = 0" "readIdx ?c = 0" "ready ?c = 1"
      "pid_slot role ?c = getpid H" "peer_slot role ?c = 0"
    by (cases role; simp add: q created_block_def set_pid_slot_def pid_slot_def peer_slot_def)+
  have "handle_ok (view (kern w')) q" using q by (simp add: handle_ok_def seg_mapped_def v)
  moreover have "reaches H q w' = Some ob"
    using shm_host.reaches_iff [OF assms(1), of q w' ob] q by (simp add: v)
  moreover have "validate b (size_m (seg_m q)) ?c = Inr ()" using g(5) q by simp
  ultimately show ?thesis
    using g(1-4) q new m fields v by (auto simp: Let_def)
qed

definition bin8 :: binary where
  "bin8 = \<lparr>kCacheLine = 64, sizeof_T = 8, alignof_T = 8\<rparr>"

lemma bin8_ok [simp]: "binary_ok bin8" "unat (sizeof_T bin8) < 2 ^ 32"
  by (simp_all add: bin8_def binary_ok_def)

abbreviation ref42 :: "kst host" where "ref42 \<equiv> ref_host (\<lambda>_. None) 42"

lemma sample_create_runs: "\<exists>q w'. create ref42 bin8 ''/q'' 4 Producer world_init = (Inr q, w')"
proof -
  have c4: "clamped 4 = 4" by (simp add: clamped_def)
  have bn: "bytesNeeded bin8 4 = Inr 296"
    using bytesNeeded_exact [OF bin8_ok(1), of 4]
    by (auto simp: Let_def bin8_def split: sum.splits intro: unsigned_word_eqI)
  have "seg_create (posix_of ref42) ''/q'' 296 (kern world_init) \<noteq> (Inl x, k)" for x k
    by (simp add: ref_host_def world_init_def seg_eval)
  then show ?thesis
    using refh.create_cases [of bin8 4 "\<lambda>_. None" 42 "''/q''" Producer world_init] bn unfolding c4
    by (metis sum.inject(2) sum.distinct(1))
qed

theorem create_publishes_queue_witness:
  "\<exists>q w'. create ref42 bin8 ''/q'' 4 Producer world_init = (Inr q, w') \<and> cap q = 5 \<and> unat (size_m (seg_m q)) = 296 \<and>
     (\<exists>ob. reaches ref42 q w' = Some ob \<and> pid_slot Producer (objs w' ob) = 42)"
proof -
  obtain q w' where run: "create ref42 bin8 ''/q'' 4 Producer world_init = (Inr q, w')" using sample_create_runs by blast
  have g: "getpid ref42 = 42" "kCacheLine bin8 = 64" "unat (sizeof_T bin8) = 8" by (simp_all add: ref_host_def bin8_def)
  show ?thesis
    using create_publishes_queue [OF refh.shm_host_axioms bin8_ok run] run unfolding g by (auto simp: Let_def)
qed

lemma create_fails:
  assumes "shm_host H view time" and "create H b name cap0 role w = (Inl e, w')"
  shows "(\<exists>x. e = Throws x) \<and> objs w' = objs w \<and> same_resources (view (kern w)) (view (kern w'))"
proof -
  have p: "posix_shm (posix_of H) view" using assms(1) by (simp add: shm_host_def)
  show ?thesis
    by (rule shm_host.create_cases [OF assms(1), of b cap0 name role w])
      (use assms(2) posix_shm.seg_create_fail [OF p] in \<open>auto simp: same_resources_def\<close>)
qed

text \<open>
  C18. \<^verbatim>\<open>create\<close> either returns a handle or throws; it never dereferences a bad pointer. When it throws
  (size overflow, bad name, a failing system call) no control block anywhere has changed and this
  process holds the same descriptors and mappings as before.
\<close>

theorem create_throws_cleanly:
  assumes "shm_host H view time" and "create H b name cap0 role w = (Inl e, w')"
  shows "(\<exists>x. e = Throws x) \<and> objs w' = objs w \<and> same_resources (view (kern w)) (view (kern w'))"
  using assms by (rule create_fails)

theorem create_throws_cleanly_witness:
  "\<exists>x w'. create ref42 bin8 ''/a/b'' 4 Producer world_init = (Inl (Throws x), w') \<and> objs w' = objs world_init"
proof -
  obtain r w' where run: "create ref42 bin8 ''/a/b'' 4 Producer world_init = (r, w')" by force
  have "r \<noteq> Inr q" for q
  proof
    assume "r = Inr q"
    then obtain bytes s k where "seg_create (posix_of ref42) ''/a/b'' bytes (kern world_init) = (Inr s, k)"
      using run by (auto simp: create_def Let_def unwind_def split: sum.splits prod.splits err.splits)
    then show False by (simp add: seg_create_def validateName_def kMaxShmNameLen_def)
  qed
  then obtain e where "r = Inl e" by (cases r) auto
  then show ?thesis using create_throws_cleanly [OF refh.shm_host_axioms run [unfolded \<open>r = Inl e\<close>]] run by auto
qed

lemma attach_timed:
  assumes "shm_host H view time"
  shows "let (t0, k0) = steady_now H (kern w); D = t0 + unat timeoutMs * 1000000; M = maps (view (kern w)) in
     \<exists>n q0 w0 res. attach H b name role timeoutMs w = Some res \<and>
       attach_rounds H b name role D n ShmSpscQueue (w\<lparr>kern := k0\<rparr>) = Some (q0, w0) \<and> attach_pass H b name role D q0 w0 = Inl res \<and>
       n \<le> unat timeoutMs \<and>
       (\<forall>i q' w'. i < n \<and> attach_rounds H b name role D i ShmSpscQueue (w\<lparr>kern := k0\<rparr>) = Some (q', w') \<longrightarrow> fst (steady_now H (kern w')) < D) \<and>
       others_did H (objs w) (objs w0) \<and> fds (view (kern w0)) = fds (view (kern w)) \<and>
       (refused view M w0 res \<and> (D \<le> time (kern (snd res)) \<or> turned_away H view b name role w0) \<or>
        attached H view M b name role w0 res)"
proof -
  obtain t k where now: "steady_now H (kern w) = (t, k)" by force
  define w1 D where "w1 = w\<lparr>kern := k\<rparr>" and "D = t + unat timeoutMs * 1000000"
  have v: "view (kern w1) = view (kern w)" "t \<le> time (kern w1)" "objs w1 = objs w"
    using shm_host.now_law [OF assms now] by (simp_all add: w1_def)
  have a: "attaching (view (kern w1)) ShmSpscQueue"
    by (simp add: attaching_def handle_ok_def seg_mapped_def ShmSpscQueue_def ShmSegment_def)
  have m: "other_maps (view (kern w)) ShmSpscQueue = maps (view (kern w))"
    by (simp add: other_maps_def ShmSpscQueue_def ShmSegment_def)
  obtain n q0 w0 res where r: "attach_loop H b name role D ShmSpscQueue w1 = Some res"
     "attach_rounds H b name role D n ShmSpscQueue w1 = Some (q0, w0)" "attach_pass H b name role D q0 w0 = Inl res"
     "0 < n \<longrightarrow> time (kern w1) + (n - 1) * 1000000 < D" "attaching (view (kern w0)) q0"
     "other_maps (view (kern w0)) q0 = maps (view (kern w))" "others_did H (objs w) (objs w0)" "fds (view (kern w0)) = fds (view (kern w))"
    using shm_host.attach_loop_ends [OF assms a, of b name role D] unfolding v(1,3) m by blast
  have "n \<le> unat timeoutMs" using r(4) v(2) by (cases n) (auto simp: D_def)
  moreover have "refused view (maps (view (kern w))) w0 res \<and> (D \<le> time (kern (snd res)) \<or> turned_away H view b name role w0) \<or>
      attached H view (maps (view (kern w))) b name role w0 res"
    using shm_host.attach_pass_end [OF assms r(5,3)] shm_host.attach_pass_refusal [OF assms r(5), of b name role D] r(3) unfolding r(6)
    by (cases res) (auto simp: refused_def dest: spec)
  moreover have "attach H b name role timeoutMs w = Some res" using r(1) now by (simp add: attach_def w1_def D_def)
  ultimately have "attach H b name role timeoutMs w = Some res \<and>
       attach_rounds H b name role D n ShmSpscQueue w1 = Some (q0, w0) \<and> attach_pass H b name role D q0 w0 = Inl res \<and> n \<le> unat timeoutMs \<and>
       (\<forall>i q' w'. i < n \<and> attach_rounds H b name role D i ShmSpscQueue w1 = Some (q', w') \<longrightarrow> fst (steady_now H (kern w')) < D) \<and>
       others_did H (objs w) (objs w0) \<and> fds (view (kern w0)) = fds (view (kern w)) \<and>
       (refused view (maps (view (kern w))) w0 res \<and> (D \<le> time (kern (snd res)) \<or> turned_away H view b name role w0) \<or>
        attached H view (maps (view (kern w))) b name role w0 res)"
    using r shm_host.attach_rounds_early [OF assms r(2)] by blast
  then show ?thesis unfolding now Let_def prod.case w1_def D_def by blast
qed

lemma attach_ends:
  assumes "shm_host H view time"
  shows "\<exists>res w0. attach H b name role timeoutMs w = Some res \<and> others_did H (objs w) (objs w0) \<and>
           fds (view (kern w0)) = fds (view (kern w)) \<and>
           (refused view (maps (view (kern w))) w0 res \<or> attached H view (maps (view (kern w))) b name role w0 res)"
  using attach_timed [OF assms, of w timeoutMs b name role] unfolding Let_def case_prod_beta by blast

text \<open>
  C7. \<^verbatim>\<open>attach\<close> always returns, and keeps its deadline \<open>D\<close>, which is \<^verbatim>\<open>timeoutMs\<close> milliseconds after its first reading of the
  clock: it makes one pass more than it sleeps, sleeps at most \<^verbatim>\<open>timeoutMs\<close> times, and the first pass that reads \<open>D\<close> or
  more on the clock is its last. It then either throws, having written no control block and holding no mapping or
  descriptor it did not hold before, and that only when the clock has reached \<open>D\<close>, or because the object was
  complete but failed \<^verbatim>\<open>validate\<close> or had its slot held by a live process; or it returns a bound handle to the object the
  name is linked to, whose block was \<^verbatim>\<open>ready\<close> and passed \<^verbatim>\<open>validate\<close>, after writing nothing but its own pid into a slot
  that was its own or not held by a live process. (Whatever else changed, other processes did while this one
  slept.)
\<close>

theorem attach_outcome:
  assumes "shm_host H view time"
  shows "let (t0, k0) = steady_now H (kern w); D = t0 + unat timeoutMs * 1000000; M = maps (view (kern w)) in
     \<exists>n q0 w0 res. attach H b name role timeoutMs w = Some res \<and>
       attach_rounds H b name role D n ShmSpscQueue (w\<lparr>kern := k0\<rparr>) = Some (q0, w0) \<and> attach_pass H b name role D q0 w0 = Inl res \<and>
       n \<le> unat timeoutMs \<and>
       (\<forall>i q' w'. i < n \<and> attach_rounds H b name role D i ShmSpscQueue (w\<lparr>kern := k0\<rparr>) = Some (q', w') \<longrightarrow> fst (steady_now H (kern w')) < D) \<and>
       others_did H (objs w) (objs w0) \<and> fds (view (kern w0)) = fds (view (kern w)) \<and>
       (refused view M w0 res \<and> (D \<le> time (kern (snd res)) \<or> turned_away H view b name role w0) \<or>
        attached H view M b name role w0 res)"
  by (rule attach_timed [OF assms])

theorem attach_outcome_witness:
  "\<exists>res n q0 w0. attach ref42 bin8 ''/q'' Consumer 300 world_init = Some res \<and> n \<le> 300 \<and>
     attach_rounds ref42 bin8 ''/q'' Consumer (fst (steady_now ref42 (kern world_init)) + 300000000) n ShmSpscQueue
       (world_init\<lparr>kern := snd (steady_now ref42 (kern world_init))\<rparr>) = Some (q0, w0) \<and> others_did ref42 (objs world_init) (objs w0)"
  using attach_outcome [OF refh.shm_host_axioms, of "\<lambda>_. None" 42 world_init 300 bin8 "''/q''" Consumer]
  unfolding Let_def case_prod_beta by fastforce

text \<open>
  C19. \<^verbatim>\<open>detach\<close> of a well-formed handle never faults. It marks its own pid slot as released only if the
  slot still holds this process's pid, and changes nothing else in any control block; an unbound
  handle (a failed attach) changes no block at all. Afterwards the handle is null and unbound, its
  mapping is gone and no other, and detaching again does nothing.
\<close>

theorem detach_releases_own_slot_only:
  assumes "shm_host H view time" and "handle_ok (view (kern w)) q" and "detach H q w = (res, w')"
  shows "\<exists>q'. res = Inr q' \<and> ctrl_m q' = None \<and> slots_m q' = None \<and> \<not> bound_m q' \<and> seg_m q' = ShmSegment \<and>
     detach H q' w' = (Inr q', w') \<and> maps (view (kern w')) = other_maps (view (kern w)) q \<and>
     fds (view (kern w')) = fds (view (kern w)) \<and>
     objs w' = (case reaches H q w of
        Some ob \<Rightarrow> if bound_m q \<and> pid_slot (role_m q) (objs w ob) = getpid H
                   then (objs w)(ob := set_pid_slot (role_m q) (- 1) (objs w ob)) else objs w
      | None \<Rightarrow> objs w)"
proof -
  let ?q = "q\<lparr>ctrl_m := None, slots_m := None, bound_m := False, seg_m := ShmSegment\<rparr>"
  have d: "res = Inr ?q" "kern w' = snd (seg_reset (posix_of H) (seg_m q) (kern w))"
      "objs w' = (if bound_m q
       then (let ob = the (reaches H q w); c = objs w ob
             in if pid_slot (role_m q) c = getpid H then (objs w)(ob := set_pid_slot (role_m q) (- 1) c) else objs w)
       else objs w)"
    using shm_host.detach_ok [OF assms(1,2)] assms(3) by auto
  have p: "posix_shm (posix_of H) view" using assms(1) by (simp add: shm_host_def)
  have m: "maps (view (kern w')) = other_maps (view (kern w)) q" "fds (view (kern w')) = fds (view (kern w))"
    using posix_shm.seg_reset_view [OF p, of "kern w" "seg_m q"] assms(2) by (simp_all add: d(2) handle_ok_def other_maps_def)
  have again: "detach H ?q w' = (Inr ?q, w')" by (simp add: detach_def Let_def)
  have r: "\<exists>ob. reaches H q w = Some ob" if "bound_m q"
    using that assms(2) shm_host.deref_handle [OF assms(1,2)] by (metis handle_ok_def)
  have "objs w' = (case reaches H q w of
        Some ob \<Rightarrow> if bound_m q \<and> pid_slot (role_m q) (objs w ob) = getpid H
                   then (objs w)(ob := set_pid_slot (role_m q) (- 1) (objs w ob)) else objs w
      | None \<Rightarrow> objs w)"
    using r by (cases "reaches H q w") (auto simp: d(3) Let_def)
  then show ?thesis using d(1) m again by (intro exI [of _ ?q]) simp
qed

theorem detach_releases_own_slot_only_witness:
  "\<exists>q w1 q' w2. create ref42 bin8 ''/q'' 4 Producer world_init = (Inr q, w1) \<and> detach ref42 q w1 = (Inr q', w2) \<and>
     ctrl_m q' = None \<and> maps (kv (kern w2)) = maps (kv (kern world_init))"
proof -
  obtain q w1 where run: "create ref42 bin8 ''/q'' 4 Producer world_init = (Inr q, w1)" using sample_create_runs by blast
  obtain res w2 where det: "detach ref42 q w1 = (res, w2)" by force
  obtain a ob n where h: "handle_ok (kv (kern w1)) q" "addr_m (seg_m q) = Some a" "maps (kv (kern world_init)) a = None"
      "maps (kv (kern w1)) = (maps (kv (kern world_init)))(a \<mapsto> (ob, n))"
    by (rule refh.create_ok [OF run]) (auto simp: handle_ok_def seg_mapped_def)
  show ?thesis
    using detach_releases_own_slot_only [OF refh.shm_host_axioms h(1) det] run det h
    by (auto simp: other_maps_def fun_upd_idem)
qed

text \<open>
  Moves hand a handle over whole: the move constructor gives the new handle every member of the
  source and leaves the source null and unbound, so destroying it in either order does nothing;
  move assignment first detaches what the target held; assigning a handle to itself is a no-op.
\<close>

theorem moves_transfer_ownership:
  assumes "shm_host H view time" and "handle_ok (view (kern w)) dst"
  shows "queue_move src = (src, ShmSpscQueue) \<and> detach H ShmSpscQueue w = (Inr ShmSpscQueue, w) \<and>
         queue_move_assign H True dst src w = (Inr (dst, src), w) \<and>
         (\<exists>d w'. detach H dst w = (Inr d, w') \<and> queue_move_assign H False dst src w = (Inr (src, d), w') \<and>
                 ctrl_m d = None \<and> \<not> bound_m d \<and> detach H d w' = (Inr d, w'))"
proof -
  let ?d = "dst\<lparr>ctrl_m := None, slots_m := None, bound_m := False, seg_m := ShmSegment\<rparr>"
  obtain w' where d: "detach H dst w = (Inr ?d, w')" using shm_host.detach_ok [OF assms] by blast
  then have "queue_move_assign H False dst src w = (Inr (src, ?d), w')" by (simp add: queue_move_assign_def)
  moreover have "detach H ?d w' = (Inr ?d, w')" "detach H ShmSpscQueue w = (Inr ShmSpscQueue, w)"
    by (simp_all add: detach_def Let_def ShmSpscQueue_def)
  moreover have "queue_move_assign H True dst src w = (Inr (dst, src), w)" by (simp add: queue_move_assign_def)
  ultimately show ?thesis using d by (intro conjI exI [of _ ?d] exI [of _ w']) simp_all
qed

theorem moves_transfer_ownership_witness:
  "\<exists>q w'. create ref42 bin8 ''/q'' 4 Producer world_init = (Inr q, w') \<and> queue_move q = (q, ShmSpscQueue) \<and>
     queue_move_assign ref42 False ShmSpscQueue q w' = (Inr (q, ShmSpscQueue), w')"
proof -
  obtain q w' where run: "create ref42 bin8 ''/q'' 4 Producer world_init = (Inr q, w')" using sample_create_runs by blast
  have h: "handle_ok (kv (kern w')) ShmSpscQueue"
    by (simp add: handle_ok_def seg_mapped_def ShmSpscQueue_def ShmSegment_def)
  show ?thesis using moves_transfer_ownership [OF refh.shm_host_axioms h, of q "\<lambda>_. None" 42] run by auto
qed

text \<open>
  C20. What \<^verbatim>\<open>validate\<close> accepts is usable when its size arithmetic does not wrap: every slot of the
  ring lies inside the mapping, and element size, alignment, cache line and version are those of
  this binary.
\<close>

theorem validate_accepts_in_bounds:
  assumes "validate b seg_size c = Inr ()"
    and "unat (slotsOffset c) + unat (capacity c) * unat (sizeof_T b) < 2 ^ 64" and "i < unat (capacity c)"
  shows "unat (slotsOffset c) + (i + 1) * unat (sizeof_T b) \<le> unat seg_size \<and>
         unat (elemSize c) = unat (sizeof_T b) \<and> unat (elemAlign c) = unat (alignof_T b) \<and>
         unat (cacheLineSize c) = kCacheLine b \<and> magic c = kMagic \<and> version c = kVersion"
proof -
  have v: "magic c = kMagic" "version c = kVersion" "unat (cacheLineSize c) = kCacheLine b"
      "ucast (elemSize c) = sizeof_T b" "ucast (elemAlign c) = alignof_T b"
      "ucast (slotsOffset c) + capacity c * sizeof_T b \<le> totalBytes c" "totalBytes c \<le> seg_size"
    using iffD1 [OF validate_ok_iff assms(1)] by blast+
  have u: "unat (ucast (x :: u32) :: u64) = unat x" for x
  proof -
    have "unat x < 2 ^ LENGTH(32)" by (rule unsigned_less)
    moreover have "(2 :: nat) ^ LENGTH(32) < 2 ^ 64" by simp
    ultimately have "unat x < 2 ^ 64" by (rule less_trans)
    then show ?thesis by (simp add: unsigned_ucast_eq take_bit_nat_eq_self)
  qed
  have m: "unat (capacity c * sizeof_T b) = unat (capacity c) * unat (sizeof_T b)"
    using assms(2) by (simp add: unat_word_ariths(2))
  have "unat (ucast (slotsOffset c) + capacity c * sizeof_T b) = unat (slotsOffset c) + unat (capacity c) * unat (sizeof_T b)"
    using assms(2) by (simp add: unat_word_ariths(1) u m)
  then have "unat (slotsOffset c) + unat (capacity c) * unat (sizeof_T b) \<le> unat seg_size"
    using v(6,7) by (simp add: word_le_nat_alt)
  moreover have "(i + 1) * unat (sizeof_T b) \<le> unat (capacity c) * unat (sizeof_T b)"
    using assms(3) by (intro mult_le_mono1) simp
  ultimately have "unat (slotsOffset c) + (i + 1) * unat (sizeof_T b) \<le> unat seg_size" by linarith
  moreover have "unat (elemSize c) = unat (sizeof_T b)" "unat (elemAlign c) = unat (alignof_T b)"
    using u [of "elemSize c"] u [of "elemAlign c"] v(4,5) by simp_all
  ultimately show ?thesis using v(1-3) by blast
qed

definition block_of_10 :: control_block where
  "block_of_10 = (created_block bin8 10 336)"

lemma block_of_10_valid: "validate bin8 336 block_of_10 = Inr ()"
proof -
  have "n = 336" if "unat (n :: u64) = 336" for n
    using that by (intro unsigned_word_eqI) simp
  then have "bytesNeeded bin8 (clamped 9) = Inr 336"
    using bytesNeeded_exact [OF bin8_ok(1), of 9] by (auto simp: clamped_def Let_def bin8_def split: sum.splits)
  from created_geometry(5) [OF bin8_ok this] show ?thesis by (simp add: block_of_10_def clamped_def)
qed

theorem validate_accepts_in_bounds_witness:
  "unat (slotsOffset block_of_10) + 10 * 8 \<le> unat (336 :: u64)"
proof -
  have S: "sizeof_ControlBlock bin8 = 256"
    using unat_sizeof_ControlBlock [OF bin8_ok(1)] by (intro unsigned_word_eqI) (simp add: bin8_def)
  have g: "unat (slotsOffset block_of_10) = 256" "unat (capacity block_of_10) = 10" "unat (sizeof_T bin8) = 8"
    unfolding block_of_10_def created_block_def control_block.select_convs S by (simp_all add: bin8_def)
  show ?thesis
    using validate_accepts_in_bounds [OF block_of_10_valid, of 9] unfolding g by simp
qed

text \<open>
  C21. The size check itself wraps around: a block that claims \<open>2 ^ 61\<close> slots of eight bytes needs
  \<open>2 ^ 64\<close> bytes, which the 64-bit sum takes for none, so \<^verbatim>\<open>validate\<close> accepts it for a mapping of a few
  hundred bytes and slot 1000 lies outside.
\<close>

theorem validate_size_check_wraps:
  "let c = created_block bin8 2305843009213693952 336 in
   validate bin8 336 c = Inr () \<and> unat (capacity c) = 2 ^ 61 \<and>
   unat (336 :: u64) < unat (slotsOffset c) + 1000 * unat (sizeof_T bin8)"
proof -
  have S: "sizeof_ControlBlock bin8 = 256"
    using unat_sizeof_ControlBlock [OF bin8_ok(1)] by (intro unsigned_word_eqI) (simp add: bin8_def)
  show ?thesis
    unfolding Let_def validate_ok_iff created_block_def control_block.select_convs S by (simp add: bin8_def)
qed

text \<open>
  The liveness probe reports a process dead only when the kernel says it does not exist: a process
  it may not signal (\<^verbatim>\<open>EPERM\<close>) counts as alive; zero and negative slots (never claimed, detached) are
  dead without asking the kernel.
\<close>

lemma processAlive_iff:
  "processAlive kill pid \<longleftrightarrow> 0 < sint pid \<and> kill pid \<noteq> Some ESRCH"
  by (auto simp: processAlive_def split: option.splits)

lemma wait_loop_ends:
  assumes host: "shm_host H view time" and c: "ctrl_m q \<noteq> None"
  shows "handle_ok (view (kern w)) q \<Longrightarrow> \<exists>r w'. wait_loop H d q w = Some (Inr r, w') \<and>
      (if r then \<exists>ob. reaches H q w' = Some ob \<and> 0 < sint (peer_slot (role_m q) (objs w' ob)) else d \<le> time (kern w'))"
proof (induction "d - time (kern w)" arbitrary: w rule: less_induct)
  case less
  obtain ob where dr: "deref H q w = Inr (ob, objs w ob)" "reaches H q w = Some ob"
    using shm_host.deref_handle [OF host less.prems c] by blast
  obtain t k where now: "steady_now H (kern w) = (t, k)" by force
  note n = shm_host.now_law [OF host now]
  consider (there) "0 < sint (peer_slot (role_m q) (objs w ob))"
    | (late) "\<not> 0 < sint (peer_slot (role_m q) (objs w ob))" "d \<le> t"
    | (sleep) "\<not> 0 < sint (peer_slot (role_m q) (objs w ob))" "t < d" by fastforce
  then show ?case
  proof cases
    case there
    then show ?thesis using dr by (intro exI [of _ True] exI [of _ w]) (simp add: wait_loop.simps)
  next
    case late
    then show ?thesis using dr now n
      by (intro exI [of _ False] exI [of _ "w\<lparr>kern := k\<rparr>"]) (simp add: wait_loop.simps Let_def)
  next
    case sleep
    define w1 where "w1 = usleep H 1000 (w\<lparr>kern := k\<rparr>)"
    have u: "time k + 1000000 \<le> time (kern w1)" "maps (view (kern w1)) = maps (view (kern w))"
      using shm_host.usleep_law [OF host, of "w\<lparr>kern := k\<rparr>" 1000]
        shm_host.usleep_own_law [OF host, of 1000 "w\<lparr>kern := k\<rparr>"] n by (simp_all add: w1_def)
    then have h1: "handle_ok (view (kern w1)) q"
      using less.prems by (cases "addr_m (seg_m q)") (auto simp: handle_ok_def seg_mapped_def)
    have "d - time (kern w1) < d - time (kern w)" using n sleep(2) u(1) by linarith
    from less.hyps [OF this h1] show ?thesis
      using dr now sleep by (simp add: wait_loop.simps [of H d q w] Let_def w1_def)
  qed
qed

text \<open>
  C22. \<^verbatim>\<open>waitForPeer\<close> on a bound handle always returns: true only when the peer's slot holds a pid, false
  only once the deadline has passed.
\<close>

theorem waitForPeer_returns:
  assumes "shm_host H view time" and "handle_ok (view (kern w)) q" and "bound_m q"
  shows "\<exists>r w'. waitForPeer H timeoutMs q w = Some (Inr r, w') \<and>
           (if r then \<exists>ob. reaches H q w' = Some ob \<and> 0 < sint (peer_slot (role_m q) (objs w' ob))
            else time (kern w) + unat timeoutMs * 1000000 \<le> time (kern w'))"
proof -
  have c: "ctrl_m q \<noteq> None" using assms(2,3) unfolding handle_ok_def by blast
  obtain t k where now: "steady_now H (kern w) = (t, k)" by force
  have n: "view k = view (kern w)" "time (kern w) \<le> t" using shm_host.now_law [OF assms(1) now] by simp_all
  then have "handle_ok (view (kern (w\<lparr>kern := k\<rparr>))) q" using assms(2) by simp
  from wait_loop_ends [OF assms(1) c this, of "t + unat timeoutMs * 1000000"] show ?thesis
    using now n(2) unfolding waitForPeer_def by (force simp: split: if_splits)
qed

theorem waitForPeer_returns_witness:
  "\<exists>q w1 r w2. create ref42 bin8 ''/q'' 4 Producer world_init = (Inr q, w1) \<and> waitForPeer ref42 200 q w1 = Some (Inr r, w2)"
proof -
  obtain q w1 where run: "create ref42 bin8 ''/q'' 4 Producer world_init = (Inr q, w1)" using sample_create_runs by blast
  have h: "handle_ok (kv (kern w1)) q" "bound_m q"
    by (rule refh.create_ok [OF run]; auto simp: handle_ok_def seg_mapped_def)+
  show ?thesis using waitForPeer_returns [OF refh.shm_host_axioms h, of "\<lambda>_. None" 42 200] run by blast
qed

end
