(* ===== verification/Claim.thy ===== *)
theory Claim
  imports Lifecycle
begin

section \<open>Competing for a pid slot\<close>

text \<open>
  The loop of \<^verbatim>\<open>bind\<close> (lines 442--467 of \<^verbatim>\<open>include/shmspsc/ShmSpscQueue.h\<close>) and the
  release in \<^verbatim>\<open>detach\<close> (lines 417--422), run by any number of handles against one slot, cut at
  the load, the liveness probe and the compare-and-swap. A handle is the pid of its process and a
  number within it. A process may die at any point; the weak compare-and-swap may fail
  spuriously. With \<open>multi\<close> a process may use several handles for the role; with \<open>reuse\<close> the
  kernel may give the number of a dead process to a new one.
\<close>

datatype bind_pc =
    BOut
  | BJudge i32 \<comment> \<open>\<open>expected\<close> has been read, line 449 is next\<close>
  | BSwap i32 \<comment> \<open>judged free or stale, line 460 is next\<close>
  | BBound
  | BRefused

type_synonym handle = "i32 \<times> nat"

record claims =
  slot :: i32
  alive :: "i32 set"
  bpc :: "handle \<Rightarrow> bind_pc"

definition probe :: "claims \<Rightarrow> i32 \<Rightarrow> bool" where
  "probe s = processAlive (\<lambda>p. if p \<in> alive s then None else Some ESRCH)"

definition goto :: "handle \<Rightarrow> bind_pc \<Rightarrow> claims \<Rightarrow> claims" where
  "goto h pc s = s\<lparr>bpc := (bpc s)(h := pc)\<rparr>"

inductive claim_step :: "bool \<Rightarrow> bool \<Rightarrow> claims \<Rightarrow> claims \<Rightarrow> bool" for multi :: bool and reuse :: bool where
  load: "fst h \<in> alive s \<Longrightarrow> multi \<or> snd h = 0 \<Longrightarrow> bpc s h \<in> {BOut, BRefused} \<Longrightarrow>
    claim_step multi reuse s (goto h (BJudge (slot s)) s)"
| own: "fst h \<in> alive s \<Longrightarrow> bpc s h = BJudge e \<Longrightarrow> e = fst h \<Longrightarrow> claim_step multi reuse s (goto h BBound s)"
| refuse: "fst h \<in> alive s \<Longrightarrow> bpc s h = BJudge e \<Longrightarrow> e \<noteq> fst h \<Longrightarrow> 0 < sint e \<Longrightarrow> probe s e \<Longrightarrow>
    claim_step multi reuse s (goto h BRefused s)"
| stale: "fst h \<in> alive s \<Longrightarrow> bpc s h = BJudge e \<Longrightarrow> e \<noteq> fst h \<Longrightarrow> \<not> (0 < sint e \<and> probe s e) \<Longrightarrow>
    claim_step multi reuse s (goto h (BSwap e) s)"
| swap: "fst h \<in> alive s \<Longrightarrow> bpc s h = BSwap e \<Longrightarrow> slot s = e \<Longrightarrow>
    claim_step multi reuse s (goto h BBound (s\<lparr>slot := fst h\<rparr>))"
| swap_fails: "fst h \<in> alive s \<Longrightarrow> bpc s h = BSwap e \<Longrightarrow> claim_step multi reuse s (goto h (BJudge (slot s)) s)"
| release: "fst h \<in> alive s \<Longrightarrow> bpc s h = BBound \<Longrightarrow>
    claim_step multi reuse s (goto h BOut (if slot s = fst h then s\<lparr>slot := - 1\<rparr> else s))"
| dies: "p \<in> alive s \<Longrightarrow>
    claim_step multi reuse s (s\<lparr>alive := alive s - {p}, bpc := (\<lambda>h. if fst h = p then BOut else bpc s h)\<rparr>)"
| starts: "reuse \<Longrightarrow> p \<notin> alive s \<Longrightarrow> 0 < sint p \<Longrightarrow> claim_step multi reuse s (s\<lparr>alive := insert p (alive s)\<rparr>)"

text \<open>Any slot value and any set of running processes, no handle attached yet.\<close>

inductive claims_reach :: "bool \<Rightarrow> bool \<Rightarrow> claims \<Rightarrow> bool" for multi :: bool and reuse :: bool where
  init: "(\<And>h. bpc s h = BOut) \<Longrightarrow> (\<And>p. p \<in> alive s \<Longrightarrow> 0 < sint p) \<Longrightarrow> claims_reach multi reuse s"
| step: "claims_reach multi reuse s \<Longrightarrow> claim_step multi reuse s t \<Longrightarrow> claims_reach multi reuse t"

text \<open>Handles that hold the role: bound, in a process that still runs.\<close>

definition holds_role :: "claims \<Rightarrow> handle \<Rightarrow> bool" where
  "holds_role s h \<longleftrightarrow> bpc s h = BBound \<and> fst h \<in> alive s"

subsection \<open>At most one holder\<close>

lemma probe_iff: "probe s p \<longleftrightarrow> 0 < sint p \<and> p \<in> alive s"
  by (simp add: probe_def processAlive_iff)

lemma goto_simps [simp]:
  "slot (goto h pc s) = slot s" "alive (goto h pc s) = alive s"
  "bpc (goto h pc s) g = (if g = h then pc else bpc s g)"
  by (simp_all add: goto_def)

text \<open>
  A handle that holds the role, or is about to find its own pid in the slot, has its pid there; one
  that is about to swap a value out has a value no live process put there.
\<close>

definition claim_inv :: "claims \<Rightarrow> bool" where
  "claim_inv s \<longleftrightarrow>
     (\<forall>h. bpc s h = BBound \<or> bpc s h = BJudge (fst h) \<longrightarrow> slot s = fst h) \<and>
     (\<forall>h e. bpc s h = BSwap e \<longrightarrow> 0 < sint e \<longrightarrow> e \<notin> alive s) \<and>
     (\<forall>h. bpc s h \<noteq> BOut \<longrightarrow> fst h \<in> alive s \<and> snd h = 0) \<and> (\<forall>p \<in> alive s. 0 < sint p)"

lemma claim_invD:
  assumes "claim_inv s"
  shows "bpc s h = BBound \<or> bpc s h = BJudge (fst h) \<Longrightarrow> slot s = fst h"
    "bpc s h = BSwap e \<Longrightarrow> 0 < sint e \<Longrightarrow> e \<notin> alive s"
    "bpc s h \<noteq> BOut \<Longrightarrow> fst h \<in> alive s" "bpc s h \<noteq> BOut \<Longrightarrow> snd h = 0" "p \<in> alive s \<Longrightarrow> 0 < sint p"
  using assms unfolding claim_inv_def by blast+

lemma claim_inv_goto:
  assumes I: "claim_inv s" and h: "fst h \<in> alive s" "snd h = 0"
    and b: "pc = BBound \<or> pc = BJudge (fst h) \<Longrightarrow> slot s = fst h"
    and sw: "\<And>e. pc = BSwap e \<Longrightarrow> 0 < sint e \<Longrightarrow> e \<notin> alive s"
  shows "claim_inv (goto h pc s)"
  unfolding claim_inv_def
proof (intro conjI allI impI ballI)
  fix g assume "bpc (goto h pc s) g = BBound \<or> bpc (goto h pc s) g = BJudge (fst g)"
  then show "slot (goto h pc s) = fst g" using b claim_invD(1) [OF I, of g] by (cases "g = h") simp_all
next
  fix g e assume "bpc (goto h pc s) g = BSwap e" "0 < sint e"
  then show "e \<notin> alive (goto h pc s)" using sw claim_invD(2) [OF I, of g e] by (cases "g = h") simp_all
next
  fix g assume "bpc (goto h pc s) g \<noteq> BOut"
  then show "fst g \<in> alive (goto h pc s)" "snd g = 0"
    using h claim_invD(3,4) [OF I, of g] by (cases "g = h"; simp)+
qed (use claim_invD(5) [OF I] in simp)

text \<open>The slot may change when no handle but \<open>h\<close> relies on it.\<close>

lemma claim_inv_slot:
  assumes I: "claim_inv s" and h: "fst h \<in> alive s" "snd h = 0"
    and only: "\<And>g. bpc s g = BBound \<or> bpc s g = BJudge (fst g) \<Longrightarrow> g = h"
    and pc: "pc = BOut \<or> pc = BBound \<and> x = fst h"
  shows "claim_inv (goto h pc (s\<lparr>slot := x\<rparr>))"
  unfolding claim_inv_def
proof (intro conjI allI impI ballI)
  fix g assume a: "bpc (goto h pc (s\<lparr>slot := x\<rparr>)) g = BBound \<or> bpc (goto h pc (s\<lparr>slot := x\<rparr>)) g = BJudge (fst g)"
  have "g = h"
  proof (rule ccontr)
    assume "g \<noteq> h"
    then show False using a only [of g] by simp
  qed
  then show "slot (goto h pc (s\<lparr>slot := x\<rparr>)) = fst g" using a pc by auto
next
  fix g e assume "bpc (goto h pc (s\<lparr>slot := x\<rparr>)) g = BSwap e" "0 < sint e"
  then show "e \<notin> alive (goto h pc (s\<lparr>slot := x\<rparr>))" using pc claim_invD(2) [OF I, of g e] by (cases "g = h") auto
next
  fix g assume "bpc (goto h pc (s\<lparr>slot := x\<rparr>)) g \<noteq> BOut"
  then show "fst g \<in> alive (goto h pc (s\<lparr>slot := x\<rparr>))" "snd g = 0"
    using h claim_invD(3,4) [OF I, of g] by (cases "g = h"; simp)+
qed (use claim_invD(5) [OF I] in simp)

lemma claim_inv_step:
  assumes step: "claim_step False False s t" and I: "claim_inv s"
  shows "claim_inv t"
  using step
proof (cases rule: claim_step.cases)
  case (load h)
  then show ?thesis using I by (auto intro: claim_inv_goto)
next
  case (own h e)
  then show ?thesis using claim_invD(1,4) [OF I, of h] by (auto intro!: claim_inv_goto [OF I])
next
  case (refuse h e)
  then show ?thesis using claim_invD(4) [OF I, of h] by (auto intro!: claim_inv_goto [OF I])
next
  case (stale h e)
  then show ?thesis using claim_invD(4) [OF I, of h] by (auto simp: probe_iff intro!: claim_inv_goto [OF I])
next
  case (swap h e)
  have h: "snd h = 0" using claim_invD(4) [OF I, of h] swap by simp
  have "g = h" if g: "bpc s g = BBound \<or> bpc s g = BJudge (fst g)" for g
  proof -
    have "slot s = fst g" "fst g \<in> alive s" using claim_invD(1,3) [OF I, of g] g by auto
    then show ?thesis using claim_invD(2) [OF I swap(3)] claim_invD(5) [OF I, of "fst g"] swap(4) by simp
  qed
  then show ?thesis unfolding swap(1) using swap(2) h by (intro claim_inv_slot [OF I]) simp_all
next
  case (swap_fails h e)
  then show ?thesis using claim_invD(4) [OF I, of h] by (auto intro!: claim_inv_goto [OF I])
next
  case (release h)
  have h: "snd h = 0" "slot s = fst h" using claim_invD(1,4) [OF I, of h] release by simp_all
  have "g = h" if "bpc s g = BBound \<or> bpc s g = BJudge (fst g)" for g
    using claim_invD(1,4) [OF I, of g] that h by (auto simp: prod_eq_iff)
  then show ?thesis unfolding release(1) using release(2) h by (simp add: claim_inv_slot [OF I])
next
  case (dies p)
  then show ?thesis
    using claim_invD [OF I] unfolding claim_inv_def dies(1) by (auto split: if_splits) blast+
next
  case (starts p)
  then show ?thesis by simp
qed

lemma claims_reach_inv: "claims_reach False False s \<Longrightarrow> claim_inv s"
proof (induction rule: claims_reach.induct)
  case (init s)
  then show ?case by (simp add: claim_inv_def)
next
  case (step s t)
  then show ?case using claim_inv_step by blast
qed

subsection \<open>Properties\<close>

definition claims0 :: claims where
  "claims0 = \<lparr>slot = 0, alive = {7, 9}, bpc = (\<lambda>_. BOut)\<rparr>"

lemma claims0_reach: "claims_reach multi reuse claims0"
  by (rule claims_reach.init) (auto simp: claims0_def)

text \<open>An undisturbed bind to a slot that is free or stale, as a sequence of steps.\<close>

lemma claim_run:
  assumes "claims_reach multi reuse s" "fst h \<in> alive s" "multi \<or> snd h = 0" "bpc s h = BOut" "slot s \<noteq> fst h"
    "\<not> (0 < sint (slot s) \<and> slot s \<in> alive s)"
  shows "claims_reach multi reuse (goto h BBound (s\<lparr>slot := fst h\<rparr>))"
proof -
  define s1 where "s1 = goto h (BJudge (slot s)) s"
  define s2 where "s2 = goto h (BSwap (slot s)) s1"
  have "claim_step multi reuse s s1" unfolding s1_def using assms by (intro claim_step.load) simp_all
  moreover have "claim_step multi reuse s1 s2"
    unfolding s2_def using assms by (intro claim_step.stale) (simp_all add: s1_def probe_iff)
  moreover have "claim_step multi reuse s2 (goto h BBound (s2\<lparr>slot := fst h\<rparr>))"
    using assms by (intro claim_step.swap [of h s2 "slot s"]) (simp_all add: s2_def s1_def)
  ultimately have "claims_reach multi reuse (goto h BBound (s2\<lparr>slot := fst h\<rparr>))"
    using assms(1) by (blast intro: claims_reach.step)
  then show ?thesis by (simp add: s2_def s1_def goto_def)
qed

text \<open>
  C15. Mutual exclusion of the claim: however many processes race for a pid slot, whatever it held
  before, dying at any point, with spurious failures of the compare-and-swap and in every
  interleaving, at most one live process holds the role, and the slot names it; provided each process
  uses one handle per role and the kernel does not hand a dead process's number out again.
\<close>

theorem at_most_one_live_holder:
  assumes "claims_reach False False s" and "holds_role s h" and "holds_role s g"
  shows "h = g \<and> slot s = fst h"
  using claim_invD(1,4) [OF claims_reach_inv [OF assms(1)], of h] claim_invD(1,4) [OF claims_reach_inv [OF assms(1)], of g]
    assms(2,3) by (simp add: holds_role_def prod_eq_iff)

theorem at_most_one_live_holder_witness:
  "\<exists>s. claims_reach False False s \<and> holds_role s (7, 0) \<and> slot s = 7 \<and> \<not> holds_role s (9, 0)"
proof -
  define s where "s = goto (7, 0) BBound (claims0\<lparr>slot := 7\<rparr>)"
  have "claims_reach False False s"
    unfolding s_def using claim_run [OF claims0_reach, of "(7, 0)"] by (simp add: claims0_def)
  moreover have "holds_role s (7, 0)" by (simp add: holds_role_def s_def claims0_def)
  ultimately show ?thesis using at_most_one_live_holder [of s "(7, 0)" "(9, 0)"] at_most_one_live_holder [of s "(7, 0)" "(7, 0)"]
    by auto
qed

text \<open>
  The exception for \<open>re-attach from this same process\<close> (line 449) costs exclusion: two handles of
  one process are both accepted for the same role, and once the first detaches it frees the slot the
  second still uses, so another live process is accepted as well.
\<close>

theorem same_process_reattach_breaks_exclusion:
  "\<exists>s. claims_reach True False s \<and> holds_role s (7, 1) \<and> holds_role s (9, 0)"
proof -
  define s1 where "s1 = goto (7, 0) BBound (claims0\<lparr>slot := 7\<rparr>)"
  define s2 where "s2 = goto (7, 1) (BJudge (slot s1)) s1"
  define s3 where "s3 = goto (7, 1) BBound s2"
  define s4 where "s4 = goto (7, 0) BOut (if slot s3 = fst (7 :: i32, 0 :: nat) then s3\<lparr>slot := - 1\<rparr> else s3)"
  define s5 where "s5 = goto (9, 0) BBound (s4\<lparr>slot := 9\<rparr>)"
  have r1: "claims_reach True False s1"
    unfolding s1_def using claim_run [OF claims0_reach, of "(7, 0)"] by (simp add: claims0_def)
  have "claim_step True False s1 s2"
    unfolding s2_def by (rule claim_step.load) (simp_all add: s1_def claims0_def)
  moreover have "claim_step True False s2 s3"
    unfolding s3_def by (rule claim_step.own [of _ _ 7]) (simp_all add: s2_def s1_def claims0_def)
  moreover have "claim_step True False s3 s4"
    unfolding s4_def by (rule claim_step.release) (simp_all add: s3_def s2_def s1_def claims0_def)
  ultimately have r4: "claims_reach True False s4" using r1 by (blast intro: claims_reach.step)
  have "claims_reach True False s5"
    unfolding s5_def using claim_run [OF r4, of "(9, 0)"] by (simp add: s4_def s3_def s2_def s1_def claims0_def)
  moreover have "holds_role s5 (7, 1)" "holds_role s5 (9, 0)"
    by (simp_all add: holds_role_def s5_def s4_def s3_def s2_def s1_def claims0_def)
  ultimately show ?thesis by blast
qed

text \<open>
  So does the reuse of process numbers: if a process takes a dead holder's number between a
  competitor's liveness probe and its compare-and-swap, it finds its own number in the slot and
  binds, and the compare-and-swap still succeeds.
\<close>

theorem pid_reuse_breaks_exclusion:
  "\<exists>s. claims_reach False True s \<and> holds_role s (5, 0) \<and> holds_role s (7, 0)"
proof -
  define s0 where "s0 = claims0\<lparr>slot := 5\<rparr>"
  define s1 where "s1 = goto (7, 0) (BJudge (slot s0)) s0"
  define s2 where "s2 = goto (7, 0) (BSwap 5) s1"
  define s3 where "s3 = s2\<lparr>alive := insert 5 (alive s2)\<rparr>"
  define s4 where "s4 = goto (5, 0) (BJudge (slot s3)) s3"
  define s5 where "s5 = goto (5, 0) BBound s4"
  define s6 where "s6 = goto (7, 0) BBound (s5\<lparr>slot := fst (7 :: i32, 0 :: nat)\<rparr>)"
  have r: "claims_reach False True s0" by (rule claims_reach.init) (auto simp: s0_def claims0_def)
  have t1: "claim_step False True s0 s1"
    unfolding s1_def by (rule claim_step.load) (simp_all add: s0_def claims0_def)
  have t2: "claim_step False True s1 s2"
    unfolding s2_def by (rule claim_step.stale) (simp_all add: s1_def s0_def claims0_def probe_iff)
  have t3: "claim_step False True s2 s3"
    unfolding s3_def by (rule claim_step.starts) (simp_all add: s2_def s1_def s0_def claims0_def)
  have t4: "claim_step False True s3 s4"
    unfolding s4_def by (rule claim_step.load) (simp_all add: s3_def s2_def s1_def s0_def claims0_def)
  have t5: "claim_step False True s4 s5"
    unfolding s5_def by (rule claim_step.own [of _ _ 5]) (simp_all add: s4_def s3_def s2_def s1_def s0_def claims0_def)
  have t6: "claim_step False True s5 s6"
    unfolding s6_def by (rule claim_step.swap [of _ _ 5]) (simp_all add: s5_def s4_def s3_def s2_def s1_def s0_def claims0_def)
  have "claims_reach False True s6"
    by (intro claims_reach.step [OF _ t6] claims_reach.step [OF _ t5] claims_reach.step [OF _ t4]
        claims_reach.step [OF _ t3] claims_reach.step [OF _ t2] claims_reach.step [OF _ t1] r)
  moreover have "holds_role s6 (5, 0)" "holds_role s6 (7, 0)"
    by (simp_all add: holds_role_def s6_def s5_def s4_def s3_def s2_def s1_def s0_def claims0_def)
  ultimately show ?thesis by blast
qed

end
