(* ===== verification/Discipline.thy ===== *)
theory Discipline
  imports Spsc Claim
begin

section \<open>Any number of processes on one queue\<close>

text \<open>
  The claim of the two roles (\<open>Claim\<close>) and the data path (\<open>Spsc\<close>) composed: any number of processes
  attach, compete for the producer and the consumer slot, work, detach and die. Every handle has its own
  cached index, view and point in its current call. The order of \<^verbatim>\<open>bind\<close> (lines 430--467 of
  \<^verbatim>\<open>include/shmspsc/ShmSpscQueue.h\<close>) is kept: the peer's index is loaded first (line 435), the slot is claimed
  afterwards, so others may run in between. A handle that has claimed its slot is synchronised with its
  predecessor (the compare-and-swap acquires the predecessor's release, or the predecessor has died), so
  its view is at least the predecessor's; its cached index is the one it loaded before. A holder may also
  drop a call half-way (\<open>prod_replaced\<close> and \<open>cons_replaced\<close> as steps of its own) and detach at any point.

  \<open>multi\<close> and \<open>reuse\<close> are those of \<open>Claim\<close>. With \<open>overlap\<close>, a newcomer may have loaded an index older than
  the one its predecessor loaded last, which takes a predecessor that worked on while the newcomer was in \<^verbatim>\<open>bind\<close>.
\<close>

datatype 'l use =
    Outside
  | Loaded nat \<comment> \<open>in \<^verbatim>\<open>bind\<close>, past the load of the peer's index: which store it saw\<close>
  | Inside 'l

type_synonym 'a plocal = "queue \<times> nat \<times> 'a ppc"
type_synonym 'a clocal = "queue \<times> nat \<times> 'a cpc"

definition plocal :: "'a conf \<Rightarrow> 'a plocal" where
  "plocal c = (pq c, rview c, ppc c)"

definition clocal :: "'a conf \<Rightarrow> 'a clocal" where
  "clocal c = (cq c, wview c, cpc c)"

definition with_plocal :: "'a plocal \<Rightarrow> 'a conf \<Rightarrow> 'a conf" where
  "with_plocal l c = (case l of (q, v, pc) \<Rightarrow> c\<lparr>rview := v, pq := q, ppc := pc\<rparr>)"

definition with_clocal :: "'a clocal \<Rightarrow> 'a conf \<Rightarrow> 'a conf" where
  "with_clocal l c = (case l of (q, v, pc) \<Rightarrow> c\<lparr>wview := v, cq := q, cpc := pc\<rparr>)"

text \<open>The locals of a handle at the end of \<^verbatim>\<open>bind\<close>, when its load had returned store number \<open>j\<close>.\<close>

definition new_producer :: "nat \<Rightarrow> 'a conf \<Rightarrow> 'a plocal" where
  "new_producer j c = ((pq c)\<lparr>readIdxCache_m := rhist c ! j\<rparr>, max j (rview c), PIdle)"

definition new_consumer :: "nat \<Rightarrow> 'a conf \<Rightarrow> 'a clocal" where
  "new_consumer j c = ((cq c)\<lparr>writeIdxCache_m := whist c ! j\<rparr>, max j (wview c), CIdle)"

record 'a sys =
  pslot :: claims
  puse :: "handle \<Rightarrow> 'a plocal use"
  cslot :: claims
  cuse :: "handle \<Rightarrow> 'a clocal use"
  ring :: "'a conf"

text \<open>A handle that detached, was refused or died is outside again; entering the claim needs the load before it.\<close>

definition leave_out :: "claims \<Rightarrow> claims \<Rightarrow> (handle \<Rightarrow> 'l use) \<Rightarrow> handle \<Rightarrow> 'l use" where
  "leave_out s t u h = (if bpc t h \<noteq> bpc s h \<and> bpc t h \<in> {BOut, BRefused} then Outside else u h)"

definition enters_loaded :: "claims \<Rightarrow> claims \<Rightarrow> (handle \<Rightarrow> 'l use) \<Rightarrow> bool" where
  "enters_loaded s t u \<longleftrightarrow> (\<forall>h. bpc s h \<in> {BOut, BRefused} \<and> bpc t h \<noteq> bpc s h \<and> bpc t h \<noteq> BOut \<longrightarrow> (\<exists>j. u h = Loaded j))"

definition nobody_binds :: "claims \<Rightarrow> claims \<Rightarrow> bool" where
  "nobody_binds s t \<longleftrightarrow> (\<forall>h. bpc t h = BBound \<longrightarrow> bpc s h = BBound)"

inductive sys_step :: "bool \<Rightarrow> bool \<Rightarrow> bool \<Rightarrow> 'a sys \<Rightarrow> 'a sys \<Rightarrow> bool"
  for multi :: bool and reuse :: bool and overlap :: bool where
  p_load: "fst h \<in> alive (pslot s) \<Longrightarrow> multi \<or> snd h = 0 \<Longrightarrow> bpc (pslot s) h \<in> {BOut, BRefused} \<Longrightarrow> j < length (rhist (ring s)) \<Longrightarrow>
    sys_step multi reuse overlap s (s\<lparr>puse := (puse s)(h := Loaded j)\<rparr>)"
| p_claims: "claim_step multi reuse (pslot s) t \<Longrightarrow> alive t = alive (pslot s) \<Longrightarrow> enters_loaded (pslot s) t (puse s) \<Longrightarrow>
    nobody_binds (pslot s) t \<Longrightarrow> sys_step multi reuse overlap s (s\<lparr>pslot := t, puse := leave_out (pslot s) t (puse s)\<rparr>)"
| p_binds: "claim_step multi reuse (pslot s) t \<Longrightarrow> alive t = alive (pslot s) \<Longrightarrow> bpc t h = BBound \<Longrightarrow> bpc (pslot s) h \<noteq> BBound \<Longrightarrow>
    puse s h = Loaded j \<Longrightarrow> overlap \<or> rview (ring s) \<le> j \<Longrightarrow> l = new_producer j (ring s) \<Longrightarrow>
    sys_step multi reuse overlap s (s\<lparr>pslot := t, puse := (puse s)(h := Inside l), ring := with_plocal l (ring s)\<rparr>)"
| p_works: "holds_role (pslot s) h \<Longrightarrow> puse s h = Inside l \<Longrightarrow> prod_step (with_plocal l (ring s)) c \<Longrightarrow>
    sys_step multi reuse overlap s (s\<lparr>puse := (puse s)(h := Inside (plocal c)), ring := c\<rparr>)"
| c_load: "fst h \<in> alive (cslot s) \<Longrightarrow> multi \<or> snd h = 0 \<Longrightarrow> bpc (cslot s) h \<in> {BOut, BRefused} \<Longrightarrow> j < length (whist (ring s)) \<Longrightarrow>
    sys_step multi reuse overlap s (s\<lparr>cuse := (cuse s)(h := Loaded j)\<rparr>)"
| c_claims: "claim_step multi reuse (cslot s) t \<Longrightarrow> alive t = alive (cslot s) \<Longrightarrow> enters_loaded (cslot s) t (cuse s) \<Longrightarrow>
    nobody_binds (cslot s) t \<Longrightarrow> sys_step multi reuse overlap s (s\<lparr>cslot := t, cuse := leave_out (cslot s) t (cuse s)\<rparr>)"
| c_binds: "claim_step multi reuse (cslot s) t \<Longrightarrow> alive t = alive (cslot s) \<Longrightarrow> bpc t h = BBound \<Longrightarrow> bpc (cslot s) h \<noteq> BBound \<Longrightarrow>
    cuse s h = Loaded j \<Longrightarrow> overlap \<or> wview (ring s) \<le> j \<Longrightarrow> l = new_consumer j (ring s) \<Longrightarrow>
    sys_step multi reuse overlap s (s\<lparr>cslot := t, cuse := (cuse s)(h := Inside l), ring := with_clocal l (ring s)\<rparr>)"
| c_works: "holds_role (cslot s) h \<Longrightarrow> cuse s h = Inside l \<Longrightarrow> cons_step (with_clocal l (ring s)) c \<Longrightarrow>
    sys_step multi reuse overlap s (s\<lparr>cuse := (cuse s)(h := Inside (clocal c)), ring := c\<rparr>)"
| processes: "claim_step multi reuse (pslot s) t \<Longrightarrow> claim_step multi reuse (cslot s) u \<Longrightarrow> alive t = alive u \<Longrightarrow> alive t \<noteq> alive (pslot s) \<Longrightarrow>
    sys_step multi reuse overlap s
      (s\<lparr>pslot := t, puse := leave_out (pslot s) t (puse s), cslot := u, cuse := leave_out (cslot s) u (cuse s)\<rparr>)"

text \<open>A queue as \<^verbatim>\<open>create\<close> leaves it, its slots unclaimed, and any set of processes, none of them attached.\<close>

definition sys_init :: "i32 set \<Rightarrow> u64 \<Rightarrow> 'a list \<Rightarrow> 'a sys" where
  "sys_init ps c xs = (let free = \<lparr>slot = 0, alive = ps, bpc = (\<lambda>_. BOut)\<rparr>
     in \<lparr>pslot = free, puse = (\<lambda>_. Outside), cslot = free, cuse = (\<lambda>_. Outside), ring = spsc_init c xs\<rparr>)"

definition sys_reach :: "bool \<Rightarrow> bool \<Rightarrow> bool \<Rightarrow> i32 set \<Rightarrow> u64 \<Rightarrow> 'a list \<Rightarrow> 'a sys \<Rightarrow> bool" where
  "sys_reach multi reuse overlap ps c xs s \<longleftrightarrow> (sys_step multi reuse overlap)\<^sup>*\<^sup>* (sys_init ps c xs) s"

subsection \<open>One handle per role does all the work\<close>

lemma claim_step_one:
  assumes "claim_step m r s t" "alive t = alive s" "bpc t h \<noteq> bpc s h" "g \<noteq> h"
  shows "bpc t g = bpc s g"
  using assms by cases (auto split: if_splits)

lemma claim_step_bound:
  assumes "claim_step m r s t" "bpc s h = BBound"
  shows "bpc t h = BBound \<or> bpc t h = BOut"
  using assms by cases (auto split: if_splits)

lemma claim_inv_unique: "claim_inv s \<Longrightarrow> bpc s h = BBound \<Longrightarrow> bpc s g = BBound \<Longrightarrow> g = h"
  using claim_invD(1,4) [of s h] claim_invD(1,4) [of s g] by (simp add: prod_eq_iff)

text \<open>A handle inside holds the role, and what the ring has as the role's locals are its own.\<close>

definition only_user :: "('c \<Rightarrow> 'l) \<Rightarrow> claims \<Rightarrow> (handle \<Rightarrow> 'l use) \<Rightarrow> 'c \<Rightarrow> bool" where
  "only_user loc s u c \<longleftrightarrow> claim_inv s \<and> (\<forall>h l. u h = Inside l \<longrightarrow> bpc s h = BBound \<and> l = loc c)"

lemma only_userD:
  assumes "only_user loc s u c"
  shows "claim_inv s" "u h = Inside l \<Longrightarrow> bpc s h = BBound" "u h = Inside l \<Longrightarrow> l = loc c"
  using assms unfolding only_user_def by blast+

locale role_locals =
  fixes loc :: "'c \<Rightarrow> 'l" and put :: "'l \<Rightarrow> 'c \<Rightarrow> 'c"
  assumes loc_put: "loc (put l c) = l" and put_loc: "put (loc c) c = c"
begin

lemma user_loads:
  assumes "only_user loc s u c" "bpc s h \<in> {BOut, BRefused}"
  shows "only_user loc s (u(h := Loaded j)) c"
  using assms by (auto simp: only_user_def)

lemma user_claims:
  assumes I: "only_user loc s u c" and st: "claim_step False False s t"
  shows "only_user loc t (leave_out s t u) c"
proof -
  have "bpc t h = BBound \<and> l = loc c" if "leave_out s t u h = Inside l" for h l
    using that only_userD(2,3) [OF I, of h l] claim_step_bound [OF st, of h] by (auto simp: leave_out_def split: if_splits)
  then show ?thesis using claim_inv_step [OF st only_userD(1) [OF I]] by (simp add: only_user_def)
qed

lemma user_binds:
  assumes I: "only_user loc s u c" and st: "claim_step False False s t" "alive t = alive s"
    and new: "bpc t h = BBound" "bpc s h \<noteq> BBound"
  shows "only_user loc t (u(h := Inside l)) (put l c)"
proof -
  note J = claim_inv_step [OF st(1) only_userD(1) [OF I]]
  have "g = h" if "(u(h := Inside l)) g = Inside k" for g k
  proof (rule ccontr)
    assume ne: "g \<noteq> h"
    then have "bpc t g = BBound" using claim_step_one [OF st, of h g] only_userD(2) [OF I, of g k] new that by simp
    then show False using claim_inv_unique [OF J new(1)] ne by blast
  qed
  then show ?thesis using J new(1) unfolding only_user_def by (metis fun_upd_same loc_put use.inject(2))
qed

lemma user_works:
  assumes I: "only_user loc s u c" and h: "u h = Inside l"
  shows "put l c = c" "only_user loc s (u(h := Inside (loc c'))) c'"
proof -
  show "put l c = c" using only_userD(3) [OF I h] by (simp add: put_loc)
  have "g = h" if "u g = Inside k" for g k
    using claim_inv_unique [OF only_userD(1) [OF I], of h g] only_userD(2) [OF I] h that by blast
  then have "bpc s g = BBound \<and> k = loc c'" if "(u(h := Inside (loc c'))) g = Inside k" for g k
    using only_userD(2) [OF I h] that by (metis fun_upd_apply use.inject(2))
  then show "only_user loc s (u(h := Inside (loc c'))) c'" using only_userD(1) [OF I] unfolding only_user_def by blast
qed

lemma user_frame: "only_user loc s u c \<Longrightarrow> loc c' = loc c \<Longrightarrow> only_user loc s u c'"
  by (simp add: only_user_def)

end

interpretation pside: role_locals plocal with_plocal
  by unfold_locales (simp_all add: plocal_def with_plocal_def split: prod.splits)

interpretation cside: role_locals clocal with_clocal
  by unfold_locales (simp_all add: clocal_def with_clocal_def split: prod.splits)

lemma plocal_other [simp]: "plocal (with_clocal l c) = plocal c"
  by (simp add: plocal_def with_clocal_def split: prod.splits)

lemma clocal_other [simp]: "clocal (with_plocal l c) = clocal c"
  by (simp add: clocal_def with_plocal_def split: prod.splits)

lemma cons_step_frame: "cons_step s t \<Longrightarrow> plocal t = plocal s"
  by (induction rule: cons_step.induct) (auto simp: plocal_def)

lemma prod_step_keeps_clocal: "prod_step s t \<Longrightarrow> clocal t = clocal s"
  using prod_step_frame [of s t] by (simp add: clocal_def)

text \<open>A handle that enters with an index no older than its predecessor's is a replacement in \<open>Spsc\<close>.\<close>

lemma new_producer_step: "rview c \<le> j \<Longrightarrow> j < length (rhist c) \<Longrightarrow> prod_step c (with_plocal (new_producer j c) c)"
  using prod_step.prod_replaced [of c j] by (simp add: with_plocal_def new_producer_def max_absorb1)

lemma new_consumer_step: "wview c \<le> j \<Longrightarrow> j < length (whist c) \<Longrightarrow> cons_step c (with_clocal (new_consumer j c) c)"
  using cons_step.cons_replaced [of c j] by (simp add: with_clocal_def new_consumer_def max_absorb1)

text \<open>A loaded store number stays one: stores are only appended.\<close>

definition loads_ok :: "(handle \<Rightarrow> 'l use) \<Rightarrow> nat \<Rightarrow> bool" where
  "loads_ok u n \<longleftrightarrow> (\<forall>h j. u h = Loaded j \<longrightarrow> j < n)"

lemma loads_okD: "loads_ok u n \<Longrightarrow> u h = Loaded j \<Longrightarrow> j < n"
  unfolding loads_ok_def by blast

lemma loads_ok_intros:
  "loads_ok u n \<Longrightarrow> n \<le> n' \<Longrightarrow> loads_ok (leave_out s t u) n'"
  "loads_ok u n \<Longrightarrow> n \<le> n' \<Longrightarrow> loads_ok u n'"
  "loads_ok u n \<Longrightarrow> n \<le> n' \<Longrightarrow> loads_ok (u(h := Inside l)) n'"
  "loads_ok u n \<Longrightarrow> j < n \<Longrightarrow> loads_ok (u(h := Loaded j)) n"
  unfolding loads_ok_def leave_out_def by (metis use.distinct(1) order.strict_trans2, metis order.strict_trans2,
    metis fun_upd_apply use.distinct(5) order.strict_trans2, metis fun_upd_apply use.inject(1))

lemma cons_step_stores: "cons_step s t \<Longrightarrow> whist t = whist s \<and> length (rhist s) \<le> length (rhist t)"
  by (induction rule: cons_step.induct) auto

lemma prod_step_stores: "prod_step s t \<Longrightarrow> rhist t = rhist s \<and> length (whist s) \<le> length (whist t)"
  using prod_step_frame [of s t] by auto

definition sys_inv :: "u64 \<Rightarrow> 'a list \<Rightarrow> 'a sys \<Rightarrow> bool" where
  "sys_inv c xs s \<longleftrightarrow> only_user plocal (pslot s) (puse s) (ring s) \<and> only_user clocal (cslot s) (cuse s) (ring s) \<and>
     loads_ok (puse s) (length (rhist (ring s))) \<and> loads_ok (cuse s) (length (whist (ring s))) \<and> reachable c xs (ring s)"

lemma sys_inv_init: "\<forall>p \<in> ps. 0 < sint p \<Longrightarrow> sys_inv c xs (sys_init ps c xs)"
  by (simp add: sys_inv_def sys_init_def Let_def only_user_def claim_inv_def loads_ok_def reachable.init)

lemma sys_invD:
  assumes "sys_inv c xs s"
  shows "only_user plocal (pslot s) (puse s) (ring s)" "only_user clocal (cslot s) (cuse s) (ring s)"
    "loads_ok (puse s) (length (rhist (ring s)))" "loads_ok (cuse s) (length (whist (ring s)))" "reachable c xs (ring s)"
  using assms by (simp_all add: sys_inv_def)

lemma sys_inv_producer:
  assumes I: "sys_inv c xs s" and st: "prod_step (ring s) d" and u: "only_user plocal sl u d" "loads_ok u (length (rhist (ring s)))"
  shows "sys_inv c xs (s\<lparr>pslot := sl, puse := u, ring := d\<rparr>)"
proof -
  have "reachable c xs d" using sys_invD(5) [OF I] st by (blast intro: reachable.step [unfolded spsc_step_def])
  moreover have "rhist d = rhist (ring s)" "length (whist (ring s)) \<le> length (whist d)" using prod_step_stores [OF st] by simp_all
  ultimately show ?thesis
    using u cside.user_frame [OF sys_invD(2) [OF I] prod_step_keeps_clocal [OF st]] loads_ok_intros(2) [OF sys_invD(4) [OF I]]
    by (simp add: sys_inv_def)
qed

lemma sys_inv_consumer:
  assumes I: "sys_inv c xs s" and st: "cons_step (ring s) d" and u: "only_user clocal sl u d" "loads_ok u (length (whist (ring s)))"
  shows "sys_inv c xs (s\<lparr>cslot := sl, cuse := u, ring := d\<rparr>)"
proof -
  have "reachable c xs d" using sys_invD(5) [OF I] st by (blast intro: reachable.step [unfolded spsc_step_def])
  moreover have "whist d = whist (ring s)" "length (rhist (ring s)) \<le> length (rhist d)" using cons_step_stores [OF st] by simp_all
  ultimately show ?thesis
    using u pside.user_frame [OF sys_invD(1) [OF I] cons_step_frame [OF st]] loads_ok_intros(2) [OF sys_invD(3) [OF I]]
    by (simp add: sys_inv_def)
qed

lemma sys_inv_step:
  assumes "sys_step False False False s t" and I: "sys_inv c xs s"
  shows "sys_inv c xs t"
  using assms(1)
proof cases
  case (p_load h j)
  then show ?thesis
    using I pside.user_loads [OF sys_invD(1) [OF I], of h j] loads_ok_intros(4) [OF sys_invD(3) [OF I]] by (simp add: sys_inv_def)
next
  case (p_claims sl)
  then show ?thesis
    using I pside.user_claims [OF sys_invD(1) [OF I] p_claims(2)] loads_ok_intros(1) [OF sys_invD(3) [OF I]] by (simp add: sys_inv_def)
next
  case (p_binds sl h j l)
  have "prod_step (ring s) (with_plocal l (ring s))"
    unfolding p_binds(8) using p_binds(7) loads_okD [OF sys_invD(3) [OF I] p_binds(6)] by (intro new_producer_step) simp_all
  then show ?thesis unfolding p_binds(1)
    by (rule sys_inv_producer [OF I])
      (rule pside.user_binds [OF sys_invD(1) [OF I] p_binds(2-5)], rule loads_ok_intros(3) [OF sys_invD(3) [OF I] order_refl])
next
  case (p_works h l d)
  note w = pside.user_works [OF sys_invD(1) [OF I] p_works(3)]
  show ?thesis using sys_inv_producer [OF I _ w(2) loads_ok_intros(3) [OF sys_invD(3) [OF I] order_refl], of d] p_works(4)
    unfolding w(1) p_works(1) by simp
next
  case (c_load h j)
  then show ?thesis
    using I cside.user_loads [OF sys_invD(2) [OF I], of h j] loads_ok_intros(4) [OF sys_invD(4) [OF I]] by (simp add: sys_inv_def)
next
  case (c_claims sl)
  then show ?thesis
    using I cside.user_claims [OF sys_invD(2) [OF I] c_claims(2)] loads_ok_intros(1) [OF sys_invD(4) [OF I]] by (simp add: sys_inv_def)
next
  case (c_binds sl h j l)
  have "cons_step (ring s) (with_clocal l (ring s))"
    unfolding c_binds(8) using c_binds(7) loads_okD [OF sys_invD(4) [OF I] c_binds(6)] by (intro new_consumer_step) simp_all
  then show ?thesis unfolding c_binds(1)
    by (rule sys_inv_consumer [OF I])
      (rule cside.user_binds [OF sys_invD(2) [OF I] c_binds(2-5)], rule loads_ok_intros(3) [OF sys_invD(4) [OF I] order_refl])
next
  case (c_works h l d)
  note w = cside.user_works [OF sys_invD(2) [OF I] c_works(3)]
  show ?thesis using sys_inv_consumer [OF I _ w(2) loads_ok_intros(3) [OF sys_invD(4) [OF I] order_refl], of d] c_works(4)
    unfolding w(1) c_works(1) by simp
next
  case (processes sl sl')
  then show ?thesis
    using I pside.user_claims [OF sys_invD(1) [OF I] processes(2)] cside.user_claims [OF sys_invD(2) [OF I] processes(3)]
      loads_ok_intros(1) [OF sys_invD(3) [OF I]] loads_ok_intros(1) [OF sys_invD(4) [OF I]] by (simp add: sys_inv_def)
qed

lemma sys_reach_inv:
  assumes "sys_reach False False False ps c xs s" "\<forall>p \<in> ps. 0 < sint p"
  shows "sys_inv c xs s"
  using assms(1) unfolding sys_reach_def
  by (induction rule: rtranclp_induct) (use sys_inv_init [OF assms(2)] sys_inv_step in blast)+

subsection \<open>Runs\<close>

text \<open>A step of one handle within the claim.\<close>

definition moves_on :: "claims \<Rightarrow> claims \<Rightarrow> handle \<Rightarrow> bool" where
  "moves_on s t h \<longleftrightarrow> alive t = alive s \<and> (\<forall>g. g \<noteq> h \<longrightarrow> bpc t g = bpc s g) \<and> bpc t h \<notin> {BOut, BRefused, BBound}"

lemma moves_on_simps:
  assumes "moves_on s t h" "u h = Loaded j"
  shows "alive t = alive s" "leave_out s t u = u" "enters_loaded s t u" "nobody_binds s t"
  using assms unfolding moves_on_def leave_out_def enters_loaded_def nobody_binds_def by (force, force, metis, force)

text \<open>An undisturbed claim of a free slot by a handle that has loaded its index.\<close>

definition claimed :: "handle \<Rightarrow> claims \<Rightarrow> claims" where
  "claimed h s = goto h BBound (s\<lparr>slot := fst h\<rparr>)"

definition may_claim :: "bool \<Rightarrow> claims \<Rightarrow> handle \<Rightarrow> bool" where
  "may_claim multi s h \<longleftrightarrow> fst h \<in> alive s \<and> (multi \<or> snd h = 0) \<and> bpc s h = BOut \<and> slot s \<noteq> fst h \<and>
     \<not> (0 < sint (slot s) \<and> slot s \<in> alive s)"

lemma claim_steps:
  assumes "may_claim multi s h"
  defines "s1 \<equiv> goto h (BJudge (slot s)) s" and "s2 \<equiv> goto h (BSwap (slot s)) s"
  shows "claim_step multi reuse s s1" "claim_step multi reuse s1 s2" "claim_step multi reuse s2 (claimed h s)"
proof -
  note a = assms(1) [unfolded may_claim_def]
  show "claim_step multi reuse s s1" unfolding s1_def using a by (intro claim_step.load) simp_all
  have "claim_step multi reuse s1 (goto h (BSwap (slot s)) s1)"
    using a by (intro claim_step.stale) (simp_all add: s1_def probe_iff)
  then show "claim_step multi reuse s1 s2" by (simp add: s1_def s2_def goto_def)
  have "claim_step multi reuse s2 (goto h BBound (s2\<lparr>slot := fst h\<rparr>))"
    using a by (intro claim_step.swap [of h s2 "slot s"]) (simp_all add: s2_def)
  then show "claim_step multi reuse s2 (claimed h s)" by (simp add: s2_def claimed_def goto_def)
qed

lemma p_joins:
  assumes c: "may_claim multi (pslot s) h" and u: "puse s h = Loaded j" "overlap \<or> rview (ring s) \<le> j" "l = new_producer j (ring s)"
  shows "(sys_step multi reuse overlap)\<^sup>*\<^sup>* s
           (s\<lparr>pslot := claimed h (pslot s), puse := (puse s)(h := Inside l), ring := with_plocal l (ring s)\<rparr>)"
proof -
  define s1 where "s1 = s\<lparr>pslot := goto h (BJudge (slot (pslot s))) (pslot s)\<rparr>"
  define s2 where "s2 = s\<lparr>pslot := goto h (BSwap (slot (pslot s))) (pslot s)\<rparr>"
  note st = claim_steps [OF c, of reuse]
  have m: "moves_on (pslot s) (pslot s1) h" "moves_on (pslot s1) (pslot s2) h" by (simp_all add: moves_on_def s1_def s2_def)
  have "sys_step multi reuse overlap s s1"
    using sys_step.p_claims [of multi reuse s "pslot s1" overlap] st(1) moves_on_simps [where u = "puse s", OF m(1) u(1)]
    by (simp add: s1_def)
  moreover have "sys_step multi reuse overlap s1 s2"
    using sys_step.p_claims [of multi reuse s1 "pslot s2" overlap] st(2) moves_on_simps [where u = "puse s", OF m(2) u(1)]
    by (simp add: s1_def s2_def)
  moreover have "sys_step multi reuse overlap s2
           (s2\<lparr>pslot := claimed h (pslot s), puse := (puse s2)(h := Inside l), ring := with_plocal l (ring s2)\<rparr>)"
    using st(3) u by (intro sys_step.p_binds [of multi reuse s2 _ h j]) (simp_all add: s2_def claimed_def)
  ultimately show ?thesis
    by (auto simp: s2_def intro: converse_rtranclp_into_rtranclp)
qed

lemma c_joins:
  assumes c: "may_claim multi (cslot s) h" and u: "cuse s h = Loaded j" "overlap \<or> wview (ring s) \<le> j" "l = new_consumer j (ring s)"
  shows "(sys_step multi reuse overlap)\<^sup>*\<^sup>* s
           (s\<lparr>cslot := claimed h (cslot s), cuse := (cuse s)(h := Inside l), ring := with_clocal l (ring s)\<rparr>)"
proof -
  define s1 where "s1 = s\<lparr>cslot := goto h (BJudge (slot (cslot s))) (cslot s)\<rparr>"
  define s2 where "s2 = s\<lparr>cslot := goto h (BSwap (slot (cslot s))) (cslot s)\<rparr>"
  note st = claim_steps [OF c, of reuse]
  have m: "moves_on (cslot s) (cslot s1) h" "moves_on (cslot s1) (cslot s2) h" by (simp_all add: moves_on_def s1_def s2_def)
  have "sys_step multi reuse overlap s s1"
    using sys_step.c_claims [of multi reuse s "cslot s1" overlap] st(1) moves_on_simps [where u = "cuse s", OF m(1) u(1)]
    by (simp add: s1_def)
  moreover have "sys_step multi reuse overlap s1 s2"
    using sys_step.c_claims [of multi reuse s1 "cslot s2" overlap] st(2) moves_on_simps [where u = "cuse s", OF m(2) u(1)]
    by (simp add: s1_def s2_def)
  moreover have "sys_step multi reuse overlap s2
           (s2\<lparr>cslot := claimed h (cslot s), cuse := (cuse s2)(h := Inside l), ring := with_clocal l (ring s2)\<rparr>)"
    using st(3) u by (intro sys_step.c_binds [of multi reuse s2 _ h j]) (simp_all add: s2_def claimed_def)
  ultimately show ?thesis
    by (auto simp: s2_def intro: converse_rtranclp_into_rtranclp)
qed

lemma p_works_run:
  assumes "prod_step\<^sup>*\<^sup>* (ring s) d" "holds_role (pslot s) h" "puse s h = Inside (plocal (ring s))"
  shows "(sys_step multi reuse overlap)\<^sup>*\<^sup>* s (s\<lparr>puse := (puse s)(h := Inside (plocal d)), ring := d\<rparr>)"
  using assms(1)
proof (induction rule: rtranclp_induct)
  case base
  then show ?case using assms(3) by (simp add: fun_upd_idem)
next
  case (step d e)
  have "sys_step multi reuse overlap (s\<lparr>puse := (puse s)(h := Inside (plocal d)), ring := d\<rparr>)
          (s\<lparr>puse := (puse s)(h := Inside (plocal e)), ring := e\<rparr>)"
    using sys_step.p_works [of "s\<lparr>puse := (puse s)(h := Inside (plocal d)), ring := d\<rparr>" h "plocal d" e] assms(2) step(2)
    by (simp add: pside.put_loc)
  then show ?case using step(3) by (rule rtranclp.rtrancl_into_rtrancl [rotated])
qed

lemma c_works_run:
  assumes "cons_step\<^sup>*\<^sup>* (ring s) d" "holds_role (cslot s) h" "cuse s h = Inside (clocal (ring s))"
  shows "(sys_step multi reuse overlap)\<^sup>*\<^sup>* s (s\<lparr>cuse := (cuse s)(h := Inside (clocal d)), ring := d\<rparr>)"
  using assms(1)
proof (induction rule: rtranclp_induct)
  case base
  then show ?case using assms(3) by (simp add: fun_upd_idem)
next
  case (step d e)
  have "sys_step multi reuse overlap (s\<lparr>cuse := (cuse s)(h := Inside (clocal d)), ring := d\<rparr>)
          (s\<lparr>cuse := (cuse s)(h := Inside (clocal e)), ring := e\<rparr>)"
    using sys_step.c_works [of "s\<lparr>cuse := (cuse s)(h := Inside (clocal d)), ring := d\<rparr>" h "clocal d" e] assms(2) step(2)
    by (simp add: cside.put_loc)
  then show ?case using step(3) by (rule rtranclp.rtrancl_into_rtrancl [rotated])
qed

lemma first_read_store:
  assumes "reachable c xs s"
  shows "rhist s ! 0 = 0"
proof -
  have "\<exists>ys. rhist s = 0 # ys"
    using assms
  proof (induction rule: reachable.induct)
    case (step s t)
    have "\<exists>ys. rhist t = rhist s @ ys" if "cons_step s t" using that by (induction rule: cons_step.induct) auto
    then show ?case using step prod_step_frame [of s t] by (auto simp: spsc_step_def)
  qed (simp add: spsc_init_def)
  then show ?thesis by auto
qed

text \<open>A ring of three slots goes once round: two elements pushed, one popped, a third pushed.\<close>

lemma lap_run:
  obtains c1 c2 c3 where "prod_step\<^sup>*\<^sup>* (spsc_init 3 [0, 0, 0 :: nat]) c1" "cons_step\<^sup>*\<^sup>* c1 c2" "prod_step\<^sup>*\<^sup>* c2 c3"
    "last (whist c3) = 0" "last (rhist c3) = 1" "rhist c3 ! 0 = 0" "capacity_m (pq c3) = 3" "length (cells c3) = 3"
    "sent c3 = [10, 11, 12]" "got c3 = [Some 10]" "rview c3 < length (rhist c3)"
proof -
  define c0 :: "nat conf" where "c0 = spsc_init 3 [0, 0, 0]"
  have r0: "reachable 3 [0, 0, 0] c0" unfolding c0_def by (rule reachable.init)
  have v: "rview s < length (rhist s)" "wview s < length (whist s)" if "reachable 3 [0, 0, 0 :: nat] s" for s
    using spsc_invD(2) [OF reachable_inv [OF that sample_geometry]] by (simp_all add: hist_def)
  obtain m1 where p1: "push_n [10, 11] 2 (pq c0) (mem_of sample_block c0) = Inr (2, pq c0, m1)"
    and m1: "m1 = \<lparr>block = sample_block\<lparr>writeIdx := 2, readIdx := 0\<rparr>, slots = [10, 11, 0]\<rparr>"
    by (simp add: c0_def spsc_init_def push_n_def push_n_publish_def freeSlots_def memcpy_def Let_def ShmSpscQueue_def mem_of_def)
  obtain c1 where c1: "prod_step\<^sup>*\<^sup>* c0 c1" "ppc c1 = PIdle" "pq c1 = pq c0" "mem_of sample_block c1 = m1" "sent c1 = [10, 11]" "got c1 = []"
    using push_n_realised [OF _ v(1) [OF r0] _ p1] by (auto simp: c0_def spsc_init_def)
  have f1: "cpc c1 = CIdle" "cq c1 = cq c0" using prod_steps_frame [OF c1(1)] by (simp_all add: c0_def spsc_init_def)
  note r1 = steps_reachable(1) [OF c1(1) r0]
  obtain q2 m2 where p2: "try_pop False 0 (cq c1) (mem_of sample_block c1) = Inr (True, 10, q2, m2)"
    and m2: "m2 = \<lparr>block = sample_block\<lparr>writeIdx := 2, readIdx := 1\<rparr>, slots = [10, 11, 0]\<rparr>"
    by (simp add: f1 c1(4) m1 c0_def spsc_init_def try_pop_def front_def pop_front_def memcpy_def Let_def ShmSpscQueue_def)
  obtain c2 where c2: "cons_step\<^sup>*\<^sup>* c1 c2" "mem_of sample_block c2 = m2" "sent c2 = [10, 11]" "got c2 = [Some 10]"
    using try_pop_realised [OF f1(1) v(2) [OF r1] p2] c1(5,6) by auto
  have f2: "ppc c2 = PIdle" "pq c2 = pq c0"
    using c2(1) c1(2,3) by (induction rule: rtranclp_induct) (auto simp: plocal_def dest!: cons_step_frame)
  note r2 = steps_reachable(2) [OF c2(1) r1]
  obtain q3 m3 where p3: "try_push 12 (pq c2) (mem_of sample_block c2) = Inr (True, q3, m3)"
    and m3: "m3 = \<lparr>block = sample_block\<lparr>writeIdx := 0, readIdx := 1\<rparr>, slots = [10, 11, 12]\<rparr>" "capacity_m q3 = 3"
    by (simp add: f2 c2(2) m2 c0_def spsc_init_def try_push_def memcpy_def Let_def ShmSpscQueue_def)
  obtain c3 where c3: "prod_step\<^sup>*\<^sup>* c2 c3" "pq c3 = q3" "mem_of sample_block c3 = m3" "sent c3 = [10, 11, 12]" "got c3 = [Some 10]"
    using try_push_realised [OF f2(1) v(1) [OF r2] p3] c2(3,4) by auto
  have "last (whist c3) = 0" "last (rhist c3) = 1" "cells c3 = [10, 11, 12]"
    using arg_cong [OF c3(3), of "\<lambda>m. writeIdx (block m)"] arg_cong [OF c3(3), of "\<lambda>m. readIdx (block m)"] arg_cong [OF c3(3), of slots]
    by (simp_all add: m3)
  moreover note r3 = steps_reachable(1) [OF c3(1) r2]
  ultimately show ?thesis using that [OF c1(1) [unfolded c0_def] c2(1) c3(1)] c3 m3 first_read_store [OF r3] v(1) [OF r3] by auto
qed

text \<open>
  A session on that ring: process 8 is in \<^verbatim>\<open>bind\<close> for the producer's role and has loaded the read index; before it
  claims the slot, processes 7 and 9 attach as producer and consumer and work.
\<close>

definition unclaimed :: claims where
  "unclaimed = \<lparr>slot = 0, alive = {7, 8, 9}, bpc = (\<lambda>_. BOut)\<rparr>"

lemma prod_steps_clocal: "prod_step\<^sup>*\<^sup>* s t \<Longrightarrow> clocal t = clocal s"
  by (induction rule: rtranclp_induct) (simp_all add: prod_step_keeps_clocal)

lemma cons_steps_plocal: "cons_step\<^sup>*\<^sup>* s t \<Longrightarrow> plocal t = plocal s"
  by (induction rule: rtranclp_induct) (simp_all add: cons_step_frame)

lemma session_run:
  obtains s where "sys_reach multi reuse overlap {7, 8, 9} 3 [0, 0, 0 :: nat] s" "pslot s = claimed (7, 0) unclaimed"
    "puse s (8, 0) = Loaded 0" "puse s (7, 0) = Inside (plocal (ring s))"
    "last (whist (ring s)) = 0" "last (rhist (ring s)) = 1" "rhist (ring s) ! 0 = 0" "capacity_m (pq (ring s)) = 3" "length (cells (ring s)) = 3"
    "sent (ring s) = [10, 11, 12]" "got (ring s) = [Some 10]"
    "rview (ring s) < length (rhist (ring s))"
proof -
  obtain c1 c2 c3 where c: "prod_step\<^sup>*\<^sup>* (spsc_init 3 [0, 0, 0 :: nat]) c1" "cons_step\<^sup>*\<^sup>* c1 c2" "prod_step\<^sup>*\<^sup>* c2 c3"
    and facts: "last (whist c3) = 0" "last (rhist c3) = 1" "rhist c3 ! 0 = 0" "capacity_m (pq c3) = 3" "length (cells c3) = 3"
      "sent c3 = [10, 11, 12]" "got c3 = [Some 10]" "rview c3 < length (rhist c3)" by (rule lap_run)
  define c0 :: "nat conf" where "c0 = spsc_init 3 [0, 0, 0]"
  have new: "new_producer 0 c0 = plocal c0" "new_consumer 0 c0 = clocal c0"
    by (simp_all add: c0_def spsc_init_def new_producer_def new_consumer_def plocal_def clocal_def ShmSpscQueue_def)
  have views: "rview c0 = 0" "wview c0 = 0" by (simp_all add: c0_def spsc_init_def)
  have locs: "clocal c1 = clocal c0" "plocal c2 = plocal c1" "clocal c3 = clocal c2"
    using prod_steps_clocal [OF c(1)] cons_steps_plocal [OF c(2)] prod_steps_clocal [OF c(3)] by (simp_all add: c0_def)
  define s0 :: "nat sys" where "s0 = sys_init {7, 8, 9} 3 [0, 0, 0]"
  define s1 where "s1 = s0\<lparr>puse := (puse s0)((8, 0) := Loaded 0)\<rparr>"
  define s2 where "s2 = s1\<lparr>puse := (puse s1)((7, 0) := Loaded 0)\<rparr>"
  define s3 where "s3 = s2\<lparr>cuse := (cuse s2)((9, 0) := Loaded 0)\<rparr>"
  define s4 where "s4 = s3\<lparr>pslot := claimed (7, 0) (pslot s3), puse := (puse s3)((7, 0) := Inside (plocal c0)), ring := with_plocal (plocal c0) c0\<rparr>"
  define s5 where "s5 = s4\<lparr>cslot := claimed (9, 0) (cslot s4), cuse := (cuse s4)((9, 0) := Inside (clocal c0)), ring := with_clocal (clocal c0) c0\<rparr>"
  define s6 where "s6 = s5\<lparr>puse := (puse s5)((7, 0) := Inside (plocal c1)), ring := c1\<rparr>"
  define s7 where "s7 = s6\<lparr>cuse := (cuse s6)((9, 0) := Inside (clocal c2)), ring := c2\<rparr>"
  define s8 where "s8 = s7\<lparr>puse := (puse s7)((7, 0) := Inside (plocal c3)), ring := c3\<rparr>"
  note defs = s0_def s1_def s2_def s3_def s4_def s5_def s6_def s7_def s8_def sys_init_def Let_def claimed_def
  let ?R = "(sys_step multi reuse overlap)\<^sup>*\<^sup>*"
  have r0: "ring s0 = c0" "ring s1 = c0" "ring s2 = c0" "ring s3 = c0" "ring s4 = c0" "ring s5 = c0"
    by (simp_all add: defs c0_def [symmetric] pside.put_loc cside.put_loc)
  have "?R s0 s1" unfolding s1_def by (rule r_into_rtranclp, rule sys_step.p_load) (simp_all add: defs spsc_init_def)
  also have "?R s1 s2" unfolding s2_def by (rule r_into_rtranclp, rule sys_step.p_load) (simp_all add: defs spsc_init_def)
  also have "?R s2 s3" unfolding s3_def by (rule r_into_rtranclp, rule sys_step.c_load) (simp_all add: defs spsc_init_def)
  also have "?R s3 s4"
    using p_joins [of multi s3 "(7, 0)" 0 overlap "plocal c0" reuse] unfolding r0
    by (simp add: s4_def views new) (simp add: defs may_claim_def)
  also have "?R s4 s5"
    using c_joins [of multi s4 "(9, 0)" 0 overlap "clocal c0" reuse] unfolding r0
    by (simp add: s5_def views new) (simp add: defs may_claim_def)
  also have "?R s5 s6" unfolding s6_def by (rule p_works_run) (use c(1) in \<open>simp_all add: r0 c0_def [symmetric]\<close>, simp_all add: defs holds_role_def)
  also have "?R s6 s7" unfolding s7_def by (rule c_works_run) (use c(2) in \<open>simp_all add: defs holds_role_def locs\<close>)
  also have "?R s7 s8" unfolding s8_def by (rule p_works_run) (use c(3) in \<open>simp_all add: defs holds_role_def locs\<close>)
  finally have "sys_reach multi reuse overlap {7, 8, 9} 3 [0, 0, 0] s8" by (simp add: sys_reach_def s0_def)
  then show ?thesis
    by (rule that) (simp_all add: facts s8_def, simp_all add: defs unclaimed_def)
qed

text \<open>Process 7 detaches, process 8 claims the slot with the index it had loaded before, and pushes.\<close>

lemma overlap_run:
  obtains s where "sys_reach multi reuse True {7, 8, 9} 3 [0, 0, 0 :: nat] s" "holds_role (pslot s) (8, 0)" "slot (pslot s) = 8"
    "sent (ring s) = [10, 11, 12, 13]" "got (ring s) = [Some 10]" "last (whist (ring s)) = 1" "last (rhist (ring s)) = 1"
proof -
  obtain s where r: "sys_reach multi reuse True {7, 8, 9} 3 [0, 0, 0 :: nat] s" and p: "pslot s = claimed (7, 0) unclaimed"
    "puse s (8, 0) = Loaded 0" and c: "last (whist (ring s)) = 0" "last (rhist (ring s)) = 1" "rhist (ring s) ! 0 = 0"
      "capacity_m (pq (ring s)) = 3" "length (cells (ring s)) = 3" "sent (ring s) = [10, 11, 12]" "got (ring s) = [Some 10]"
      "rview (ring s) < length (rhist (ring s))"
    by (rule session_run)
  define t where "t = goto (7, 0) BOut ((pslot s)\<lparr>slot := - 1\<rparr>)"
  define l where "l = new_producer 0 (ring s)"
  define s1 where "s1 = s\<lparr>pslot := t, puse := leave_out (pslot s) t (puse s)\<rparr>"
  define s2 where "s2 = s1\<lparr>pslot := claimed (8, 0) (pslot s1), puse := (puse s1)((8, 0) := Inside l), ring := with_plocal l (ring s)\<rparr>"
  let ?R = "(sys_step multi reuse True)\<^sup>*\<^sup>*"
  have "claim_step multi reuse (pslot s) t"
    using claim_step.release [of "(7, 0)" "pslot s"] by (simp add: t_def p claimed_def unclaimed_def)
  then have "?R s s1" unfolding s1_def
    by (intro r_into_rtranclp sys_step.p_claims) (auto simp: t_def p claimed_def unclaimed_def enters_loaded_def nobody_binds_def)
  also have "?R s1 s2"
    using p_joins [of multi s1 "(8, 0)" 0 True l reuse] p(2)
    by (simp add: s2_def) (simp add: s1_def t_def l_def p may_claim_def claimed_def unclaimed_def leave_out_def)
  finally have run: "?R s s2" .
  have q: "pq (ring s2) = (pq (ring s))\<lparr>readIdxCache_m := 0\<rparr>" "ppc (ring s2) = PIdle" "rhist (ring s2) = rhist (ring s)"
      "cells (ring s2) = cells (ring s)" "whist (ring s2) = whist (ring s)" "rview (ring s2) = rview (ring s)"
      "sent (ring s2) = sent (ring s)" "got (ring s2) = got (ring s)"
    by (simp_all add: s2_def l_def with_plocal_def new_producer_def c)
  obtain q' m' where push: "try_push 13 (pq (ring s2)) (mem_of sample_block (ring s2)) = Inr (True, q', m')"
    and m': "writeIdx (block m') = 1" "readIdx (block m') = 1"
    using c by (simp add: try_push_def q memcpy_def Let_def)
  have view: "rview (ring s2) < length (rhist (ring s2))" using c(8) by (simp add: q)
  obtain d where d: "prod_step\<^sup>*\<^sup>* (ring s2) d" "mem_of sample_block d = m'" "sent d = [10, 11, 12, 13]" "got d = [Some 10]"
    using try_push_realised [OF q(2) view push] c q by auto
  have "?R s2 (s2\<lparr>puse := (puse s2)((8, 0) := Inside (plocal d)), ring := d\<rparr>)"
    by (rule p_works_run [OF d(1)]) (simp_all add: s2_def s1_def t_def p claimed_def unclaimed_def holds_role_def pside.loc_put)
  then have "sys_reach multi reuse True {7, 8, 9} 3 [0, 0, 0] (s2\<lparr>puse := (puse s2)((8, 0) := Inside (plocal d)), ring := d\<rparr>)"
    using r run unfolding sys_reach_def by (meson rtranclp_trans)
  moreover have "last (whist d) = 1" "last (rhist d) = 1"
    using arg_cong [OF d(2), of "\<lambda>m. writeIdx (block m)"] arg_cong [OF d(2), of "\<lambda>m. readIdx (block m)"] m' by simp_all
  ultimately show ?thesis using that d by (simp add: s2_def s1_def t_def p claimed_def unclaimed_def holds_role_def)
qed

subsection \<open>Properties\<close>

text \<open>
  C4. The roles protect the data path: however many processes attach to one queue, compete for its two
  roles, crash, detach and come back, and however they interleave on release/acquire memory, as long as
  no newcomer binds with an index older than its predecessor's, each side of the ring is only ever
  worked on by one live handle, whose locals are those the ring was left with; so all of them together
  behave as one producer and one consumer: what is popped is a prefix of what is published, nothing
  races, and nothing is accessed out of range.
\<close>

theorem competing_processes_stay_fifo:
  assumes "sys_reach False False False ps c xs s" "\<forall>p \<in> ps. 0 < sint p" "geometry_ok c xs"
  shows "reachable c xs (ring s) \<and> \<not> bad (ring s) \<and> length (got (ring s)) \<le> length (sent (ring s)) \<and>
         length (sent (ring s)) - length (got (ring s)) \<le> unat c - 1 \<and>
         (\<forall>i < length (got (ring s)). got (ring s) ! i = None \<or> got (ring s) ! i = Some (sent (ring s) ! i)) \<and>
         (\<forall>h l. puse s h = Inside l \<longrightarrow> holds_role (pslot s) h \<and> slot (pslot s) = fst h \<and> l = plocal (ring s)) \<and>
         (\<forall>h l. cuse s h = Inside l \<longrightarrow> holds_role (cslot s) h \<and> slot (cslot s) = fst h \<and> l = clocal (ring s))"
proof -
  note I = sys_reach_inv [OF assms(1,2)]
  note i = reachable_inv [OF sys_invD(5) [OF I] assms(3)]
  have user: "holds_role sl h \<and> slot sl = fst h \<and> l = loc c" if "only_user loc sl u c" "u h = Inside l" for loc sl u and c :: "'a conf" and h l
    using only_userD [OF that(1)] claim_invD(1,3) [OF only_userD(1) [OF that(1)], of h] that(2) by (simp add: holds_role_def)
  show ?thesis
    using sys_invD(5) [OF I] spsc_invD(8) [OF i] spsc_invD(3) [OF i] hist_order(1-4) [OF spsc_invD(2) [OF i]]
      user [OF sys_invD(1) [OF I]] user [OF sys_invD(2) [OF I]]
    by (auto simp: data_def)
qed

theorem competing_processes_stay_fifo_witness:
  "\<exists>s. sys_reach False False False {7, 8, 9} 3 [0, 0, 0 :: nat] s \<and> sent (ring s) = [10, 11, 12] \<and> got (ring s) = [Some 10] \<and>
       puse s (8, 0) = Loaded 0 \<and> holds_role (pslot s) (7, 0) \<and> slot (pslot s) = 7 \<and> \<not> bad (ring s)"
proof -
  obtain s where s: "sys_reach False False False {7, 8, 9} 3 [0, 0, 0 :: nat] s" "puse s (8, 0) = Loaded 0"
    "puse s (7, 0) = Inside (plocal (ring s))" "sent (ring s) = [10, 11, 12]" "got (ring s) = [Some 10]" by (rule session_run)
  have pids: "\<forall>p \<in> {7, 8, 9 :: i32}. 0 < sint p" by simp
  have "holds_role (pslot s) (7, 0) \<and> slot (pslot s) = fst (7 :: i32, 0 :: nat) \<and> \<not> bad (ring s)"
    using competing_processes_stay_fifo [OF s(1) pids sample_geometry] s(3) by blast
  then show ?thesis using s unfolding fst_conv by blast
qed

text \<open>
  C5. The proviso is needed, since \<^verbatim>\<open>bind\<close> loads the peer's index before it claims the slot and does not load
  it again: a newcomer that has loaded the read index while another producer is still at work, and claims
  the slot after that producer has gone on past the wrap-around and detached, pushes on the strength of
  the old index into a full ring. Here each process has one handle, no process number is reused and at
  most one producer holds the role at any time; the push succeeds, and three published, unread elements
  are gone: the indices are equal, the queue reads as empty.
\<close>

theorem stale_index_at_bind_loses_elements:
  "\<exists>s. sys_reach False False True {7, 8, 9} 3 [0, 0, 0 :: nat] s \<and> holds_role (pslot s) (8, 0) \<and> slot (pslot s) = 8 \<and>
       sent (ring s) = [10, 11, 12, 13] \<and> got (ring s) = [Some 10] \<and>
       usedSlots (cq (ring s)) (last (whist (ring s))) (last (rhist (ring s))) = 0"
proof -
  obtain s where "sys_reach False False True {7, 8, 9} 3 [0, 0, 0 :: nat] s" "holds_role (pslot s) (8, 0)" "slot (pslot s) = 8"
    "sent (ring s) = [10, 11, 12, 13]" "got (ring s) = [Some 10]" "last (whist (ring s)) = 1" "last (rhist (ring s)) = 1"
    by (rule overlap_run)
  then show ?thesis by (auto simp: usedSlots_def)
qed

text \<open>A second handle of the process that holds the role is let through.\<close>

lemma p_joins_again:
  assumes a: "fst h \<in> alive (pslot s)" "multi \<or> snd h = 0" "bpc (pslot s) h = BOut" "slot (pslot s) = fst h"
    and u: "puse s h = Loaded j" "overlap \<or> rview (ring s) \<le> j" "l = new_producer j (ring s)"
  shows "(sys_step multi reuse overlap)\<^sup>*\<^sup>* s
           (s\<lparr>pslot := goto h BBound (pslot s), puse := (puse s)(h := Inside l), ring := with_plocal l (ring s)\<rparr>)"
proof -
  define s1 where "s1 = s\<lparr>pslot := goto h (BJudge (fst h)) (pslot s)\<rparr>"
  have st: "claim_step multi reuse (pslot s) (pslot s1)"
    using claim_step.load [of h "pslot s" multi reuse] a by (simp add: s1_def)
  have m: "moves_on (pslot s) (pslot s1) h" by (simp add: moves_on_def s1_def)
  have "sys_step multi reuse overlap s s1"
    using sys_step.p_claims [OF st, of overlap] moves_on_simps [where u = "puse s", OF m u(1)] by (simp add: s1_def)
  moreover have "claim_step multi reuse (pslot s1) (goto h BBound (pslot s))"
    using claim_step.own [of h "pslot s1" "fst h" multi reuse] a by (simp add: s1_def goto_def)
  then have "sys_step multi reuse overlap s1
      (s1\<lparr>pslot := goto h BBound (pslot s), puse := (puse s1)(h := Inside l), ring := with_plocal l (ring s1)\<rparr>)"
    using u by (intro sys_step.p_binds [of multi reuse s1 _ h j]) (simp_all add: s1_def)
  ultimately show ?thesis by (auto simp: s1_def intro: converse_rtranclp_into_rtranclp)
qed

text \<open>The end of a push of one element into slot 0.\<close>

lemma push_into_0:
  fixes c :: "'a conf" and v :: 'a
  defines "d \<equiv> c\<lparr>cells := (cells c)[0 := v], wmark := (wmark c)[0 := length (whist c)],
         bad := (bad c \<or> length (cells c) \<le> 0 \<or> rview c < rmark c ! 0)\<rparr>"
  shows "prod_step\<^sup>*\<^sup>* (c\<lparr>ppc := PCopy [(0, v)] [v] 1\<rparr>)
           (d\<lparr>whist := whist c @ [1], ppc := PIdle, wtot := wtot c @ [last (wtot c) + 1], sent := sent c @ [v]\<rparr>)"
proof -
  have "prod_step (c\<lparr>ppc := PCopy [(0, v)] [v] 1\<rparr>) (d\<lparr>ppc := PCopy [] [v] 1\<rparr>)"
    using prod_step.copy_in [of "c\<lparr>ppc := PCopy [(0, v)] [v] 1\<rparr>" 0 v "[]" "[v]" 1] by (simp add: d_def)
  moreover have "prod_step (d\<lparr>ppc := PCopy [] [v] 1\<rparr>)
      (d\<lparr>whist := whist c @ [1], ppc := PIdle, wtot := wtot c @ [last (wtot c) + 1], sent := sent c @ [v]\<rparr>)"
    using prod_step.publish_store [of "d\<lparr>ppc := PCopy [] [v] 1\<rparr>" "[v]" 1] by (simp add: d_def)
  ultimately show ?thesis by (meson converse_rtranclp_into_rtranclp r_into_rtranclp)
qed

text \<open>Two handles of process 7 inside, with the locals of \<open>u\<close> and \<open>v\<close>, taking turns.\<close>

definition two_inside :: "'a sys \<Rightarrow> 'a conf \<Rightarrow> 'a conf \<Rightarrow> 'a conf \<Rightarrow> 'a sys" where
  "two_inside s u v c = s\<lparr>puse := (puse s)((7, 0) := Inside (plocal u), (7, 1) := Inside (plocal v)), ring := c\<rparr>"

lemma two_inside_work:
  assumes "holds_role (pslot s) (7, 0)" "holds_role (pslot s) (7, 1)"
  shows "prod_step (with_plocal (plocal u) c) d \<Longrightarrow> sys_step multi reuse overlap (two_inside s u v c) (two_inside s d v d)"
    "prod_step (with_plocal (plocal v) c) d \<Longrightarrow> sys_step multi reuse overlap (two_inside s u v c) (two_inside s u d d)"
    "prod_step\<^sup>*\<^sup>* c d \<Longrightarrow> (sys_step multi reuse overlap)\<^sup>*\<^sup>* (two_inside s c v c) (two_inside s d v d)"
    "prod_step\<^sup>*\<^sup>* c d \<Longrightarrow> (sys_step multi reuse overlap)\<^sup>*\<^sup>* (two_inside s u c c) (two_inside s u d d)"
proof -
  show one: "sys_step multi reuse overlap (two_inside s u v c) (two_inside s d v d)"
    if "prod_step (with_plocal (plocal u) c) d" for u v c d
    using sys_step.p_works [of "two_inside s u v c" "(7, 0)" "plocal u" d] assms(1) that by (simp add: two_inside_def fun_upd_twist)
  show two: "sys_step multi reuse overlap (two_inside s u v c) (two_inside s u d d)"
    if "prod_step (with_plocal (plocal v) c) d" for u v c d
    using sys_step.p_works [of "two_inside s u v c" "(7, 1)" "plocal v" d] assms(2) that by (simp add: two_inside_def)
  show "(sys_step multi reuse overlap)\<^sup>*\<^sup>* (two_inside s c v c) (two_inside s d v d)" if "prod_step\<^sup>*\<^sup>* c d"
    using that by (induction rule: rtranclp_induct) (rule rtranclp.rtrancl_refl, erule rtranclp.rtrancl_into_rtrancl, rule one, simp add: pside.put_loc)
  show "(sys_step multi reuse overlap)\<^sup>*\<^sup>* (two_inside s u c c) (two_inside s u d d)" if "prod_step\<^sup>*\<^sup>* c d"
    using that by (induction rule: rtranclp_induct) (rule rtranclp.rtrancl_refl, erule rtranclp.rtrancl_into_rtrancl, rule two, simp add: pside.put_loc)
qed

lemma two_handles_join:
  fixes c0 :: "nat conf"
  defines "c0 \<equiv> spsc_init 3 [0, 0, 0]"
  obtains s where "sys_reach True False False {7} 3 [0, 0, 0] (two_inside s c0 c0 c0)"
    "holds_role (pslot s) (7, 0)" "holds_role (pslot s) (7, 1)"
proof -
  have new: "new_producer 0 c0 = plocal c0" "rview c0 = 0"
    by (simp_all add: c0_def new_producer_def plocal_def spsc_init_def ShmSpscQueue_def)
  define s0 :: "nat sys" where "s0 = sys_init {7} 3 [0, 0, 0]"
  define s1 where "s1 = s0\<lparr>puse := (puse s0)((7, 0) := Loaded 0)\<rparr>"
  define s2 where "s2 = s1\<lparr>pslot := claimed (7, 0) (pslot s1), puse := (puse s1)((7, 0) := Inside (plocal c0))\<rparr>"
  define s3 where "s3 = s2\<lparr>puse := (puse s2)((7, 1) := Loaded 0)\<rparr>"
  define s4 where "s4 = s3\<lparr>pslot := goto (7, 1) BBound (pslot s3)\<rparr>"
  note defs = s0_def s1_def s2_def s3_def s4_def sys_init_def Let_def claimed_def
  have r: "ring s0 = c0" "ring s1 = c0" "ring s2 = c0" "ring s3 = c0" by (simp_all add: defs c0_def)
  let ?R = "(sys_step True False False)\<^sup>*\<^sup>*"
  have "?R s0 s1" unfolding s1_def by (rule r_into_rtranclp, rule sys_step.p_load) (simp_all add: defs spsc_init_def)
  also have "?R s1 s2" using p_joins [of True s1 "(7, 0)" 0 False "plocal c0" False]
    by (simp add: s2_def r new pside.put_loc) (simp add: defs may_claim_def c0_def [symmetric])
  also have "?R s2 s3" unfolding s3_def by (rule r_into_rtranclp, rule sys_step.p_load) (simp_all add: defs spsc_init_def)
  also have "?R s3 (two_inside s4 c0 c0 c0)" using p_joins_again [of "(7, 1)" s3 True 0 False "plocal c0" False]
    by (simp add: two_inside_def s4_def r new pside.put_loc) (simp add: defs fun_upd_twist)
  finally have "sys_reach True False False {7} 3 [0, 0, 0] (two_inside s4 c0 c0 c0)" by (simp add: sys_reach_def s0_def)
  then show ?thesis by (rule that) (simp_all add: defs holds_role_def)
qed

text \<open>
  C40. The exception for \<open>re-attach from this same process\<close> (line 449) does not only cost exclusion but data: a
  process whose two handles hold the producer's role at once, pushing alternately, publishes two elements
  of which the ring keeps one; no index was stale and no other process attached as producer.
\<close>

theorem two_handles_of_one_process_lose_elements:
  "\<exists>s. sys_reach True False False {7} 3 [0, 0, 0 :: nat] s \<and> holds_role (pslot s) (7, 0) \<and> holds_role (pslot s) (7, 1) \<and>
       sent (ring s) = [11, 10] \<and> got (ring s) = [] \<and>
       usedSlots (cq (ring s)) (last (whist (ring s))) (last (rhist (ring s))) = 1 \<and> cells (ring s) ! 0 = 10"
proof -
  define c0 :: "nat conf" where "c0 = spsc_init 3 [0, 0, 0]"
  define start where "start v = c0\<lparr>ppc := PCopy [(0, v)] [v] 1\<rparr>" for v
  define c2 where "c2 = c0\<lparr>cells := [11, 0, 0], wmark := [1, 0, 0], whist := [0, 1], wtot := [0, 1], sent := [11]\<rparr>"
  define c3 where "c3 = c2\<lparr>cells := [10, 0, 0], wmark := [2, 0, 0], whist := [0, 1, 1], wtot := [0, 1, 2], sent := [11, 10]\<rparr>"
  note cdefs = c0_def start_def c2_def c3_def spsc_init_def ShmSpscQueue_def
  have put: "with_plocal (plocal c0) (start v) = c0" "with_plocal (plocal (start v)) c2 = c2\<lparr>ppc := PCopy [(0, v)] [v] 1\<rparr>" for v
    by (simp_all add: cdefs with_plocal_def plocal_def)
  have st: "prod_step c0 (start v)" for v
    using prod_step.try_push_cached [of c0 1 v] by (simp add: cdefs next_one_def copy_one_def)
  have p2: "prod_step\<^sup>*\<^sup>* (start 11) c2" using push_into_0 [where c = c0 and v = 11] by (simp add: cdefs)
  have "prod_step\<^sup>*\<^sup>* (with_plocal (plocal (start 10)) c2) c3"
    unfolding put using push_into_0 [where c = c2 and v = 10] by (simp add: cdefs numeral_2_eq_2)
  then obtain e where e: "prod_step (with_plocal (plocal (start 10)) c2) e" "prod_step\<^sup>*\<^sup>* e c3"
    unfolding put by (rule converse_rtranclpE) (simp_all add: cdefs)
  obtain s where s: "sys_reach True False False {7} 3 [0, 0, 0] (two_inside s c0 c0 c0)"
    "holds_role (pslot s) (7, 0)" "holds_role (pslot s) (7, 1)" unfolding c0_def by (rule two_handles_join)
  let ?R = "(sys_step True False False)\<^sup>*\<^sup>*"
  have "?R (two_inside s c0 c0 c0) (two_inside s (start 10) c0 (start 10))"
    by (intro r_into_rtranclp two_inside_work(1) [OF s(2,3)]) (simp add: pside.put_loc st)
  also have "?R \<dots> (two_inside s (start 10) (start 11) (start 11))"
    by (intro r_into_rtranclp two_inside_work(2) [OF s(2,3)]) (simp add: put st)
  also have "?R \<dots> (two_inside s (start 10) c2 c2)" by (rule two_inside_work(4) [OF s(2,3) p2])
  also have "?R \<dots> (two_inside s e c2 e)" by (intro r_into_rtranclp two_inside_work(1) [OF s(2,3)] e(1))
  also have "?R \<dots> (two_inside s c3 c2 c3)" by (rule two_inside_work(3) [OF s(2,3) e(2)])
  finally have "sys_reach True False False {7} 3 [0, 0, 0] (two_inside s c3 c2 c3)" using s(1) by (simp add: sys_reach_def)
  then show ?thesis using s(2,3) by (intro exI [of _ "two_inside s c3 c2 c3"]) (simp add: two_inside_def cdefs usedSlots_def)
qed

end
