(* ===== verification/Bytes.thy ===== *)
theory Bytes
  imports Ring
begin

section \<open>The data path on the bytes of the mapping\<close>

text \<open>
  \<open>Ring\<close> takes the control block as a record and the slots as an array of elements. Here the same operations
  (lines 211--321 of \<^verbatim>\<open>include/shmspsc/ShmSpscQueue.h\<close>) work on what is really there, the bytes of one mapping: the indices are eight
  bytes at their offsets in the control block, slot \<open>i\<close> is \<^verbatim>\<open>sizeof(T)\<close> bytes at \<open>base + i * sizeof(T)\<close> where
  \<open>base\<close> is the distance from \<^verbatim>\<open>ctrl_\<close> to \<^verbatim>\<open>slots_\<close>, and every \<^verbatim>\<open>memcpy\<close> has the byte count the code computes in 64 bits.
  Reading block and slots off the bytes maps each operation to that of \<open>Ring\<close>.
\<close>

type_synonym bytes = "8 word list"

subsection \<open>Loads and stores of an index\<close>

definition load_idx :: "binary \<Rightarrow> string \<Rightarrow> bytes \<Rightarrow> u64" where
  "load_idx b f bs = of_nat (read_field (kCacheLine b) f 8 bs)"

definition store_idx :: "binary \<Rightarrow> string \<Rightarrow> u64 \<Rightarrow> bytes \<Rightarrow> bytes" where
  "store_idx b f v bs = (case offsets_of_block (kCacheLine b) f of None \<Rightarrow> bs | Some off \<Rightarrow> splice bs off (le_bytes 8 (unat v)))"

text \<open>The address of slot \<open>i\<close>, relative to the start of the mapping.\<close>

definition slot_at :: "binary \<Rightarrow> nat \<Rightarrow> u64 \<Rightarrow> nat" where
  "slot_at b base i = base + unat i * unat (sizeof_T b)"

subsection \<open>The operations\<close>

text \<open>The element, the source and the destination are the caller's bytes.\<close>

definition raw_try_push :: "binary \<Rightarrow> nat \<Rightarrow> bytes \<Rightarrow> queue \<Rightarrow> bytes \<Rightarrow> fault + bool \<times> queue \<times> bytes" where
  "raw_try_push b base v q bs =
     (let w = load_idx b ''writeIdx'' bs;
          next = w + 1;
          next = (if next = capacity_m q then 0 else next);
          publish = (\<lambda>q. bindE (memcpy bs (slot_at b base w) v 0 (unat (sizeof_T b)))
                       (\<lambda>bs. Inr (True, q, store_idx b ''writeIdx'' next bs)))
      in if next = readIdxCache_m q
         then let q = q\<lparr>readIdxCache_m := load_idx b ''readIdx'' bs\<rparr>
              in if next = readIdxCache_m q then Inr (False, q, bs) else publish q
         else publish q)"

definition raw_push_n_publish ::
  "binary \<Rightarrow> nat \<Rightarrow> bytes \<Rightarrow> u64 \<Rightarrow> u64 \<Rightarrow> u64 \<Rightarrow> queue \<Rightarrow> bytes \<Rightarrow> fault + u64 \<times> queue \<times> bytes" where
  "raw_push_n_publish b base src n w free q bs =
     (let count = min n free;
          first = min count (capacity_m q - w)
      in bindE (memcpy bs (slot_at b base w) src 0 (unat (first * sizeof_T b)))
           (\<lambda>bs1. bindE (if count > first
                         then memcpy bs1 (slot_at b base 0) src (slot_at b 0 first) (unat ((count - first) * sizeof_T b))
                         else Inr bs1)
             (\<lambda>bs2. let next = w + count;
                       next = (if next \<ge> capacity_m q then next - capacity_m q else next)
                   in Inr (count, q, store_idx b ''writeIdx'' next bs2))))"

definition raw_push_n :: "binary \<Rightarrow> nat \<Rightarrow> bytes \<Rightarrow> u64 \<Rightarrow> queue \<Rightarrow> bytes \<Rightarrow> fault + u64 \<times> queue \<times> bytes" where
  "raw_push_n b base src n q bs =
     (if n = 0 then Inr (0, q, bs)
      else
        let w = load_idx b ''writeIdx'' bs;
            free = freeSlots q w (readIdxCache_m q)
        in if free < n
           then let q = q\<lparr>readIdxCache_m := load_idx b ''readIdx'' bs\<rparr>;
                    free = freeSlots q w (readIdxCache_m q)
                in if free = 0 then Inr (0, q, bs) else raw_push_n_publish b base src n w free q bs
           else raw_push_n_publish b base src n w free q bs)"

definition raw_front :: "binary \<Rightarrow> queue \<Rightarrow> bytes \<Rightarrow> u64 option \<times> queue" where
  "raw_front b q bs =
     (let r = load_idx b ''readIdx'' bs in
      if r = writeIdxCache_m q
      then let q = q\<lparr>writeIdxCache_m := load_idx b ''writeIdx'' bs\<rparr>
           in if r = writeIdxCache_m q then (None, q) else (Some r, q)
      else (Some r, q))"

definition raw_pop_front :: "binary \<Rightarrow> bool \<Rightarrow> queue \<Rightarrow> bytes \<Rightarrow> fault + bytes" where
  "raw_pop_front b ndebug q bs =
     (let r = load_idx b ''readIdx'' bs in
      if \<not> ndebug \<and> load_idx b ''writeIdx'' bs = r then Inl AssertFailed
      else
        let next = r + 1;
            next = (if next = capacity_m q then 0 else next)
        in Inr (store_idx b ''readIdx'' next bs))"

definition raw_try_pop :: "binary \<Rightarrow> nat \<Rightarrow> bool \<Rightarrow> bytes \<Rightarrow> queue \<Rightarrow> bytes \<Rightarrow> fault + bool \<times> bytes \<times> queue \<times> bytes" where
  "raw_try_pop b base ndebug out q bs =
     (case raw_front b q bs of
        (None, q) \<Rightarrow> Inr (False, out, q, bs)
      | (Some p, q) \<Rightarrow>
          bindE (memcpy out 0 bs (slot_at b base p) (unat (sizeof_T b)))
            (\<lambda>out. bindE (raw_pop_front b ndebug q bs) (\<lambda>bs. Inr (True, out, q, bs))))"

definition raw_pop_n_consume ::
  "binary \<Rightarrow> nat \<Rightarrow> bytes \<Rightarrow> u64 \<Rightarrow> u64 \<Rightarrow> u64 \<Rightarrow> queue \<Rightarrow> bytes \<Rightarrow> fault + u64 \<times> bytes \<times> queue \<times> bytes" where
  "raw_pop_n_consume b base dst n r avail q bs =
     (let count = min n avail;
          first = min count (capacity_m q - r)
      in bindE (memcpy dst 0 bs (slot_at b base r) (unat (first * sizeof_T b)))
           (\<lambda>d1. bindE (if count > first
                        then memcpy d1 (slot_at b 0 first) bs (slot_at b base 0) (unat ((count - first) * sizeof_T b))
                        else Inr d1)
             (\<lambda>d2. let next = r + count;
                       next = (if next \<ge> capacity_m q then next - capacity_m q else next)
                   in Inr (count, d2, q, store_idx b ''readIdx'' next bs))))"

definition raw_pop_n :: "binary \<Rightarrow> nat \<Rightarrow> bytes \<Rightarrow> u64 \<Rightarrow> queue \<Rightarrow> bytes \<Rightarrow> fault + u64 \<times> bytes \<times> queue \<times> bytes" where
  "raw_pop_n b base dst n q bs =
     (if n = 0 then Inr (0, dst, q, bs)
      else
        let r = load_idx b ''readIdx'' bs;
            avail = usedSlots q (writeIdxCache_m q) r
        in if avail < n
           then let q = q\<lparr>writeIdxCache_m := load_idx b ''writeIdx'' bs\<rparr>;
                    avail = usedSlots q (writeIdxCache_m q) r
                in if avail = 0 then Inr (0, dst, q, bs) else raw_pop_n_consume b base dst n r avail q bs
           else raw_pop_n_consume b base dst n r avail q bs)"

subsection \<open>The array of elements in the bytes\<close>

text \<open>
  The array of \<open>n\<close> elements of \<open>L\<close> bytes each behind offset \<open>base\<close>; \<open>f\<close> reads one element. In a caller's buffer
  \<open>base\<close> is zero.
\<close>

definition elems_at :: "nat \<Rightarrow> (8 word list \<Rightarrow> 'a) \<Rightarrow> nat \<Rightarrow> nat \<Rightarrow> 8 word list \<Rightarrow> 'a list" where
  "elems_at L f base n bs = map (\<lambda>i. f (take L (drop (base + i * L) bs))) [0..<n]"

text \<open>
  What a process with the same layout reads in the bytes: the control block, and \<open>n\<close> slots behind \<open>base\<close>.
\<close>

definition view_of :: "binary \<Rightarrow> (bytes \<Rightarrow> 'a) \<Rightarrow> nat \<Rightarrow> nat \<Rightarrow> bytes \<Rightarrow> 'a shm" where
  "view_of b f base n bs = \<lparr>block = decode_block (kCacheLine b) bs, slots = elems_at (unat (sizeof_T b)) f base n bs\<rparr>"

subsection \<open>Copies of bytes and copies of elements\<close>

lemma take_drop_splice_before:
  assumes "p + L \<le> d" "d + length ys \<le> length xs"
  shows "take L (drop p (splice xs d ys)) = take L (drop p xs)"
  using assms by (intro nth_equalityI) (auto simp: nth_splice)

lemma take_drop_splice_after:
  assumes "d + length ys \<le> p" "d + length ys \<le> length xs"
  shows "take L (drop p (splice xs d ys)) = take L (drop p xs)"
  using assms by (intro nth_equalityI) (auto simp: nth_splice)

lemma take_drop_splice_inside:
  assumes "p + L \<le> length ys" "d + length ys \<le> length xs"
  shows "take L (drop (d + p) (splice xs d ys)) = take L (drop p ys)"
  using assms by (intro nth_equalityI) (auto simp: nth_splice)

lemma length_elems_at [simp]: "length (elems_at L f base n bs) = n"
  by (simp add: elems_at_def)

lemma nth_elems_at: "i < n \<Longrightarrow> elems_at L f base n bs ! i = f (take L (drop (base + i * L) bs))"
  by (simp add: elems_at_def)

text \<open>The array after a blk of \<open>k\<close> elements taken from another array has been copied over it.\<close>

lemma elems_at_splice:
  assumes dst: "length dst = bd + nd * L" "d + k \<le> nd" and src: "length src = bs + ns * L" "s + k \<le> ns"
  defines "blk \<equiv> take (k * L) (drop (bs + s * L) src)"
  shows "elems_at L f bd nd (splice dst (bd + d * L) blk) = splice (elems_at L f bd nd dst) d (take k (drop s (elems_at L f bs ns src)))"
proof (rule nth_equalityI)
  have "(s + k) * L \<le> ns * L" "(d + k) * L \<le> nd * L" using src(2) dst(2) by (simp_all add: mult_le_mono1)
  then have len: "length blk = k * L" and fit: "bd + d * L + length blk \<le> length dst"
    using src(1) dst(1) by (simp_all add: blk_def add_mult_distrib)
  show "length (elems_at L f bd nd (splice dst (bd + d * L) blk)) =
      length (splice (elems_at L f bd nd dst) d (take k (drop s (elems_at L f bs ns src))))" using dst(2) src(2) by simp
  fix i assume "i < length (elems_at L f bd nd (splice dst (bd + d * L) blk))"
  then have i: "i < nd" by simp
  show "elems_at L f bd nd (splice dst (bd + d * L) blk) ! i =
      splice (elems_at L f bd nd dst) d (take k (drop s (elems_at L f bs ns src))) ! i"
  proof (cases "d \<le> i \<and> i < d + k")
    case True
    then obtain j where j: "i = d + j" "j < k" by (metis add_less_cancel_left le_Suc_ex)
    then have p: "bd + i * L = bd + d * L + j * L" "j * L + L \<le> k * L"
      using mult_le_mono1 [of "Suc j" k L] by (simp_all add: add_mult_distrib add.commute)
    then have "take L (drop (bd + i * L) (splice dst (bd + d * L) blk)) = take L (drop (j * L) blk)"
      using take_drop_splice_inside [of "j * L" L blk "bd + d * L" dst] len fit by (simp add: add.assoc)
    also have "\<dots> = take L (drop (bs + (s + j) * L) src)"
      using p(2) by (simp add: blk_def drop_take min_def add_mult_distrib add.commute add.left_commute)
    finally show ?thesis using j i src(2) dst(2) by (simp add: nth_elems_at nth_splice)
  next
    case False
    then have "bd + i * L + L \<le> bd + d * L \<or> bd + d * L + length blk \<le> bd + i * L"
      using mult_le_mono1 [of "Suc i" d L] mult_le_mono1 [of "d + k" i L] len by (auto simp: add_mult_distrib not_le)
    then have "take L (drop (bd + i * L) (splice dst (bd + d * L) blk)) = take L (drop (bd + i * L) dst)"
      using take_drop_splice_before take_drop_splice_after fit by blast
    then show ?thesis using False i src(2) dst(2) by (auto simp: nth_elems_at nth_splice)
  qed
qed

lemma memcpy_bytes_refines_elements:
  assumes "0 < L" "length dst = bd + nd * L" "length src = bs + ns * L"
  shows "case memcpy (elems_at L f bd nd dst) d (elems_at L f bs ns src) s k of
           Inl e \<Rightarrow> memcpy dst (bd + d * L) src (bs + s * L) (k * L) = Inl e
         | Inr ys \<Rightarrow> \<exists>dst'. memcpy dst (bd + d * L) src (bs + s * L) (k * L) = Inr dst' \<and> elems_at L f bd nd dst' = ys \<and>
             length dst' = length dst \<and> take bd dst' = take bd dst"
proof -
  have fits: "base + d * L + k * L \<le> base + n * L \<longleftrightarrow> d + k \<le> n" for base d n :: nat
    using mult_le_cancel2 [of "d + k" L n] assms(1) by (simp add: add_mult_distrib)
  show ?thesis
  proof (cases "d + k \<le> nd \<and> s + k \<le> ns")
    case False
    then show ?thesis using fits [of bd d nd] fits [of bs s ns] assms(2,3) by (auto simp: memcpy_def)
  next
    case True
    define blk where "blk = take (k * L) (drop (bs + s * L) src)"
    have b: "bd + d * L + k * L \<le> length dst" "bs + s * L + k * L \<le> length src"
      using True fits assms(2,3) by simp_all
    then have len: "length blk = k * L" by (simp add: blk_def)
    have "memcpy dst (bd + d * L) src (bs + s * L) (k * L) = Inr (splice dst (bd + d * L) blk)"
      unfolding blk_def by (rule memcpy_ok [OF b])
    moreover have "memcpy (elems_at L f bd nd dst) d (elems_at L f bs ns src) s k =
        Inr (splice (elems_at L f bd nd dst) d (take k (drop s (elems_at L f bs ns src))))"
      using True by (intro memcpy_ok) simp_all
    moreover have "take bd (splice dst (bd + d * L) blk) = take bd dst"
      using take_drop_splice_before [of 0 bd "bd + d * L" blk dst] b(1) len by simp
    ultimately show ?thesis
      using elems_at_splice [OF assms(2) _ assms(3), of d k s f] True b(1) len by (simp add: blk_def)
  qed
qed


subsection \<open>Reading a mapping\<close>

text \<open>
  A mapping with room for the control block below \<open>base\<close> and \<open>n\<close> whole slots from there to its end.
\<close>

definition mapped :: "binary \<Rightarrow> nat \<Rightarrow> nat \<Rightarrow> bytes \<Rightarrow> bool" where
  "mapped b base n bs \<longleftrightarrow> binary_ok b \<and> 4 * kCacheLine b \<le> base \<and> length bs = base + n * unat (sizeof_T b) \<and> length bs < 2 ^ 64"

lemma view_of_idx [simp]:
  "writeIdx (block (view_of b f base n bs)) = load_idx b ''writeIdx'' bs"
  "readIdx (block (view_of b f base n bs)) = load_idx b ''readIdx'' bs"
  "slots (view_of b f base n bs) = elems_at (unat (sizeof_T b)) f base n bs"
  by (simp_all add: view_of_def decode_block_def load_idx_def)

lemma mapped_line:
  assumes "mapped b base n bs"
  shows "56 < kCacheLine b" "8 dvd kCacheLine b" "0 < unat (sizeof_T b)"
  using assms by (simp_all add: mapped_def binary_ok_def word_less_nat_alt)

lemma offsets_idx:
  assumes "mapped b base n bs"
  shows "offsets_of_block (kCacheLine b) ''writeIdx'' = Some (kCacheLine b)"
    "offsets_of_block (kCacheLine b) ''readIdx'' = Some (2 * kCacheLine b)"
  using block_places [OF mapped_line(1,2) [OF assms]] by (simp_all add: offsets_of_block_def)

text \<open>The block lies below \<open>base\<close>.\<close>

lemma decode_block_below:
  assumes line: "56 < line" "8 dvd line" "4 * line \<le> base" and same: "take base bs' = take base bs"
  shows "decode_block line bs' = decode_block line bs"
proof -
  have at: "take sz (drop off bs') = take sz (drop off bs)" if "off + sz \<le> base" for off sz
  proof -
    have "take sz (drop off xs) = take sz (drop off (take base xs))" for xs :: bytes
      using that by (simp add: drop_take min_def)
    then show ?thesis using same by metis
  qed
  have "sz \<le> base \<Longrightarrow> take sz bs' = take sz bs" for sz using at [of 0] by simp
  then show ?thesis
    using block_places [OF line(1,2)] line(1,3) by (simp add: decode_block_def read_field_def offsets_of_block_def at)
qed

text \<open>A store of an index changes that index and nothing else.\<close>

lemma decode_block_store:
  assumes line: "56 < line" "8 dvd line" "4 * line \<le> length bs"
  shows "decode_block line (splice bs line (le_bytes 8 (unat (v :: u64)))) = (decode_block line bs)\<lparr>writeIdx := v\<rparr>"
    "decode_block line (splice bs (2 * line) (le_bytes 8 (unat v))) = (decode_block line bs)\<lparr>readIdx := v\<rparr>"
proof -
  have before: "take sz (drop off (splice bs p (le_bytes 8 (unat v)))) = take sz (drop off bs)" if "off + sz \<le> p" "p + 8 \<le> 4 * line" for off sz p
    using take_drop_splice_before [of off sz p "le_bytes 8 (unat v)" bs] that line(3) by simp
  then have first: "take sz (splice bs p (le_bytes 8 (unat v))) = take sz bs" if "sz \<le> p" "p + 8 \<le> 4 * line" for sz p
    using that by (metis add_0 drop0)
  have after: "take sz (drop off (splice bs p (le_bytes 8 (unat v)))) = take sz (drop off bs)" if "p + 8 \<le> off" "p + 8 \<le> 4 * line" for off sz p
    using take_drop_splice_after [of p "le_bytes 8 (unat v)" off bs sz] that line(3) by simp
  have there: "take 8 (drop p (splice bs p (le_bytes 8 (unat v)))) = le_bytes 8 (unat v)" if "p + 8 \<le> 4 * line" for p
    using take_drop_splice_inside [of 0 8 "le_bytes 8 (unat v)" p bs] that line(3) by simp
  show "decode_block line (splice bs line (le_bytes 8 (unat v))) = (decode_block line bs)\<lparr>writeIdx := v\<rparr>"
    "decode_block line (splice bs (2 * line) (le_bytes 8 (unat v))) = (decode_block line bs)\<lparr>readIdx := v\<rparr>"
    using block_places [OF line(1,2)] line(1)
    by (simp_all add: decode_block_def read_field_def offsets_of_block_def before first after there)
qed

lemma elems_at_below:
  assumes "p + length ys \<le> base" "base \<le> length bs"
  shows "elems_at L f base n (splice bs p ys) = elems_at L f base n bs"
  unfolding elems_at_def using assms by (auto intro!: map_cong arg_cong [where f = f] take_drop_splice_after)

lemma store_view:
  assumes "mapped b base n bs"
  shows "view_of b f base n (store_idx b ''writeIdx'' v bs) = (let m = view_of b f base n bs in m\<lparr>block := (block m)\<lparr>writeIdx := v\<rparr>\<rparr>)"
    "view_of b f base n (store_idx b ''readIdx'' v bs) = (let m = view_of b f base n bs in m\<lparr>block := (block m)\<lparr>readIdx := v\<rparr>\<rparr>)"
    "length (store_idx b ''writeIdx'' v bs) = length bs" "length (store_idx b ''readIdx'' v bs) = length bs"
proof -
  note line = mapped_line [OF assms]
  have len: "4 * kCacheLine b \<le> length bs" "4 * kCacheLine b \<le> base" "base \<le> length bs" using assms by (simp_all add: mapped_def)
  show "view_of b f base n (store_idx b ''writeIdx'' v bs) = (let m = view_of b f base n bs in m\<lparr>block := (block m)\<lparr>writeIdx := v\<rparr>\<rparr>)"
    "view_of b f base n (store_idx b ''readIdx'' v bs) = (let m = view_of b f base n bs in m\<lparr>block := (block m)\<lparr>readIdx := v\<rparr>\<rparr>)"
    using line len decode_block_store [OF line(1,2) len(1), of v]
    by (simp_all add: view_of_def store_idx_def offsets_idx [OF assms] elems_at_below Let_def)
  show "length (store_idx b ''writeIdx'' v bs) = length bs" "length (store_idx b ''readIdx'' v bs) = length bs"
    using line len by (simp_all add: store_idx_def offsets_idx [OF assms] splice_def)
qed

text \<open>Copies into the slots and out of them.\<close>

lemma copy_in:
  assumes m: "mapped b base n bs" and src: "length src = k * unat (sizeof_T b)"
  shows "case memcpy (elems_at (unat (sizeof_T b)) f base n bs) d (elems_at (unat (sizeof_T b)) f 0 k src) s c of
      Inl e \<Rightarrow> memcpy bs (base + d * unat (sizeof_T b)) src (s * unat (sizeof_T b)) (c * unat (sizeof_T b)) = Inl e
    | Inr ys \<Rightarrow> \<exists>bs'. memcpy bs (base + d * unat (sizeof_T b)) src (s * unat (sizeof_T b)) (c * unat (sizeof_T b)) = Inr bs' \<and>
        view_of b f base n bs' = (view_of b f base n bs)\<lparr>slots := ys\<rparr> \<and> mapped b base n bs' \<and> length bs' = length bs"
proof -
  note line = mapped_line [OF m]
  have len: "length bs = base + n * unat (sizeof_T b)" "length src = 0 + k * unat (sizeof_T b)" "4 * kCacheLine b \<le> base"
    using m src by (simp_all add: mapped_def)
  have blk: "decode_block (kCacheLine b) bs' = decode_block (kCacheLine b) bs" if "take base bs' = take base bs" for bs'
    by (rule decode_block_below [OF line(1,2) len(3) that])
  note refines = memcpy_bytes_refines_elements [OF line(3) len(1,2), where f = f and d = d and s = s and k = c, unfolded add_0]
  show ?thesis
  proof (cases "memcpy (elems_at (unat (sizeof_T b)) f base n bs) d (elems_at (unat (sizeof_T b)) f 0 k src) s c")
    case (Inl e)
    then show ?thesis using refines by simp
  next
    case (Inr ys)
    from refines [unfolded Inr sum.case] obtain bs' where
      "memcpy bs (base + d * unat (sizeof_T b)) src (s * unat (sizeof_T b)) (c * unat (sizeof_T b)) = Inr bs'"
      "elems_at (unat (sizeof_T b)) f base n bs' = ys" "length bs' = length bs" "take base bs' = take base bs" by blast
    moreover from this have "view_of b f base n bs' = (view_of b f base n bs)\<lparr>slots := ys\<rparr>" using blk [of bs'] by (simp add: view_of_def)
    moreover have "mapped b base n bs'" using m \<open>length bs' = length bs\<close> by (simp add: mapped_def)
    ultimately show ?thesis unfolding Inr sum.case by blast
  qed
qed

lemma copy_out:
  assumes m: "mapped b base n bs" and dst: "length dst = k * unat (sizeof_T b)"
  shows "case memcpy (elems_at (unat (sizeof_T b)) f 0 k dst) d (elems_at (unat (sizeof_T b)) f base n bs) s c of
      Inl e \<Rightarrow> memcpy dst (d * unat (sizeof_T b)) bs (base + s * unat (sizeof_T b)) (c * unat (sizeof_T b)) = Inl e
    | Inr ys \<Rightarrow> \<exists>dst'. memcpy dst (d * unat (sizeof_T b)) bs (base + s * unat (sizeof_T b)) (c * unat (sizeof_T b)) = Inr dst' \<and>
        elems_at (unat (sizeof_T b)) f 0 k dst' = ys \<and> length dst' = length dst"
proof -
  have len: "length bs = base + n * unat (sizeof_T b)" "length dst = 0 + k * unat (sizeof_T b)"
    using m dst by (simp_all add: mapped_def)
  show ?thesis
    using memcpy_bytes_refines_elements [OF mapped_line(3) [OF m] len(2,1), where f = f and d = d and s = s and k = c]
    by (cases "memcpy (elems_at (unat (sizeof_T b)) f 0 k dst) d (elems_at (unat (sizeof_T b)) f base n bs) s c") auto
qed

text \<open>A byte count for elements that fit in the mapping does not wrap around.\<close>

lemma scaled:
  assumes "mapped b base n bs" "unat x \<le> n"
  shows "unat (x * sizeof_T b) = unat x * unat (sizeof_T b)"
proof -
  have "unat x * unat (sizeof_T b) \<le> length bs" using assms(1) mult_le_mono1 [OF assms(2), of "unat (sizeof_T b)"] unfolding mapped_def by linarith
  then show ?thesis using assms(1) by (simp add: unat_word_ariths(2) mapped_def)
qed

lemma one_elem: "length v = L \<Longrightarrow> elems_at L f 0 1 v = [f v]"
  by (simp add: elems_at_def)


subsection \<open>Each operation on the bytes is the operation on the elements\<close>

text \<open>
  The outcome on the bytes against the outcome on what they show: the same fault, or the same result and
  handle and bytes that show the new state, the mapping as long as it was.
\<close>

definition push_as :: "binary \<Rightarrow> (bytes \<Rightarrow> 'a) \<Rightarrow> nat \<Rightarrow> nat \<Rightarrow> fault + 'r \<times> queue \<times> bytes \<Rightarrow> fault + 'r \<times> queue \<times> 'a shm \<Rightarrow> bool" where
  "push_as b f base n raw spec \<longleftrightarrow> (case spec of
       Inl e \<Rightarrow> raw = Inl e
     | Inr (r, q, m) \<Rightarrow> \<exists>bs. raw = Inr (r, q, bs) \<and> view_of b f base n bs = m \<and> mapped b base n bs)"

definition pop_as :: "binary \<Rightarrow> (bytes \<Rightarrow> 'a) \<Rightarrow> nat \<Rightarrow> nat \<Rightarrow> (bytes \<Rightarrow> 'o) \<Rightarrow> nat \<Rightarrow>
    fault + 'r \<times> bytes \<times> queue \<times> bytes \<Rightarrow> fault + 'r \<times> 'o \<times> queue \<times> 'a shm \<Rightarrow> bool" where
  "pop_as b f base n shows_out len raw spec \<longleftrightarrow> (case spec of
       Inl e \<Rightarrow> raw = Inl e
     | Inr (r, x, q, m) \<Rightarrow> \<exists>out bs. raw = Inr (r, out, q, bs) \<and> shows_out out = x \<and> length out = len \<and>
         view_of b f base n bs = m \<and> mapped b base n bs)"

lemma mapped_store: "mapped b base n bs \<Longrightarrow> mapped b base n (store_idx b ''writeIdx'' v bs)"
  "mapped b base n bs \<Longrightarrow> mapped b base n (store_idx b ''readIdx'' v bs)"
  using store_view(3,4) [of b base n bs v] by (simp_all add: mapped_def)

lemma raw_try_push_as:
  assumes m: "mapped b base n bs" and v: "length v = unat (sizeof_T b)"
  shows "push_as b f base n (raw_try_push b base v q bs) (try_push (f v) q (view_of b f base n bs))"
proof -
  have v1: "length v = 1 * unat (sizeof_T b)" using v by simp
  define w where "w = load_idx b ''writeIdx'' bs"
  have publish: "push_as b f base n (bindE (memcpy bs (slot_at b base w) v 0 (unat (sizeof_T b))) (\<lambda>bs. Inr (True, q', store_idx b ''writeIdx'' nx bs)))
      (bindE (memcpy (elems_at (unat (sizeof_T b)) f base n bs) (unat w) [f v] 0 1)
        (\<lambda>s. Inr (True, q', (view_of b f base n bs)\<lparr>slots := s, block := (block (view_of b f base n bs))\<lparr>writeIdx := nx\<rparr>\<rparr>)))" for q' nx
  proof (cases "memcpy (elems_at (unat (sizeof_T b)) f base n bs) (unat w) [f v] 0 1")
    case (Inl e)
    then show ?thesis using copy_in [OF m v1, where f = f and d = "unat w" and s = 0 and c = 1] one_elem [OF v, of f] by (simp add: push_as_def slot_at_def)
  next
    case (Inr ys)
    then obtain bs' where "memcpy bs (slot_at b base w) v 0 (unat (sizeof_T b)) = Inr bs'"
        "view_of b f base n bs' = (view_of b f base n bs)\<lparr>slots := ys\<rparr>" "mapped b base n bs'"
      using copy_in [OF m v1, where f = f and d = "unat w" and s = 0 and c = 1] one_elem [OF v, of f] by (auto simp: slot_at_def)
    then show ?thesis using Inr store_view(1) [where v = nx and f = f and bs = bs' and b = b and base = base and n = n] mapped_store(1) [of b base n bs' nx]
      by (simp add: push_as_def Let_def)
  qed
  have fail: "push_as b f base n (Inr (False, q', bs)) (Inr (False, q', view_of b f base n bs))" for q'
    using m by (simp add: push_as_def)
  show ?thesis
    unfolding raw_try_push_def try_push_def view_of_idx Let_def w_def [symmetric] using publish fail by simp
qed

lemma raw_push_n_publish_as:
  assumes m: "mapped b base n bs" and src: "length src = k * unat (sizeof_T b)"
    and fits: "unat (min (min c free) (capacity_m q - w)) \<le> n" "unat (min c free) \<le> n"
  shows "push_as b f base n (raw_push_n_publish b base src c w free q bs)
     (push_n_publish (elems_at (unat (sizeof_T b)) f 0 k src) c w free q (view_of b f base n bs))"
proof -
  define count first nx where "count = min c free" and "first = min count (capacity_m q - w)"
    and "nx = (if w + count \<ge> capacity_m q then w + count - capacity_m q else w + count)"
  let ?T = "unat (sizeof_T b)" and ?src = "elems_at (unat (sizeof_T b)) f 0 k src"
  have "first \<le> count" by (simp add: first_def)
  then have "unat (count - first) \<le> unat count" by (simp add: unat_sub)
  then have "unat first \<le> n" "unat (count - first) \<le> n"
    using fits [folded count_def, folded first_def] by linarith+
  note sc = scaled [OF m this(1)] scaled [OF m this(2)]
  have last: "push_as b f base n (Inr (count, q, store_idx b ''writeIdx'' nx bs2))
      (Inr (count, q, (view_of b f base n bs)\<lparr>slots := ys, block := (block (view_of b f base n bs))\<lparr>writeIdx := nx\<rparr>\<rparr>))"
    if "view_of b f base n bs2 = (view_of b f base n bs)\<lparr>slots := ys\<rparr>" "mapped b base n bs2" for bs2 ys
    using that store_view(1) [where v = nx and f = f and bs = bs2 and b = b and base = base and n = n] mapped_store(1) [of b base n bs2 nx] by (simp add: push_as_def Let_def)
  note raw = raw_push_n_publish_def [of b base src c w free q bs, unfolded Let_def, folded count_def, folded first_def, folded nx_def, unfolded sc slot_at_def]
  note spec = push_n_publish_def [of ?src c w free q "view_of b f base n bs", unfolded Let_def view_of_idx, folded count_def, folded first_def, folded nx_def]
  show ?thesis
  proof (cases "memcpy (elems_at ?T f base n bs) (unat w) ?src 0 (unat first)")
    case (Inl e)
    then show ?thesis using copy_in [OF m src, where f = f and d = "unat w" and s = 0 and c = "unat first"] unfolding raw spec by (simp add: push_as_def)
  next
    case (Inr s1)
    then obtain bs1 where c1: "memcpy bs (base + unat w * ?T) src 0 (unat first * ?T) = Inr bs1"
        "view_of b f base n bs1 = (view_of b f base n bs)\<lparr>slots := s1\<rparr>" "mapped b base n bs1"
      using copy_in [OF m src, where f = f and d = "unat w" and s = 0 and c = "unat first"] by auto
    have s1: "elems_at ?T f base n bs1 = s1" using c1(2) view_of_idx(3) [of b f base n bs1] by simp
    note second = copy_in [OF c1(3) src, where f = f and d = 0 and s = "unat first" and c = "unat (count - first)", unfolded s1]
    show ?thesis
    proof (cases "count > first")
      case False
      then show ?thesis using last [OF c1(2,3)] c1(1) Inr unfolding raw spec by simp
    next
      case True
      show ?thesis
      proof (cases "memcpy s1 0 ?src (unat first) (unat (count - first))")
        case (Inl e)
        then show ?thesis using second True c1(1) Inr \<open>memcpy _ _ _ _ _ = Inr s1\<close> unfolding raw spec by (simp add: push_as_def)
      next
        case two: (Inr s2)
        then obtain bs2 where "memcpy bs1 base src (unat first * ?T) (unat (count - first) * ?T) = Inr bs2"
            "view_of b f base n bs2 = (view_of b f base n bs)\<lparr>slots := s2\<rparr>" "mapped b base n bs2"
          using second c1(2) by auto
        then show ?thesis using last [of bs2 s2] True c1(1) two Inr unfolding raw spec by simp
      qed
    qed
  qed
qed


lemma raw_push_n_as:
  assumes m: "mapped b base n bs" and src: "length src = k * unat (sizeof_T b)" and ok: "prod_ok q (view_of b f base n bs)"
  shows "push_as b f base n (raw_push_n b base src c q bs) (push_n (elems_at (unat (sizeof_T b)) f 0 k src) c q (view_of b f base n bs))"
proof -
  define w where "w = load_idx b ''writeIdx'' bs"
  have r: "unat w < cap q" "unat (readIdxCache_m q) < cap q" "unat (load_idx b ''readIdx'' bs) < cap q" "cap q \<le> n"
    using ok by (simp_all add: prod_ok_def ring_ok_def w_def)
  have publish: "push_as b f base n (raw_push_n_publish b base src c w free q' bs)
      (push_n_publish (elems_at (unat (sizeof_T b)) f 0 k src) c w free q' (view_of b f base n bs))"
    if "unat free < cap q" for free q'
  proof -
    have "unat (min c free) \<le> n" using that r(4) by (simp add: min_def word_le_nat_alt)
    moreover have "unat (min (min c free) (capacity_m q' - w)) \<le> unat (min c free)" by (simp add: min_def word_le_nat_alt)
    ultimately show ?thesis by (intro raw_push_n_publish_as [OF m src]) simp_all
  qed
  have free: "unat (freeSlots q w (readIdxCache_m q)) < cap q" "unat (freeSlots q w (load_idx b ''readIdx'' bs)) < cap q"
    using r by (simp_all add: freeSlots_unat)
  have same: "freeSlots (q\<lparr>readIdxCache_m := x\<rparr>) = freeSlots q" for x by (simp add: freeSlots_def fun_eq_iff)
  have none: "push_as b f base n (Inr (0 :: u64, q', bs)) (Inr (0, q', view_of b f base n bs))" for q' using m by (simp add: push_as_def)
  show ?thesis
    unfolding raw_push_n_def push_n_def view_of_idx Let_def w_def [symmetric]
    using publish [OF free(1)] publish [OF free(2)] none by (simp add: same)
qed

lemma raw_front_eq: "raw_front b q bs = front q (view_of b f base n bs)"
  by (simp add: raw_front_def front_def Let_def)

lemma raw_pop_front_as:
  assumes "mapped b base n bs"
  shows "case pop_front ndebug q (view_of b f base n bs) of
       Inl e \<Rightarrow> raw_pop_front b ndebug q bs = Inl e
     | Inr m \<Rightarrow> \<exists>bs'. raw_pop_front b ndebug q bs = Inr bs' \<and> view_of b f base n bs' = m \<and> mapped b base n bs'"
  using store_view(2) [OF assms, of f] mapped_store(2) [OF assms] by (simp add: pop_front_def raw_pop_front_def Let_def)

lemma raw_try_pop_as:
  assumes m: "mapped b base n bs" and out: "length out = unat (sizeof_T b)"
  shows "pop_as b f base n f (unat (sizeof_T b)) (raw_try_pop b base ndebug out q bs) (try_pop ndebug (f out) q (view_of b f base n bs))"
proof -
  let ?T = "unat (sizeof_T b)" and ?v = "view_of b f base n bs"
  have o1: "length out = 1 * ?T" using out by simp
  obtain p q1 where fr: "front q ?v = (p, q1)" by force
  note raw = raw_try_pop_def [of b base ndebug out q bs, unfolded raw_front_eq [where f = f and base = base and n = n] fr prod.case slot_at_def]
  note spec = try_pop_def [of ndebug "f out" q ?v, unfolded fr prod.case view_of_idx]
  show ?thesis
  proof (cases p)
    case None
    then show ?thesis unfolding raw spec using m out by (simp add: pop_as_def)
  next
    case (Some r)
    note copy = copy_out [OF m o1, where f = f and d = 0 and s = "unat r" and c = 1, unfolded one_elem [OF out] mult_1 mult_0 mult_zero_left]
    show ?thesis
    proof (cases "memcpy [f out] 0 (elems_at ?T f base n bs) (unat r) 1")
      case (Inl e)
      then show ?thesis unfolding raw spec using copy Some by (simp add: pop_as_def)
    next
      case (Inr ys)
      then obtain out' where o: "memcpy out 0 bs (base + unat r * ?T) ?T = Inr out'" "elems_at ?T f 0 1 out' = ys" "length out' = length out"
        using copy by auto
      then have y: "ys ! 0 = f out'" using one_elem [of out' ?T f] out by auto
      show ?thesis
      proof (cases "pop_front ndebug q1 ?v")
        case (Inl e)
        then show ?thesis unfolding raw spec using raw_pop_front_as [OF m, of ndebug q1 f] Some Inr o(1) \<open>memcpy [f out] _ _ _ _ = _\<close>
          by (simp add: pop_as_def)
      next
        case pop: (Inr m')
        then obtain bs' where "raw_pop_front b ndebug q1 bs = Inr bs'" "view_of b f base n bs' = m'" "mapped b base n bs'"
          using raw_pop_front_as [OF m, of ndebug q1 f] by auto
        then show ?thesis unfolding raw spec using Some Inr o y pop out by (simp add: pop_as_def)
      qed
    qed
  qed
qed

lemma raw_pop_n_consume_as:
  assumes m: "mapped b base n bs" and dst: "length dst = k * unat (sizeof_T b)"
    and fits: "unat (min (min c avail) (capacity_m q - r)) \<le> n" "unat (min c avail) \<le> n"
  shows "pop_as b f base n (elems_at (unat (sizeof_T b)) f 0 k) (length dst) (raw_pop_n_consume b base dst c r avail q bs)
     (pop_n_consume (elems_at (unat (sizeof_T b)) f 0 k dst) c r avail q (view_of b f base n bs))"
proof -
  define count first nx where "count = min c avail" and "first = min count (capacity_m q - r)"
    and "nx = (if r + count \<ge> capacity_m q then r + count - capacity_m q else r + count)"
  let ?T = "unat (sizeof_T b)" and ?dst = "elems_at (unat (sizeof_T b)) f 0 k dst"
  have "first \<le> count" by (simp add: first_def)
  then have "unat (count - first) \<le> unat count" by (simp add: unat_sub)
  then have "unat first \<le> n" "unat (count - first) \<le> n"
    using fits [folded count_def, folded first_def] by linarith+
  note sc = scaled [OF m this(1)] scaled [OF m this(2)]
  have last: "pop_as b f base n (elems_at ?T f 0 k) (length dst) (Inr (count, d2, q, store_idx b ''readIdx'' nx bs))
      (Inr (count, ys, q, (view_of b f base n bs)\<lparr>block := (block (view_of b f base n bs))\<lparr>readIdx := nx\<rparr>\<rparr>))"
    if "elems_at ?T f 0 k d2 = ys" "length d2 = length dst" for d2 ys
    using that store_view(2) [OF m, where f = f and v = nx] mapped_store(2) [OF m] by (simp add: pop_as_def Let_def)
  note raw = raw_pop_n_consume_def [of b base dst c r avail q bs, unfolded Let_def, folded count_def, folded first_def, folded nx_def, unfolded sc slot_at_def]
  note spec = pop_n_consume_def [of ?dst c r avail q "view_of b f base n bs", unfolded Let_def view_of_idx, folded count_def, folded first_def, folded nx_def]
  show ?thesis
  proof (cases "memcpy ?dst 0 (elems_at ?T f base n bs) (unat r) (unat first)")
    case (Inl e)
    then show ?thesis using copy_out [OF m dst, where f = f and d = 0 and s = "unat r" and c = "unat first"] unfolding raw spec by (simp add: pop_as_def)
  next
    case (Inr d1)
    then obtain dst1 where c1: "memcpy dst 0 bs (base + unat r * ?T) (unat first * ?T) = Inr dst1"
        "elems_at ?T f 0 k dst1 = d1" "length dst1 = k * ?T"
      using copy_out [OF m dst, where f = f and d = 0 and s = "unat r" and c = "unat first"] dst by auto
    note second = copy_out [OF m c1(3), where f = f and d = "unat first" and s = 0 and c = "unat (count - first)", unfolded c1(2)]
    show ?thesis
    proof (cases "count > first")
      case False
      then show ?thesis using last [OF c1(2)] c1(1,3) dst Inr unfolding raw spec by simp
    next
      case True
      show ?thesis
      proof (cases "memcpy d1 (unat first) (elems_at ?T f base n bs) 0 (unat (count - first))")
        case (Inl e)
        then show ?thesis using second True c1(1) \<open>memcpy _ _ _ _ _ = Inr d1\<close> unfolding raw spec by (simp add: pop_as_def)
      next
        case two: (Inr d2)
        then obtain dst2 where "memcpy dst1 (unat first * ?T) bs base (unat (count - first) * ?T) = Inr dst2"
            "elems_at ?T f 0 k dst2 = d2" "length dst2 = length dst"
          using second c1(3) dst by auto
        then show ?thesis using last [of dst2 d2] True c1(1) two Inr unfolding raw spec by simp
      qed
    qed
  qed
qed

lemma raw_pop_n_as:
  assumes m: "mapped b base n bs" and dst: "length dst = k * unat (sizeof_T b)" and ok: "cons_ok q (view_of b f base n bs)"
  shows "pop_as b f base n (elems_at (unat (sizeof_T b)) f 0 k) (length dst) (raw_pop_n b base dst c q bs)
     (pop_n (elems_at (unat (sizeof_T b)) f 0 k dst) c q (view_of b f base n bs))"
proof -
  define r where "r = load_idx b ''readIdx'' bs"
  have r: "unat r < cap q" "unat (writeIdxCache_m q) < cap q" "unat (load_idx b ''writeIdx'' bs) < cap q" "cap q \<le> n"
    using ok by (simp_all add: cons_ok_def ring_ok_def r_def)
  have consume: "pop_as b f base n (elems_at (unat (sizeof_T b)) f 0 k) (length dst) (raw_pop_n_consume b base dst c r avail q' bs)
      (pop_n_consume (elems_at (unat (sizeof_T b)) f 0 k dst) c r avail q' (view_of b f base n bs))"
    if "unat avail < cap q" for avail q'
  proof -
    have "unat (min c avail) \<le> n" using that r(4) by (simp add: min_def word_le_nat_alt)
    moreover have "unat (min (min c avail) (capacity_m q' - r)) \<le> unat (min c avail)" by (simp add: min_def word_le_nat_alt)
    ultimately show ?thesis by (intro raw_pop_n_consume_as [OF m dst]) simp_all
  qed
  have avail: "unat (usedSlots q (writeIdxCache_m q) r) < cap q" "unat (usedSlots q (load_idx b ''writeIdx'' bs) r) < cap q"
    using r by (simp_all add: usedSlots_unat used_less)
  have same: "usedSlots (q\<lparr>writeIdxCache_m := x\<rparr>) = usedSlots q" for x by (simp add: usedSlots_def fun_eq_iff)
  have none: "pop_as b f base n (elems_at (unat (sizeof_T b)) f 0 k) (length dst) (Inr (0 :: u64, dst, q', bs))
      (Inr (0, elems_at (unat (sizeof_T b)) f 0 k dst, q', view_of b f base n bs))" for q'
    using m by (simp add: pop_as_def)
  show ?thesis
    unfolding raw_pop_n_def pop_n_def view_of_idx Let_def r_def [symmetric]
    using consume [OF avail(1)] consume [OF avail(2)] none by (simp add: same)
qed

subsection \<open>Properties\<close>

text \<open>
  C27. The data path on bytes: on a mapping that holds a control block and \<open>n\<close> slots of \<^verbatim>\<open>sizeof(T)\<close> bytes behind \<open>base\<close>, the
  four operations, with indices loaded from and stored to their eight bytes and with copies of
  \<^verbatim>\<open>sizeof(T)\<close>, \<^verbatim>\<open>first * sizeof(T)\<close> and \<^verbatim>\<open>(count - first) * sizeof(T)\<close> bytes, do to the bytes what the operations of \<open>Ring\<close> do to
  the block and the elements read off them, for every element type: same result, same handle, same
  fault, same elements in the caller's buffer. (The batches on a handle that satisfies its invariant, where no byte count wraps around.)
\<close>

theorem bytes_refine_elements:
  assumes "mapped b base n bs"
  shows "(length v = unat (sizeof_T b) \<longrightarrow>
            push_as b f base n (raw_try_push b base v q bs) (try_push (f v) q (view_of b f base n bs)) \<and>
            pop_as b f base n f (length v) (raw_try_pop b base ndebug v q bs) (try_pop ndebug (f v) q (view_of b f base n bs))) \<and>
         (length buf = k * unat (sizeof_T b) \<longrightarrow>
            (let elems = elems_at (unat (sizeof_T b)) f 0 k in
             (prod_ok q (view_of b f base n bs) \<longrightarrow>
                push_as b f base n (raw_push_n b base buf c q bs) (push_n (elems buf) c q (view_of b f base n bs))) \<and>
             (cons_ok q (view_of b f base n bs) \<longrightarrow>
                pop_as b f base n elems (length buf) (raw_pop_n b base buf c q bs) (pop_n (elems buf) c q (view_of b f base n bs)))))"
  using raw_try_push_as [OF assms, where f = f] raw_try_pop_as [OF assms, where f = f] raw_push_n_as [OF assms, where f = f]
    raw_pop_n_as [OF assms, where f = f] by (simp add: Let_def)

text \<open>A ring of four eight-byte slots with one element in slot 3: a batch of two wraps around the end.\<close>

theorem bytes_refine_elements_witness:
  "let b = \<lparr>kCacheLine = 64, sizeof_T = 8, alignof_T = 8\<rparr>;
       bs = encode_block 64 (sample_block\<lparr>writeIdx := 3, readIdx := 2\<rparr>) @ replicate 32 0;
       q = ShmSpscQueue\<lparr>capacity_m := 4, readIdxCache_m := 2\<rparr>
   in mapped b 256 4 bs \<and>
      (\<exists>bs'. raw_push_n b 256 (le_bytes 8 7 @ le_bytes 8 9) 2 q bs = Inr (2, q, bs') \<and> elems_at 8 le_value 256 4 bs' = [9, 0, 0, 7] \<and>
             load_idx b ''writeIdx'' bs' = 1)"
proof -
  define b where "b = \<lparr>kCacheLine = 64, sizeof_T = 8 :: u64, alignof_T = 8 :: u64\<rparr>"
  define c where "c = sample_block\<lparr>writeIdx := 3, readIdx := 2\<rparr>"
  define bs where "bs = encode_block 64 c @ replicate 32 0"
  define q where "q = ShmSpscQueue\<lparr>capacity_m := 4, readIdxCache_m := 2\<rparr>"
  have len: "length (encode_block 64 c) = 256" by (simp add: length_encode_block)
  have m: "mapped b 256 4 bs" using len by (simp add: mapped_def b_def bs_def binary_ok_def)
  have blk: "decode_block 64 bs = c"
    using decode_block_below [of 64 256 bs "encode_block 64 c"] decode_encode_block [of 64 c] len by (simp add: bs_def)
  have el: "elems_at 8 le_value 256 4 bs = [0, 0, 0, 0]" using len by (simp add: elems_at_def bs_def upt_rec numeral_eq_Suc)
  have v: "view_of b le_value 256 4 bs = \<lparr>block = c, slots = [0, 0, 0, 0]\<rparr>" using blk el by (simp add: view_of_def b_def)
  have src: "elems_at 8 le_value 0 2 (le_bytes 8 7 @ le_bytes 8 9) = [7, 9]" by (simp add: elems_at_def upt_rec le_value_bytes)
  have ok: "prod_ok q (view_of b le_value 256 4 bs)" unfolding v by (simp add: prod_ok_def ring_ok_def q_def c_def used_def)
  have spec: "push_n [7, 9] 2 q \<lparr>block = c, slots = [0, 0, 0, 0]\<rparr> =
      Inr (2, q, \<lparr>block = c\<lparr>writeIdx := 1\<rparr>, slots = [9, 0, 0, 7]\<rparr>)"
    by (simp add: push_n_def push_n_publish_def q_def c_def freeSlots_def memcpy_def Let_def)
  have T: "unat (sizeof_T b) = 8" by (simp add: b_def)
  have "length (le_bytes 8 7 @ le_bytes 8 9) = 2 * unat (sizeof_T b)" by (simp add: T)
  then have "push_as b le_value 256 4 (raw_push_n b 256 (le_bytes 8 7 @ le_bytes 8 9) 2 q bs) (push_n [7, 9] 2 q (view_of b le_value 256 4 bs))"
    using bytes_refine_elements [OF m, where f = le_value and q = q and k = 2 and c = 2 and buf = "le_bytes 8 7 @ le_bytes 8 9"] ok src
    by (simp add: Let_def T)
  then obtain bs' where r: "raw_push_n b 256 (le_bytes 8 7 @ le_bytes 8 9) 2 q bs = Inr (2, q, bs')"
      "view_of b le_value 256 4 bs' = \<lparr>block = c\<lparr>writeIdx := 1\<rparr>, slots = [9, 0, 0, 7]\<rparr>"
    unfolding v spec by (auto simp: push_as_def)
  then have "elems_at 8 le_value 256 4 bs' = [9, 0, 0, 7]" "load_idx b ''writeIdx'' bs' = 1"
    using view_of_idx(1,3) [of b le_value 256 4 bs'] by (simp_all add: T)
  then show ?thesis using m r(1) unfolding Let_def b_def bs_def c_def q_def by blast
qed

end
