(* ===== verification/Blocking.thy ===== *)
theory Blocking
  imports Lifecycle
begin

section \<open>The blocking push and pop\<close>

text \<open>
  Lines 323--352 of \<^verbatim>\<open>include/shmspsc/ShmSpscQueue.h\<close>. The loops spin on \<^verbatim>\<open>try_push\<close> and
  \<^verbatim>\<open>try_pop\<close> and look at the peer every \<^verbatim>\<open>peerCheckSpins\<close> attempts. The peer runs meanwhile:
  \<open>env i j\<close> is what it does to the segment in attempt \<open>i\<close> before the attempt itself (\<open>j = 0\<close>),
  before the liveness check (\<open>j = 1\<close>) and before the emptiness check (\<open>j = 2\<close>), and \<open>kill i\<close> what
  \<^verbatim>\<open>kill(pid, 0)\<close> answers then. A loop that never returns is \<open>None\<close>.
\<close>

type_synonym 'a env = "nat \<Rightarrow> nat \<Rightarrow> 'a shm \<Rightarrow> 'a shm"
type_synonym probes = "nat \<Rightarrow> i32 \<Rightarrow> errno option"

text \<open>\<^verbatim>\<open>peerAlive\<close> on the segment the handle points to.\<close>

definition peer_alive :: "(i32 \<Rightarrow> errno option) \<Rightarrow> role \<Rightarrow> 'a shm \<Rightarrow> bool" where
  "peer_alive kill role m =
     (let pid = peer_slot role (block m) in if pid = 0 then True else processAlive kill pid)"

text \<open>
  One turn of the loop of lines 325--336: the value returned, or the spin count (after \<^verbatim>\<open>++spins\<close>),
  handle and segment of the next turn.
\<close>

definition push_turn :: "'a env \<Rightarrow> probes \<Rightarrow> u32 \<Rightarrow> 'a \<Rightarrow> u32 \<Rightarrow> nat \<Rightarrow> queue \<Rightarrow> 'a shm \<Rightarrow>
    (fault + bool \<times> queue \<times> 'a shm) + (u32 \<times> queue \<times> 'a shm)" where
  "push_turn env kill peerCheckSpins v spins i q m =
     (case try_push v q (env i 0 m) of
        Inl f \<Rightarrow> Inl (Inl f)
      | Inr (True, q1, m1) \<Rightarrow> Inl (Inr (True, q1, m1))
      | Inr (False, q1, m1) \<Rightarrow>
          if spins \<ge> peerCheckSpins
          then let m2 = env i 1 m1
               in if \<not> peer_alive (kill i) (role_m q1) m2 then Inl (Inr (False, q1, m2))
                  else Inr (0 + 1, q1, m2)
          else Inr (spins + 1, q1, m1))"

partial_function (option) push_loop ::
  "'a env \<Rightarrow> probes \<Rightarrow> u32 \<Rightarrow> 'a \<Rightarrow> u32 \<Rightarrow> nat \<Rightarrow> queue \<Rightarrow> 'a shm \<Rightarrow> (fault + bool \<times> queue \<times> 'a shm) option" where
  "push_loop env kill peerCheckSpins v spins i q m =
     (case push_turn env kill peerCheckSpins v spins i q m of
        Inl res \<Rightarrow> Some res
      | Inr (spins1, q1, m1) \<Rightarrow> push_loop env kill peerCheckSpins v spins1 (Suc i) q1 m1)"

definition push :: "'a env \<Rightarrow> probes \<Rightarrow> u32 \<Rightarrow> 'a \<Rightarrow> queue \<Rightarrow> 'a shm \<Rightarrow> (fault + bool \<times> queue \<times> 'a shm) option" where
  "push env kill peerCheckSpins v q m = push_loop env kill peerCheckSpins v 0 0 q m"

definition pop_turn :: "bool \<Rightarrow> 'a env \<Rightarrow> probes \<Rightarrow> u32 \<Rightarrow> 'a \<Rightarrow> u32 \<Rightarrow> nat \<Rightarrow> queue \<Rightarrow> 'a shm \<Rightarrow>
    (fault + bool \<times> 'a \<times> queue \<times> 'a shm) + (u32 \<times> 'a \<times> queue \<times> 'a shm)" where
  "pop_turn ndebug env kill peerCheckSpins out spins i q m =
     (case try_pop ndebug out q (env i 0 m) of
        Inl f \<Rightarrow> Inl (Inl f)
      | Inr (True, out1, q1, m1) \<Rightarrow> Inl (Inr (True, out1, q1, m1))
      | Inr (False, out1, q1, m1) \<Rightarrow>
          if spins \<ge> peerCheckSpins
          then let m2 = env i 1 m1; dead = (\<not> peer_alive (kill i) (role_m q1) m2);
                   m3 = (if dead then env i 2 m2 else m2)
               in if dead \<and> empty_q m3 then Inl (Inr (False, out1, q1, m3))
                  else Inr (0 + 1, out1, q1, m3)
          else Inr (spins + 1, out1, q1, m1))"

partial_function (option) pop_loop ::
  "bool \<Rightarrow> 'a env \<Rightarrow> probes \<Rightarrow> u32 \<Rightarrow> 'a \<Rightarrow> u32 \<Rightarrow> nat \<Rightarrow> queue \<Rightarrow> 'a shm \<Rightarrow> (fault + bool \<times> 'a \<times> queue \<times> 'a shm) option" where
  "pop_loop ndebug env kill peerCheckSpins out spins i q m =
     (case pop_turn ndebug env kill peerCheckSpins out spins i q m of
        Inl res \<Rightarrow> Some res
      | Inr (spins1, out1, q1, m1) \<Rightarrow> pop_loop ndebug env kill peerCheckSpins out1 spins1 (Suc i) q1 m1)"

definition pop_wait :: "bool \<Rightarrow> 'a env \<Rightarrow> probes \<Rightarrow> u32 \<Rightarrow> 'a \<Rightarrow> queue \<Rightarrow> 'a shm \<Rightarrow>
    (fault + bool \<times> 'a \<times> queue \<times> 'a shm) option" where
  "pop_wait ndebug env kill peerCheckSpins out q m = pop_loop ndebug env kill peerCheckSpins out 0 0 q m"

subsection \<open>What the loops rely on\<close>

text \<open>What a push that returns has done.\<close>

definition pushed_ok :: "probes \<Rightarrow> 'a \<Rightarrow> queue \<Rightarrow> 'a shm \<Rightarrow> fault + bool \<times> queue \<times> 'a shm \<Rightarrow> bool" where
  "pushed_ok kill v q m res \<longleftrightarrow> (\<exists>r q' m' k. res = Inr (r, q', m') \<and> prod_ok q' m' \<and>
      cap q' = cap q \<and> role_m q' = role_m q \<and> contents q' m' = drop k (contents q m) @ (if r then [v] else []) \<and>
      (\<not> r \<longrightarrow> (\<exists>i. \<not> peer_alive (kill i) Producer m')))"

lemma pushed_okE:
  assumes "pushed_ok kill v q m res"
  obtains r q' m' k where "res = Inr (r, q', m')" "prod_ok q' m'" "cap q' = cap q" "role_m q' = role_m q"
    "contents q' m' = drop k (contents q m) @ (if r then [v] else [])" "\<not> r \<longrightarrow> (\<exists>i. \<not> peer_alive (kill i) Producer m')"
  using assms unfolding pushed_ok_def by blast

text \<open>What a pop that returns has done: delivered the next element, or found the peer dead and nothing left.\<close>

definition popped_ok :: "probes \<Rightarrow> queue \<Rightarrow> 'a shm \<Rightarrow> fault + bool \<times> 'a \<times> queue \<times> 'a shm \<Rightarrow> bool" where
  "popped_ok kill q m res \<longleftrightarrow> (\<exists>r out q' m' ys. res = Inr (r, out, q', m') \<and> cons_ok q' m' \<and>
      cap q' = cap q \<and> role_m q' = role_m q \<and> contents q m @ ys = (if r then [out] else []) @ contents q' m' \<and>
      (\<not> r \<longrightarrow> contents q' m' = [] \<and> (\<exists>i. \<not> peer_alive (kill i) Consumer m')))"

text \<open>
  Of a consuming peer: it keeps the producer's invariant, only takes elements from the front and
  leaves its pid where it was or, detaching, replaces it by -1. Of a producing peer: it keeps the
  consumer's invariant, only adds elements at the end, and does the same with its pid.
\<close>

locale consuming_peer =
  fixes env :: "'a env" and n :: nat
  assumes keeps: "cap q = n \<Longrightarrow> prod_ok q m \<Longrightarrow> prod_ok q (env i j m)"
    and takes: "cap q = n \<Longrightarrow> prod_ok q m \<Longrightarrow> \<exists>k. contents q (env i j m) = drop k (contents q m)"
    and pid: "peer_slot Producer (block (env i j m)) \<in> {peer_slot Producer (block m), - 1}"

locale producing_peer =
  fixes env :: "'a env" and n :: nat
  assumes keeps: "cap q = n \<Longrightarrow> cons_ok q m \<Longrightarrow> cons_ok q (env i j m)"
    and adds: "cap q = n \<Longrightarrow> cons_ok q m \<Longrightarrow> \<exists>ys. contents q (env i j m) = contents q m @ ys"
    and pid: "peer_slot Consumer (block (env i j m)) \<in> {peer_slot Consumer (block m), - 1}"

text \<open>The slot of a peer that detached cleanly is not a live process.\<close>

lemma processAlive_detached [simp]: "\<not> processAlive kill (- 1)"
  by (simp add: processAlive_def)

text \<open>
  From attempt \<open>N\<close> on every check finds the peer gone: its process \<open>p\<close> has died, or it has detached.
\<close>

definition peer_gone :: "'a env \<Rightarrow> probes \<Rightarrow> role \<Rightarrow> i32 \<Rightarrow> nat \<Rightarrow> bool" where
  "peer_gone env kill role p N \<longleftrightarrow>
     (\<forall>i \<ge> N. \<not> processAlive (kill i) p \<or> (\<forall>m. peer_slot role (block (env i 1 m)) = - 1))"

lemma spins_step:
  assumes "\<not> spins \<ge> (c :: u32)"
  shows "unat (spins + 1) = unat spins + 1" "unat spins < unat c"
proof -
  have lt: "unat spins < unat c" using assms by (simp add: word_le_nat_alt)
  moreover have "unat c < 2 ^ LENGTH(32)" by (rule unsigned_less)
  ultimately have "unat spins + 1 < 2 ^ LENGTH(32)" by linarith
  then show "unat (spins + 1) = unat spins + 1" by (simp add: unat_word_ariths)
  show "unat spins < unat c" by (rule lt)
qed

context consuming_peer
begin

lemma push_turn_cases:
  assumes ok: "prod_ok q m" "cap q = n" "role_m q = Producer"
  obtains (pushed) k q1 m1 where "push_turn env kill c v spins i q m = Inl (Inr (True, q1, m1))"
      "prod_ok q1 m1" "cap q1 = n" "role_m q1 = Producer" "contents q1 m1 = drop k (contents q m) @ [v]"
  | (gave_up) k q1 m1 where "push_turn env kill c v spins i q m = Inl (Inr (False, q1, m1))"
      "prod_ok q1 m1" "cap q1 = n" "role_m q1 = Producer" "contents q1 m1 = drop k (contents q m)" "\<not> peer_alive (kill i) Producer m1"
  | (again) k q1 m1 spins' where "push_turn env kill c v spins i q m = Inr (spins', q1, m1)"
      "prod_ok q1 m1" "cap q1 = n" "role_m q1 = Producer" "contents q1 m1 = drop k (contents q m)"
      "peer_slot Producer (block m1) \<in> {peer_slot Producer (block m), - 1}"
      "(unat spins' = unat spins + 1 \<and> unat spins < unat c) \<or> (peer_alive (kill i) Producer m1 \<and> (\<exists>m'. m1 = env i 1 m'))"
proof -
  let ?m = "env i 0 m"
  have p0: "prod_ok q ?m" using keeps [OF ok(2,1)] by simp
  obtain k0 where k0: "contents q ?m = drop k0 (contents q m)" using takes [OF ok(2,1)] by blast
  show ?thesis
  proof (rule try_push_cases [OF p0, of v])
    fix rc s idx
    assume "try_push v q ?m = Inr (True, q\<lparr>readIdxCache_m := rc\<rparr>, published s idx ?m)"
      "contents q (published s idx ?m) = contents q ?m @ [v]" "prod_ok (q\<lparr>readIdxCache_m := rc\<rparr>) (published s idx ?m)"
    then show ?thesis using pushed ok k0 by (simp add: push_turn_def)
  next
    define q1 where "q1 = q\<lparr>readIdxCache_m := readIdx (block ?m)\<rparr>"
    assume "try_push v q ?m = Inr (False, q\<lparr>readIdxCache_m := readIdx (block ?m)\<rparr>, ?m)"
    then have t: "try_push v q ?m = Inr (False, q1, ?m)" by (simp add: q1_def)
    have q1: "prod_ok q1 ?m" "cap q1 = n" "role_m q1 = Producer" "contents q1 ?m = drop k0 (contents q m)"
      using prod_ok_refresh [OF p0] ok k0 by (simp_all add: q1_def)
    show ?thesis
    proof (cases "spins \<ge> c")
      case False
      then have "push_turn env kill c v spins i q m = Inr (spins + 1, q1, ?m)"
        using t by (simp add: push_turn_def)
      then show ?thesis using again [of "spins + 1" q1 ?m k0] q1 spins_step [OF False] pid by blast
    next
      case True
      let ?m2 = "env i 1 ?m"
      obtain k1 where k1: "contents q1 ?m2 = drop k1 (contents q1 ?m)" using takes [OF q1(2,1)] by blast
      have pid2: "peer_slot Producer (block ?m2) \<in> {peer_slot Producer (block m), - 1}"
        using pid [of i 0 m] pid [of i 1 ?m] by auto
      have m2: "prod_ok q1 ?m2" "contents q1 ?m2 = drop (k1 + k0) (contents q m)"
        using keeps [OF q1(2,1)] k1 q1(4) by simp_all
      show ?thesis
      proof (cases "peer_alive (kill i) Producer ?m2")
        case alive: True
        then have "push_turn env kill c v spins i q m = Inr (0 + 1, q1, ?m2)"
          using t True q1(3) by (simp add: push_turn_def Let_def)
        then show ?thesis using again [of "0 + 1" q1 ?m2 "k1 + k0"] m2 q1 alive pid2 by metis
      next
        case dead: False
        then have "push_turn env kill c v spins i q m = Inl (Inr (False, q1, ?m2))"
          using t True q1(3) by (simp add: push_turn_def Let_def)
        then show ?thesis using gave_up [OF _ m2(1) q1(2,3) m2(2)] dead by blast
      qed
    qed
  qed
qed

lemma pushed_ok_later:
  assumes "pushed_ok kill v q1 m1 res" "contents q1 m1 = drop k (contents q m)" "cap q1 = cap q" "role_m q1 = role_m q"
  shows "pushed_ok kill v q m res"
proof -
  obtain r q' m' j where p: "res = Inr (r, q', m')" "prod_ok q' m'" "cap q' = cap q1" "role_m q' = role_m q1"
      "contents q' m' = drop j (contents q1 m1) @ (if r then [v] else [])" "\<not> r \<longrightarrow> (\<exists>i. \<not> peer_alive (kill i) Producer m')"
    using assms(1) by (rule pushed_okE)
  then have "contents q' m' = drop (j + k) (contents q m) @ (if r then [v] else [])" using assms(2) by simp
  then show ?thesis using p assms(3,4) unfolding pushed_ok_def by metis
qed

lemma push_loop_correct:
  assumes run: "push_loop env kill c v spins i q m = Some res" and q: "prod_ok q m" "cap q = n" "role_m q = Producer"
  shows "pushed_ok kill v q m res"
proof -
  have "env = env \<longrightarrow> prod_ok q m \<and> cap q = n \<and> role_m q = Producer \<longrightarrow> pushed_ok kill v q m res"
  proof (rule push_loop.raw_induct [where P = "\<lambda>e kill c v spins i q m res.
      e = env \<longrightarrow> prod_ok q m \<and> cap q = n \<and> role_m q = Producer \<longrightarrow> pushed_ok kill v q m res", OF _ run], intro impI)
    fix loop e kill c v spins i q m res
    assume IH: "\<And>e kill c v spins i q m res. loop e kill c v spins i q m = Some res \<Longrightarrow>
        e = env \<longrightarrow> prod_ok q m \<and> cap q = n \<and> role_m q = Producer \<longrightarrow> pushed_ok kill v q m res"
      and body: "(case push_turn e kill c v spins i q m of Inl res \<Rightarrow> Some res
        | Inr (spins1, q1, m1) \<Rightarrow> loop e kill c v spins1 (Suc i) q1 m1) = Some res"
      and e: "e = env" and ok: "prod_ok q m \<and> cap q = n \<and> role_m q = Producer"
    show "pushed_ok kill v q m res"
    proof (rule push_turn_cases [of q m kill c v spins i])
      fix k q1 m1
      assume "push_turn env kill c v spins i q m = Inl (Inr (True, q1, m1))" "prod_ok q1 m1" "cap q1 = n" "role_m q1 = Producer"
        "contents q1 m1 = drop k (contents q m) @ [v]"
      then show ?thesis using body e ok unfolding pushed_ok_def by auto
    next
      fix k q1 m1
      assume "push_turn env kill c v spins i q m = Inl (Inr (False, q1, m1))" "prod_ok q1 m1" "cap q1 = n" "role_m q1 = Producer"
        "contents q1 m1 = drop k (contents q m)" "\<not> peer_alive (kill i) Producer m1"
      then show ?thesis using body e ok unfolding pushed_ok_def by auto
    next
      fix k q1 m1 spins'
      assume t: "push_turn env kill c v spins i q m = Inr (spins', q1, m1)"
        "prod_ok q1 m1" "cap q1 = n" "role_m q1 = Producer" "contents q1 m1 = drop k (contents q m)"
      then have "pushed_ok kill v q1 m1 res" using IH [of e kill c v spins' "Suc i" q1 m1 res] body e by simp
      then show ?thesis using t ok by (intro pushed_ok_later [OF _ t(5)]) simp_all
    qed (use ok in auto)
  qed
  then show ?thesis using q by blast
qed

text \<open>If the peer is dead for good from some attempt on, the loop ends.\<close>

lemma push_loop_ends:
  assumes "peer_gone env kill Producer p N" "p \<noteq> 0"
  shows "prod_ok q m \<Longrightarrow> cap q = n \<Longrightarrow> role_m q = Producer \<Longrightarrow> peer_slot Producer (block m) \<in> {p, - 1} \<Longrightarrow>
    \<exists>res. push_loop env kill c v spins i q m = Some res"
proof (induction "(N - i, unat c - unat spins)" arbitrary: spins i q m rule: wf_induct_rule [OF wf_lex_prod [OF wf_less_than wf_less_than]])
  case 1
  show ?case
  proof (rule push_turn_cases [OF 1(2,3,4), of kill c v spins i])
    fix k q1 m1 assume "push_turn env kill c v spins i q m = Inl (Inr (True, q1, m1))"
    then show ?thesis by (simp add: push_loop.simps)
  next
    fix k q1 m1 assume "push_turn env kill c v spins i q m = Inl (Inr (False, q1, m1))"
    then show ?thesis by (simp add: push_loop.simps)
  next
    fix k q1 m1 spins'
    assume t: "push_turn env kill c v spins i q m = Inr (spins', q1, m1)"
      "prod_ok q1 m1" "cap q1 = n" "role_m q1 = Producer" "peer_slot Producer (block m1) \<in> {peer_slot Producer (block m), - 1}"
      "(unat spins' = unat spins + 1 \<and> unat spins < unat c) \<or> (peer_alive (kill i) Producer m1 \<and> (\<exists>m'. m1 = env i 1 m'))"
    have "peer_alive (kill i) Producer m1 \<and> (\<exists>m'. m1 = env i 1 m') \<Longrightarrow> i < N"
      using assms t(5) 1(5) by (auto simp: peer_alive_def peer_gone_def Let_def not_le [symmetric])
    then have "unat spins' = unat spins + 1 \<and> unat spins < unat c \<or> i < N" using t(6) by blast
    then have "((N - Suc i, unat c - unat spins'), (N - i, unat c - unat spins)) \<in> less_than <*lex*> less_than" by auto
    from 1(1) [OF this t(2-4)] t(5) 1(5) obtain res where "push_loop env kill c v spins' (Suc i) q1 m1 = Some res" by auto
    then show ?thesis using t(1) by (simp add: push_loop.simps [of env kill c v spins])
  qed
qed

end

text \<open>A peer that at attempt \<open>N\<close> leaves room for an element, or an element to take.\<close>

definition makes_room :: "'a env \<Rightarrow> nat \<Rightarrow> nat \<Rightarrow> bool" where
  "makes_room env n N \<longleftrightarrow> (\<forall>q m. cap q = n \<longrightarrow> prod_ok q m \<longrightarrow> length (contents q (env N 0 m)) < n - 1)"

definition brings_element :: "'a env \<Rightarrow> nat \<Rightarrow> nat \<Rightarrow> bool" where
  "brings_element env n N \<longleftrightarrow> (\<forall>q m. cap q = n \<longrightarrow> cons_ok q m \<longrightarrow> contents q (env N 0 m) \<noteq> [])"

context consuming_peer
begin

lemma push_turn_room:
  assumes "makes_room env n i" "prod_ok q m" "cap q = n"
  shows "\<exists>q1 m1. push_turn env kill c v spins i q m = Inl (Inr (True, q1, m1))"
proof (rule try_push_cases [OF keeps [OF assms(3,2)], of i 0 v])
  assume "length (contents q (env i 0 m)) = cap q - 1"
  then show ?thesis using assms unfolding makes_room_def by (metis less_irrefl)
next
  fix rc s idx
  assume "try_push v q (env i 0 m) = Inr (True, q\<lparr>readIdxCache_m := rc\<rparr>, published s idx (env i 0 m))"
  then show ?thesis by (simp add: push_turn_def)
qed

lemma push_loop_room:
  assumes "makes_room env n N"
  shows "prod_ok q m \<Longrightarrow> cap q = n \<Longrightarrow> role_m q = Producer \<Longrightarrow> i \<le> N \<Longrightarrow> \<exists>res. push_loop env kill c v spins i q m = Some res"
proof (induction "N - i" arbitrary: i spins q m)
  case 0
  then have "i = N" by simp
  then show ?case using push_turn_room [OF _ 0(2,3), of i kill c v spins] assms by (auto simp: push_loop.simps)
next
  case (Suc d)
  show ?case
  proof (rule push_turn_cases [OF Suc.prems(1-3), of kill c v spins i])
    fix q1 m1 spins'
    assume t: "push_turn env kill c v spins i q m = Inr (spins', q1, m1)" "prod_ok q1 m1" "cap q1 = n" "role_m q1 = Producer"
    have "\<exists>res. push_loop env kill c v spins' (Suc i) q1 m1 = Some res" using Suc t by (intro Suc.hyps(1)) simp_all
    then show ?thesis using t(1) by (simp add: push_loop.simps [of env kill c v spins])
  qed (simp_all add: push_loop.simps)
qed

end

context producing_peer
begin

lemma pop_turn_cases:
  assumes ok: "cons_ok q m" "cap q = n" "role_m q = Consumer"
  obtains (popped) out1 q1 m1 ys where "pop_turn ndebug env kill c out spins i q m = Inl (Inr (True, out1, q1, m1))"
      "cons_ok q1 m1" "cap q1 = n" "role_m q1 = Consumer" "contents q m @ ys = out1 # contents q1 m1"
  | (gave_up) out1 q1 m1 ys where "pop_turn ndebug env kill c out spins i q m = Inl (Inr (False, out1, q1, m1))"
      "cons_ok q1 m1" "cap q1 = n" "role_m q1 = Consumer" "contents q m @ ys = contents q1 m1" "contents q1 m1 = []" "\<not> peer_alive (kill i) Consumer m1"
  | (again) out1 q1 m1 ys spins' where "pop_turn ndebug env kill c out spins i q m = Inr (spins', out1, q1, m1)"
      "cons_ok q1 m1" "cap q1 = n" "role_m q1 = Consumer" "contents q m @ ys = contents q1 m1"
      "peer_slot Consumer (block m1) \<in> {peer_slot Consumer (block m), - 1}"
      "(unat spins' = unat spins + 1 \<and> unat spins < unat c) \<or> (peer_alive (kill i) Consumer m1 \<and> (\<exists>m'. m1 = env i 1 m')) \<or> contents q1 m1 \<noteq> []"
proof -
  let ?m = "env i 0 m"
  have p0: "cons_ok q ?m" using keeps [OF ok(2,1)] by simp
  obtain ys0 where y0: "contents q ?m = contents q m @ ys0" using adds [OF ok(2,1)] by blast
  show ?thesis
  proof (rule try_pop_cases [OF p0, of ndebug out])
    fix wc idx
    define q1 m1 where "q1 = q\<lparr>writeIdxCache_m := wc\<rparr>" and "m1 = consumed idx ?m"
    assume a: "contents q ?m \<noteq> []" "try_pop ndebug out q ?m = Inr (True, hd (contents q ?m), q\<lparr>writeIdxCache_m := wc\<rparr>, consumed idx ?m)"
      "contents q (consumed idx ?m) = tl (contents q ?m)" "cons_ok (q\<lparr>writeIdxCache_m := wc\<rparr>) (consumed idx ?m)"
    have "contents q1 m1 = tl (contents q ?m)" using a(3) by (simp add: q1_def m1_def)
    then have "contents q m @ ys0 = hd (contents q ?m) # contents q1 m1" using a(1) y0 by (metis list.collapse)
    moreover have "pop_turn ndebug env kill c out spins i q m = Inl (Inr (True, hd (contents q ?m), q1, m1))"
      unfolding pop_turn_def a(2) q1_def m1_def by simp
    moreover have "cap q1 = n" "role_m q1 = Consumer" using ok by (simp_all add: q1_def)
    ultimately show ?thesis using popped a(4) unfolding q1_def m1_def by blast
  next
    define q1 where "q1 = q\<lparr>writeIdxCache_m := writeIdx (block ?m)\<rparr>"
    assume "try_pop ndebug out q ?m = Inr (False, out, q\<lparr>writeIdxCache_m := writeIdx (block ?m)\<rparr>, ?m)"
    then have t: "try_pop ndebug out q ?m = Inr (False, out, q1, ?m)" by (simp add: q1_def)
    have q1: "cons_ok q1 ?m" "cap q1 = n" "role_m q1 = Consumer" "contents q1 ?m = contents q m @ ys0"
      using cons_ok_refresh [OF p0] ok y0 by (simp_all add: q1_def)
    show ?thesis
    proof (cases "spins \<ge> c")
      case False
      then have "pop_turn ndebug env kill c out spins i q m = Inr (spins + 1, out, q1, ?m)"
        using t by (simp add: pop_turn_def)
      then show ?thesis using again [of "spins + 1" out q1 ?m ys0] q1 spins_step [OF False] pid by metis
    next
      case True
      let ?m2 = "env i 1 ?m" and ?m3 = "env i 2 (env i 1 ?m)"
      obtain ys1 where y1: "contents q1 ?m2 = contents q1 ?m @ ys1" using adds [OF q1(2,1)] by blast
      have m2: "cons_ok q1 ?m2" using keeps [OF q1(2,1)] by simp
      obtain ys2 where y2: "contents q1 ?m3 = contents q1 ?m2 @ ys2" using adds [OF q1(2) m2] by blast
      have m3: "cons_ok q1 ?m3" using keeps [OF q1(2) m2] by simp
      have pid2: "peer_slot Consumer (block ?m2) \<in> {peer_slot Consumer (block m), - 1}"
        using pid [of i 0 m] pid [of i 1 ?m] by auto
      then have pid3: "peer_slot Consumer (block ?m3) \<in> {peer_slot Consumer (block m), - 1}"
        using pid [of i 2 ?m2] by auto
      have all2: "contents q m @ ys0 @ ys1 = contents q1 ?m2" and all3: "contents q m @ ys0 @ ys1 @ ys2 = contents q1 ?m3"
        using q1(4) y1 y2 by simp_all
      show ?thesis
      proof (cases "peer_alive (kill i) Consumer ?m2")
        case alive: True
        then have "pop_turn ndebug env kill c out spins i q m = Inr (0 + 1, out, q1, ?m2)"
          using t True q1(3) by (simp add: pop_turn_def Let_def)
        then show ?thesis using again [OF _ m2 q1(2,3) all2] alive pid2 by metis
      next
        case dead: False
        then have dead3: "\<not> peer_alive (kill i) Consumer ?m3" using pid [of i 2 ?m2] by (auto simp: peer_alive_def Let_def)
        have e: "empty_q ?m3 \<longleftrightarrow> contents q1 ?m3 = []" using contents_Nil_iff [OF m3] by (simp add: empty_q_def)
        show ?thesis
        proof (cases "empty_q ?m3")
          case empty: True
          then have "pop_turn ndebug env kill c out spins i q m = Inl (Inr (False, out, q1, ?m3))"
            using t True q1(3) dead by (simp add: pop_turn_def Let_def)
          then show ?thesis using gave_up [OF _ m3 q1(2,3) all3] e empty dead3 by blast
        next
          case more: False
          then have "pop_turn ndebug env kill c out spins i q m = Inr (0 + 1, out, q1, ?m3)"
            using t True q1(3) dead by (simp add: pop_turn_def Let_def)
          then show ?thesis using again [OF _ m3 q1(2,3) all3] e more pid3 by metis
        qed
      qed
    qed
  qed
qed

lemma popped_ok_later:
  assumes "popped_ok kill q1 m1 res" "contents q m @ ys = contents q1 m1" "cap q1 = cap q" "role_m q1 = role_m q"
  shows "popped_ok kill q m res"
proof -
  obtain r out q' m' zs where p: "res = Inr (r, out, q', m')" "cons_ok q' m'" "cap q' = cap q1" "role_m q' = role_m q1"
      "contents q1 m1 @ zs = (if r then [out] else []) @ contents q' m'"
      "\<not> r \<longrightarrow> contents q' m' = [] \<and> (\<exists>i. \<not> peer_alive (kill i) Consumer m')"
    using assms(1) unfolding popped_ok_def by blast
  then have "contents q m @ (ys @ zs) = (if r then [out] else []) @ contents q' m'" using assms(2) by (metis append_assoc)
  then show ?thesis using p assms(3,4) unfolding popped_ok_def by metis
qed

lemma pop_loop_correct:
  assumes run: "pop_loop ndebug env kill c out spins i q m = Some res" and q: "cons_ok q m" "cap q = n" "role_m q = Consumer"
  shows "popped_ok kill q m res"
proof -
  have "env = env \<longrightarrow> cons_ok q m \<and> cap q = n \<and> role_m q = Consumer \<longrightarrow> popped_ok kill q m res"
  proof (rule pop_loop.raw_induct [where P = "\<lambda>nd e kill c out spins i q m res.
      e = env \<longrightarrow> cons_ok q m \<and> cap q = n \<and> role_m q = Consumer \<longrightarrow> popped_ok kill q m res", OF _ run], intro impI)
    fix loop nd e kill c out spins i q m res
    assume IH: "\<And>nd e kill c out spins i q m res. loop nd e kill c out spins i q m = Some res \<Longrightarrow>
        e = env \<longrightarrow> cons_ok q m \<and> cap q = n \<and> role_m q = Consumer \<longrightarrow> popped_ok kill q m res"
      and body: "(case pop_turn nd e kill c out spins i q m of Inl res \<Rightarrow> Some res
        | Inr (spins1, out1, q1, m1) \<Rightarrow> loop nd e kill c out1 spins1 (Suc i) q1 m1) = Some res"
      and e: "e = env" and ok: "cons_ok q m \<and> cap q = n \<and> role_m q = Consumer"
    show "popped_ok kill q m res"
    proof (rule pop_turn_cases [of q m nd kill c out spins i])
      fix out1 q1 m1 ys
      assume "pop_turn nd env kill c out spins i q m = Inl (Inr (True, out1, q1, m1))" "cons_ok q1 m1" "cap q1 = n" "role_m q1 = Consumer"
        "contents q m @ ys = out1 # contents q1 m1"
      then show ?thesis using body e ok unfolding popped_ok_def by auto
    next
      fix out1 q1 m1 ys
      assume "pop_turn nd env kill c out spins i q m = Inl (Inr (False, out1, q1, m1))" "cons_ok q1 m1" "cap q1 = n" "role_m q1 = Consumer"
        "contents q m @ ys = contents q1 m1" "contents q1 m1 = []" "\<not> peer_alive (kill i) Consumer m1"
      then show ?thesis using body e ok unfolding popped_ok_def by (intro exI [of _ False]) auto
    next
      fix out1 q1 m1 ys spins'
      assume t: "pop_turn nd env kill c out spins i q m = Inr (spins', out1, q1, m1)"
        "cons_ok q1 m1" "cap q1 = n" "role_m q1 = Consumer" "contents q m @ ys = contents q1 m1"
      then have "popped_ok kill q1 m1 res" using IH [of nd e kill c out1 spins' "Suc i" q1 m1 res] body e by simp
      then show ?thesis using t ok by (intro popped_ok_later [OF _ t(5)]) simp_all
    qed (use ok in auto)
  qed
  then show ?thesis using q by blast
qed

end

context producing_peer
begin

lemma pop_turn_nonempty:
  assumes ok: "cons_ok q m" "cap q = n" and ne: "contents q m \<noteq> []"
  shows "\<exists>out1 q1 m1. pop_turn ndebug env kill c out spins i q m = Inl (Inr (True, out1, q1, m1))"
proof -
  let ?m = "env i 0 m"
  have p0: "cons_ok q ?m" using keeps [OF ok(2,1)] by simp
  obtain ys where "contents q ?m = contents q m @ ys" using adds [OF ok(2,1)] by blast
  then have "contents q ?m \<noteq> []" using ne by simp
  then obtain out1 q1 m1 where "try_pop ndebug out q ?m = Inr (True, out1, q1, m1)"
    using try_pop_cases [OF p0, of ndebug out] by blast
  then show ?thesis by (simp add: pop_turn_def)
qed

lemma pop_loop_ends:
  assumes "peer_gone env kill Consumer p N" "p \<noteq> 0"
  shows "cons_ok q m \<Longrightarrow> cap q = n \<Longrightarrow> role_m q = Consumer \<Longrightarrow> peer_slot Consumer (block m) \<in> {p, - 1} \<Longrightarrow>
    \<exists>res. pop_loop ndebug env kill c out spins i q m = Some res"
proof (induction "(N - i, unat c - unat spins)" arbitrary: spins i q m out rule: wf_induct_rule [OF wf_lex_prod [OF wf_less_than wf_less_than]])
  case 1
  show ?case
  proof (rule pop_turn_cases [OF 1(2,3,4), of ndebug kill c out spins i])
    fix out1 q1 m1 assume "pop_turn ndebug env kill c out spins i q m = Inl (Inr (True, out1, q1, m1))"
    then show ?thesis by (simp add: pop_loop.simps)
  next
    fix out1 q1 m1 assume "pop_turn ndebug env kill c out spins i q m = Inl (Inr (False, out1, q1, m1))"
    then show ?thesis by (simp add: pop_loop.simps)
  next
    fix out1 q1 m1 ys spins'
    assume t: "pop_turn ndebug env kill c out spins i q m = Inr (spins', out1, q1, m1)"
      "cons_ok q1 m1" "cap q1 = n" "role_m q1 = Consumer" "peer_slot Consumer (block m1) \<in> {peer_slot Consumer (block m), - 1}"
      "(unat spins' = unat spins + 1 \<and> unat spins < unat c) \<or> (peer_alive (kill i) Consumer m1 \<and> (\<exists>m'. m1 = env i 1 m')) \<or> contents q1 m1 \<noteq> []"
    have "\<exists>res. pop_loop ndebug env kill c out1 spins' (Suc i) q1 m1 = Some res"
    proof (cases "contents q1 m1 = []")
      case False
      then show ?thesis using pop_turn_nonempty [OF t(2,3), of ndebug kill c out1 spins' "Suc i"] by (auto simp: pop_loop.simps)
    next
      case True
      have "peer_alive (kill i) Consumer m1 \<and> (\<exists>m'. m1 = env i 1 m') \<Longrightarrow> i < N"
        using assms t(5) 1(5) by (auto simp: peer_alive_def peer_gone_def Let_def not_le [symmetric])
      then have "unat spins' = unat spins + 1 \<and> unat spins < unat c \<or> i < N" using t(6) True by blast
      then have "((N - Suc i, unat c - unat spins'), (N - i, unat c - unat spins)) \<in> less_than <*lex*> less_than" by auto
      from 1(1) [OF this t(2-4)] t(5) 1(5) show ?thesis by auto
    qed
    then show ?thesis using t(1) by (simp add: pop_loop.simps [of ndebug env kill c out spins])
  qed
qed

end

context producing_peer
begin

lemma pop_loop_element:
  assumes "brings_element env n N"
  shows "cons_ok q m \<Longrightarrow> cap q = n \<Longrightarrow> role_m q = Consumer \<Longrightarrow> i \<le> N \<Longrightarrow> \<exists>res. pop_loop ndebug env kill c out spins i q m = Some res"
proof (induction "N - i" arbitrary: i spins q m out)
  case 0
  then have i: "i = N" by simp
  show ?case
  proof (rule try_pop_cases [OF keeps [OF 0(3,2)], of i 0 ndebug out])
    assume "contents q (env i 0 m) = []"
    then show ?thesis using assms 0 i by (auto simp: brings_element_def)
  next
    fix wc idx
    assume "try_pop ndebug out q (env i 0 m) =
      Inr (True, hd (contents q (env i 0 m)), q\<lparr>writeIdxCache_m := wc\<rparr>, consumed idx (env i 0 m))"
    then show ?thesis by (simp add: pop_turn_def pop_loop.simps)
  qed
next
  case (Suc d)
  show ?case
  proof (rule pop_turn_cases [OF Suc.prems(1-3), of ndebug kill c out spins i])
    fix out1 q1 m1 spins'
    assume t: "pop_turn ndebug env kill c out spins i q m = Inr (spins', out1, q1, m1)" "cons_ok q1 m1" "cap q1 = n" "role_m q1 = Consumer"
    have "\<exists>res. pop_loop ndebug env kill c out1 spins' (Suc i) q1 m1 = Some res" using Suc t by (intro Suc.hyps(1)) simp_all
    then show ?thesis using t(1) by (simp add: pop_loop.simps [of ndebug env kill c out spins])
  qed (simp_all add: pop_loop.simps)
qed

end

subsection \<open>Peers that keep the promises\<close>

text \<open>
  A consumer that, when \<open>sched\<close> lets it run, takes one element with \<^verbatim>\<open>try_pop\<close> through a handle of its
  own, and a producer that adds \<open>v i j\<close> with \<^verbatim>\<open>try_push\<close>.
\<close>

definition popping :: "(nat \<Rightarrow> nat \<Rightarrow> bool) \<Rightarrow> u64 \<Rightarrow> 'a \<Rightarrow> 'a env" where
  "popping sched c out i j m =
     (if sched i j
      then case try_pop True out (ShmSpscQueue\<lparr>capacity_m := c, role_m := Consumer, writeIdxCache_m := readIdx (block m)\<rparr>) m of
             Inl _ \<Rightarrow> m | Inr (_, _, _, m') \<Rightarrow> m'
      else m)"

definition pushing :: "(nat \<Rightarrow> nat \<Rightarrow> bool) \<Rightarrow> u64 \<Rightarrow> (nat \<Rightarrow> nat \<Rightarrow> 'a) \<Rightarrow> 'a env" where
  "pushing sched c v i j m =
     (if sched i j
      then case try_push (v i j) (ShmSpscQueue\<lparr>capacity_m := c, role_m := Producer, readIdxCache_m := readIdx (block m)\<rparr>) m of
             Inl _ \<Rightarrow> m | Inr (_, _, m') \<Rightarrow> m'
      else m)"

interpretation popping: consuming_peer "popping sched c out" "unat c" for sched c and out :: 'a
proof
  fix q :: queue and m :: "'a shm" and i j
  define h where "h = ShmSpscQueue\<lparr>capacity_m := c, role_m := Consumer, writeIdxCache_m := readIdx (block m)\<rparr>"
  have pop: "prod_ok q (popping sched c out i j m) \<and> (\<exists>k. contents q (popping sched c out i j m) = drop k (contents q m))"
    if q: "cap q = unat c" "prod_ok q m"
  proof (cases "sched i j")
    case False
    then show ?thesis using q by (auto simp: popping_def intro: exI [of _ 0])
  next
    case True
    have eq: "contents h m' = contents q m'" for m' :: "'a shm" using q by (simp add: contents_def h_def)
    have h: "cons_ok h m" using q by (simp add: cons_ok_def prod_ok_def h_def ring_ok_def)
    have ch: "cap q = cap h" using q by (simp add: h_def)
    show ?thesis
    proof (rule try_pop_cases [OF h, of True out])
      assume "try_pop True out h m = Inr (False, out, h\<lparr>writeIdxCache_m := writeIdx (block m)\<rparr>, m)"
      then have "popping sched c out i j m = m" using True by (simp add: popping_def flip: h_def)
      then show ?thesis using q by (auto intro: exI [of _ 0])
    next
      fix wc idx
      assume t: "try_pop True out h m = Inr (True, hd (contents h m), h\<lparr>writeIdxCache_m := wc\<rparr>, consumed idx m)"
        and c: "contents h (consumed idx m) = tl (contents h m)"
        and p: "\<And>p. cap p = cap h \<Longrightarrow> prod_ok p m \<Longrightarrow> prod_ok p (consumed idx m)"
      have "popping sched c out i j m = consumed idx m" using True t by (simp add: popping_def flip: h_def)
      then show ?thesis using p [OF ch q(2)] c unfolding eq by (auto simp: drop_Suc intro: exI [of _ "Suc 0"])
    qed
  qed
  show "cap q = unat c \<Longrightarrow> prod_ok q m \<Longrightarrow> prod_ok q (popping sched c out i j m)"
    "cap q = unat c \<Longrightarrow> prod_ok q m \<Longrightarrow> \<exists>k. contents q (popping sched c out i j m) = drop k (contents q m)"
    using pop by blast+
  show "peer_slot Producer (block (popping sched c out i j m)) \<in> {peer_slot Producer (block m), - 1}"
    by (auto simp: popping_def try_pop_def pop_front_def Let_def peer_slot_def split: prod.splits option.splits sum.splits if_splits)
qed

interpretation pushing: producing_peer "pushing sched c v" "unat c" for sched c and v :: "nat \<Rightarrow> nat \<Rightarrow> 'a"
proof
  fix q :: queue and m :: "'a shm" and i j
  define h where "h = ShmSpscQueue\<lparr>capacity_m := c, role_m := Producer, readIdxCache_m := readIdx (block m)\<rparr>"
  have push: "cons_ok q (pushing sched c v i j m) \<and> (\<exists>ys. contents q (pushing sched c v i j m) = contents q m @ ys)"
    if q: "cap q = unat c" "cons_ok q m"
  proof (cases "sched i j")
    case False
    then show ?thesis using q by (auto simp: pushing_def)
  next
    case True
    have eq: "contents h m' = contents q m'" for m' :: "'a shm" using q by (simp add: contents_def h_def)
    have h: "prod_ok h m" using q by (simp add: cons_ok_def prod_ok_def h_def ring_ok_def)
    have ch: "cap q = cap h" using q by (simp add: h_def)
    show ?thesis
    proof (rule try_push_cases [OF h, of "v i j"])
      assume "try_push (v i j) h m = Inr (False, h\<lparr>readIdxCache_m := readIdx (block m)\<rparr>, m)"
      then have "pushing sched c v i j m = m" using True by (simp add: pushing_def flip: h_def)
      then show ?thesis using q by auto
    next
      fix rc s idx
      assume t: "try_push (v i j) h m = Inr (True, h\<lparr>readIdxCache_m := rc\<rparr>, published s idx m)"
        and c: "contents h (published s idx m) = contents h m @ [v i j]"
        and p: "\<And>p. cap p = cap h \<Longrightarrow> cons_ok p m \<Longrightarrow> cons_ok p (published s idx m)"
      have "pushing sched c v i j m = published s idx m" using True t by (simp add: pushing_def flip: h_def)
      then show ?thesis using p [OF ch q(2)] c unfolding eq by auto
    qed
  qed
  show "cap q = unat c \<Longrightarrow> cons_ok q m \<Longrightarrow> cons_ok q (pushing sched c v i j m)"
    "cap q = unat c \<Longrightarrow> cons_ok q m \<Longrightarrow> \<exists>ys. contents q (pushing sched c v i j m) = contents q m @ ys"
    using push by blast+
  show "peer_slot Consumer (block (pushing sched c v i j m)) \<in> {peer_slot Consumer (block m), - 1}"
    by (auto simp: pushing_def try_push_def Let_def peer_slot_def split: prod.splits sum.splits if_splits)
qed

text \<open>A peer with \<open>role\<close> that besides what \<open>env\<close> does detaches when \<open>lv\<close> says so.\<close>

definition leaving :: "(nat \<Rightarrow> nat \<Rightarrow> bool) \<Rightarrow> role \<Rightarrow> 'a env \<Rightarrow> 'a env" where
  "leaving lv role env i j m =
     (let m1 = env i j m in if lv i j then m1\<lparr>block := set_pid_slot role (- 1) (block m1)\<rparr> else m1)"

lemma ring_set_pid [simp]:
  "prod_ok q (m\<lparr>block := set_pid_slot r p (block m)\<rparr>) = prod_ok q m"
  "cons_ok q (m\<lparr>block := set_pid_slot r p (block m)\<rparr>) = cons_ok q m"
  "contents q (m\<lparr>block := set_pid_slot r p (block m)\<rparr>) = contents q m"
  by (simp_all add: prod_ok_def cons_ok_def ring_ok_def contents_def)

lemma peer_slot_set [simp]:
  "peer_slot Producer (set_pid_slot Consumer p c) = p" "peer_slot Consumer (set_pid_slot Producer p c) = p"
  by (simp_all add: peer_slot_def set_pid_slot_def)

lemma leaving_consumer: "consuming_peer env n \<Longrightarrow> consuming_peer (leaving lv Consumer env) n"
  unfolding consuming_peer_def leaving_def Let_def by auto

lemma leaving_producer: "producing_peer env n \<Longrightarrow> producing_peer (leaving lv Producer env) n"
  unfolding producing_peer_def leaving_def Let_def by auto

text \<open>The popping consumer makes room, the pushing producer brings an element, when they run.\<close>

lemma popping_makes_room:
  assumes "sched N 0" "2 \<le> unat c"
  shows "makes_room (popping sched c out) (unat c) N"
  unfolding makes_room_def
proof (intro allI impI)
  fix q :: queue and m :: "'a shm"
  assume q: "cap q = unat c" "prod_ok q m"
  define h where "h = ShmSpscQueue\<lparr>capacity_m := c, role_m := Consumer, writeIdxCache_m := readIdx (block m)\<rparr>"
  have eq: "contents h m' = contents q m'" for m' :: "'a shm" using q by (simp add: contents_def h_def)
  have h: "cons_ok h m" using q by (simp add: cons_ok_def prod_ok_def h_def ring_ok_def)
  have le: "length (contents q m) < unat c"
    using q used_less [of "wpos m" "unat c" "rpos m"] by (simp add: length_contents prod_ok_def ring_ok_def)
  show "length (contents q (popping sched c out N 0 m)) < unat c - 1"
  proof (rule try_pop_cases [OF h, of True out])
    assume "contents h m = []" "try_pop True out h m = Inr (False, out, h\<lparr>writeIdxCache_m := writeIdx (block m)\<rparr>, m)"
    then show ?thesis using assms eq by (simp add: popping_def flip: h_def)
  next
    fix wc idx
    assume "contents h m \<noteq> []" "try_pop True out h m = Inr (True, hd (contents h m), h\<lparr>writeIdxCache_m := wc\<rparr>, consumed idx m)"
      "contents h (consumed idx m) = tl (contents h m)"
    then show ?thesis using assms le eq by (cases "contents q m") (simp_all add: popping_def flip: h_def)
  qed
qed

subsection \<open>Properties\<close>

text \<open>
  C13. The blocking \<^verbatim>\<open>push\<close>: whenever it returns, it has not faulted; on true exactly the one element was
  appended behind what the consumer had left, on false nothing was and the consumer was found dead.
  It does return if the consumer ever leaves room for one element, or is gone for good (died or
  detached), however full the ring is.
\<close>

theorem push_blocks_correctly:
  assumes "consuming_peer env (cap q)" and "prod_ok q m" and "role_m q = Producer"
  shows "(\<forall>res. push env kill spins v q m = Some res \<longrightarrow> pushed_ok kill v q m res) \<and>
         ((\<exists>N. makes_room env (cap q) N) \<or>
          peer_slot Producer (block m) \<noteq> 0 \<and> (\<exists>N. peer_gone env kill Producer (peer_slot Producer (block m)) N) \<longrightarrow>
            (\<exists>res. push env kill spins v q m = Some res))"
  unfolding push_def
  using consuming_peer.push_loop_correct [OF assms(1) _ assms(2) refl assms(3)]
    consuming_peer.push_loop_room [OF assms(1) _ assms(2) refl assms(3)]
    consuming_peer.push_loop_ends [OF assms(1) _ _ assms(2) refl assms(3)]
  by blast

definition full_sample :: "queue \<times> nat shm" where
  "full_sample = (ShmSpscQueue\<lparr>capacity_m := 4, role_m := Producer\<rparr>,
     \<lparr>block = sample_block\<lparr>capacity := 4, writeIdx := 3, readIdx := 0, consumerPid := 4711\<rparr>, slots = [1, 2, 3, 0]\<rparr>)"

lemma full_sample_ok:
  "prod_ok (fst full_sample) (snd full_sample)" "role_m (fst full_sample) = Producer" "cap (fst full_sample) = 4"
  "contents (fst full_sample) (snd full_sample) = [1, 2, 3]" "peer_slot Producer (block (snd full_sample)) = 4711"
  by (simp_all add: full_sample_def prod_ok_def ring_ok_def used_def contents_def ring_def upt_rec ShmSpscQueue_def peer_slot_def)

theorem push_blocks_correctly_witness:
  "\<exists>res. push (leaving (\<lambda>i j. 9000 \<le> i) Consumer (popping (\<lambda>_ _. False) 4 0)) (\<lambda>_ _. None) 4096 9
           (fst full_sample) (snd full_sample) = Some res \<and>
         pushed_ok (\<lambda>_ _. None) 9 (fst full_sample) (snd full_sample) res"
proof -
  let ?env = "leaving (\<lambda>i j. 9000 \<le> i) Consumer (popping (\<lambda>_ _. False) 4 (0 :: nat))"
  have c: "consuming_peer ?env (cap (fst full_sample))"
    using leaving_consumer [OF popping.consuming_peer_axioms [of "\<lambda>_ _. False" 4 "0 :: nat"]] full_sample_ok(3) by simp
  have "peer_gone ?env (\<lambda>_ _. None) Producer 4711 9000" by (simp add: peer_gone_def leaving_def Let_def)
  then show ?thesis
    using push_blocks_correctly [OF c full_sample_ok(1,2), of "\<lambda>_ _. None" 4096 9] full_sample_ok(5) by auto
qed

text \<open>
  C14. The blocking \<^verbatim>\<open>pop\<close>: whenever it returns, it has not faulted; on true it delivered the oldest of
  the elements queued before or added meanwhile, on false the producer was found dead and there was
  nothing left to deliver. It does return if the producer ever brings an element or is gone for good.
\<close>

theorem pop_blocks_correctly:
  assumes "producing_peer env (cap q)" and "cons_ok q m" and "role_m q = Consumer"
  shows "(\<forall>res. pop_wait ndebug env kill spins out q m = Some res \<longrightarrow> popped_ok kill q m res) \<and>
         ((\<exists>N. brings_element env (cap q) N) \<or>
          peer_slot Consumer (block m) \<noteq> 0 \<and> (\<exists>N. peer_gone env kill Consumer (peer_slot Consumer (block m)) N) \<longrightarrow>
            (\<exists>res. pop_wait ndebug env kill spins out q m = Some res))"
proof (intro conjI allI impI)
  show "popped_ok kill q m res" if "pop_wait ndebug env kill spins out q m = Some res" for res
    using producing_peer.pop_loop_correct [OF assms(1) _ assms(2) refl assms(3)] that by (simp add: pop_wait_def)
  assume "(\<exists>N. brings_element env (cap q) N) \<or>
    peer_slot Consumer (block m) \<noteq> 0 \<and> (\<exists>N. peer_gone env kill Consumer (peer_slot Consumer (block m)) N)"
  then show "\<exists>res. pop_wait ndebug env kill spins out q m = Some res"
    unfolding pop_wait_def
    using producing_peer.pop_loop_element [OF assms(1) _ assms(2) refl assms(3)]
      producing_peer.pop_loop_ends [OF assms(1) _ _ assms(2) refl assms(3)]
    by blast
qed

definition empty_sample :: "queue \<times> nat shm" where
  "empty_sample = (ShmSpscQueue\<lparr>capacity_m := 4, role_m := Consumer, writeIdxCache_m := 2\<rparr>,
     \<lparr>block = sample_block\<lparr>capacity := 4, writeIdx := 2, readIdx := 2, producerPid := 4711\<rparr>, slots = [1, 2, 3, 0]\<rparr>)"

lemma empty_sample_ok:
  "cons_ok (fst empty_sample) (snd empty_sample)" "role_m (fst empty_sample) = Consumer" "cap (fst empty_sample) = 4"
  "contents (fst empty_sample) (snd empty_sample) = []" "peer_slot Consumer (block (snd empty_sample)) = 4711"
  by (simp_all add: empty_sample_def cons_ok_def ring_ok_def used_def contents_def ring_def ShmSpscQueue_def peer_slot_def)

theorem pop_blocks_correctly_witness:
  "\<exists>res. pop_wait False (pushing (\<lambda>i j. i = 10) 4 (\<lambda>_ _. 8)) (\<lambda>_ _. Some ESRCH) 4096 0 (fst empty_sample) (snd empty_sample) = Some res \<and>
         popped_ok (\<lambda>_ _. Some ESRCH) (fst empty_sample) (snd empty_sample) res"
proof -
  have c: "producing_peer (pushing (\<lambda>i j. i = 10) 4 (\<lambda>_ _. 8 :: nat)) (cap (fst empty_sample))"
    using pushing.producing_peer_axioms [of "\<lambda>i j. i = 10" 4 "\<lambda>_ _. 8 :: nat"] empty_sample_ok(3) by simp
  have "peer_gone (pushing (\<lambda>i j. i = 10) 4 (\<lambda>_ _. 8 :: nat)) (\<lambda>_ _. Some ESRCH) Consumer 4711 0"
    by (simp add: peer_gone_def processAlive_iff)
  then show ?thesis
    using pop_blocks_correctly [OF c empty_sample_ok(1,2), of False "\<lambda>_ _. Some ESRCH" 4096 0] empty_sample_ok(5) by auto
qed

end
