(* ===== verification/Demo.thy ===== *)
theory Demo
  imports Blocking
begin

section \<open>The demo programs: messages, their checksum, producer and consumer\<close>

text \<open>
  \<^verbatim>\<open>src/common.h\<close> (the message, its checksum and its constructor), the send loop of
  \<^verbatim>\<open>src/demo_producer.cpp\<close> and the receive loop of \<^verbatim>\<open>src/demo_consumer.cpp\<close>, over the queue of
  \<open>Ring\<close> and \<open>Blocking\<close>. Printing is left out; the statistics are the subject of \<open>Stats\<close> and the rest
  of the two main functions that of \<open>Programs\<close>. The clock and \<^verbatim>\<open>g_stop\<close> are read through functions of the number of the turn.
\<close>

unbundle bit_operations_syntax

record message =
  seq :: u64
  sentNs :: u64
  payload :: "u32 list" \<comment> \<open>six words\<close>
  checksum :: u32
  reserved :: u32

definition mix :: "u32 \<Rightarrow> u32 \<Rightarrow> u32" where
  "mix v h = (h XOR v) * 16777619"

definition checksumOf :: "message \<Rightarrow> u32" where
  "checksumOf m =
     (let h = 2166136261;
          h = mix (ucast (seq m)) h;
          h = mix (ucast (drop_bit 32 (seq m))) h
      in fold mix (payload m) h)"

definition makeMessage :: "u64 \<Rightarrow> u64 \<Rightarrow> message" where
  "makeMessage s ns =
     (let m = \<lparr>seq = s, sentNs = ns, payload = map (\<lambda>i. ucast (s * 31 + of_nat i)) [0..<6], checksum = 0, reserved = 0\<rparr>
      in m\<lparr>checksum := checksumOf m\<rparr>)"

subsection \<open>The checksum\<close>

text \<open>The words that are mixed in, in order.\<close>

definition words_of :: "message \<Rightarrow> u32 list" where
  "words_of m = [ucast (seq m), ucast (drop_bit 32 (seq m))] @ payload m"

lemma checksumOf_fold: "checksumOf m = fold mix (words_of m) 2166136261"
  by (simp add: checksumOf_def words_of_def)

text \<open>The multiplier is odd, so multiplication by it can be undone.\<close>

lemma fnv_invertible: "(x :: u32) * 16777619 * 899433627 = x"
proof -
  have "(16777619 :: u32) * 899433627 = 1" by simp
  then show ?thesis by (simp only: mult.assoc) simp
qed

lemma mix_inj_state: "mix v h = mix v h' \<longleftrightarrow> h = h'"
proof
  assume "mix v h = mix v h'"
  then have "h XOR v = h' XOR v" unfolding mix_def by (metis fnv_invertible)
  then have "(h XOR v) XOR v = (h' XOR v) XOR v" by simp
  then show "h = h'" by (simp add: xor.assoc)
qed simp

lemma mix_inj_word: "mix v h = mix v' h \<longleftrightarrow> v = v'"
proof
  assume "mix v h = mix v' h"
  then have "h XOR v = h XOR v'" unfolding mix_def by (metis fnv_invertible)
  then have "h XOR (h XOR v) = h XOR (h XOR v')" by simp
  then show "v = v'" by (simp flip: xor.assoc)
qed simp

lemma fold_mix_inj: "fold mix ws h = fold mix ws h' \<longleftrightarrow> h = h'"
  by (induction ws arbitrary: h h') (simp_all add: mix_inj_state)

lemma unat_succ_less: "sent < (target :: u64) \<Longrightarrow> unat (sent + 1) = unat sent + 1"
proof -
  assume "sent < target"
  then have "unat sent + 1 < 18446744073709551616"
    using unat_u64_less [of target] unfolding word_less_nat_alt by linarith
  then show ?thesis by (simp add: unat_word_ariths)
qed

subsection \<open>The send loop\<close>

text \<open>
  Lines 37--44 of \<^verbatim>\<open>demo_producer.cpp\<close>. For the message with sequence number \<open>i\<close>, \<open>stop i\<close> is what the
  loop reads in \<^verbatim>\<open>g_stop\<close>, \<open>now i\<close> the clock, and \<open>envs i\<close>, \<open>kills i\<close> what the consumer and
  the kernel do during its \<^verbatim>\<open>push\<close>. \<open>None\<close> is a \<^verbatim>\<open>push\<close> that never returns.
\<close>

function producer_loop :: "(nat \<Rightarrow> message env) \<Rightarrow> (nat \<Rightarrow> probes) \<Rightarrow> (nat \<Rightarrow> bool) \<Rightarrow> (nat \<Rightarrow> u64) \<Rightarrow> u64 \<Rightarrow>
    u64 \<Rightarrow> queue \<Rightarrow> message shm \<Rightarrow> (fault + u64 \<times> queue \<times> message shm) option" where
  "producer_loop envs kills stop now target sent q m =
     (let i = unat sent in
      if sent < target \<and> \<not> stop i
      then case push (envs i) (kills i) 4096 (makeMessage sent (now i)) q m of
             None \<Rightarrow> None
           | Some (Inl f) \<Rightarrow> Some (Inl f)
           | Some (Inr (ok, q1, m1)) \<Rightarrow>
               if \<not> ok then Some (Inr (sent, q1, m1))
               else producer_loop envs kills stop now target (sent + 1) q1 m1
      else Some (Inr (sent, q, m)))"
  by pat_completeness auto

termination
  by (relation "measure (\<lambda>(envs, kills, stop, now, target, sent, q, m). unat target - unat sent)")
    (auto simp: unat_succ_less word_less_nat_alt)

declare producer_loop.simps [simp del]

subsection \<open>The receive loop\<close>

record receiver =
  received :: u64
  expect :: u64
  errors :: u64
  latency :: "u64 list"

text \<open>Lines 63--70 of \<^verbatim>\<open>demo_consumer.cpp\<close>; \<open>room\<close> is \<^verbatim>\<open>latency.capacity()\<close>.\<close>

definition receive_one :: "nat \<Rightarrow> u64 \<Rightarrow> message \<Rightarrow> receiver \<Rightarrow> receiver" where
  "receive_one room now msg r =
     (let bad = (seq msg \<noteq> expect r \<or> checksum msg \<noteq> checksumOf msg);
          r = r\<lparr>expect := expect r + 1\<rparr>;
          r = (if bad then r\<lparr>errors := errors r + 1, expect := seq msg + 1\<rparr> else r)
      in if length (latency r) < room \<and> sentNs msg \<noteq> 0
         then r\<lparr>latency := latency r @ [now - sentNs msg]\<rparr> else r)"

definition receive_batch :: "nat \<Rightarrow> u64 \<Rightarrow> u64 \<Rightarrow> message list \<Rightarrow> receiver \<Rightarrow> receiver" where
  "receive_batch room now n buf r =
     (let r = fold (receive_one room now) (take (unat n) buf) r in r\<lparr>received := received r + n\<rparr>)"

text \<open>
  One turn of the loop of lines 53--83: the loop is left with \<open>Inl\<close>; \<open>stop i\<close> is \<^verbatim>\<open>g_stop\<close> and
  \<open>now i\<close> the clock in turn \<open>i\<close>.
\<close>

definition consumer_turn :: "nat \<Rightarrow> message env \<Rightarrow> probes \<Rightarrow> (nat \<Rightarrow> bool) \<Rightarrow> (nat \<Rightarrow> u64) \<Rightarrow> nat \<Rightarrow>
    message list \<Rightarrow> receiver \<Rightarrow> queue \<Rightarrow> message shm \<Rightarrow>
    (fault + receiver \<times> queue \<times> message shm) + (message list \<times> receiver \<times> queue \<times> message shm)" where
  "consumer_turn room env kill stop now i buf r q m =
     (if stop i then Inl (Inr (r, q, m))
      else case pop_n buf (of_nat (length buf)) q (env i 0 m) of
             Inl f \<Rightarrow> Inl (Inl f)
           | Inr (n, buf1, q1, m1) \<Rightarrow>
               if n = 0
               then let m2 = env i 1 m1; dead = (\<not> peer_alive (kill i) (role_m q1) m2);
                        m3 = (if dead then env i 2 m2 else m2)
                    in if dead \<and> empty_q m3 then Inl (Inr (r, q1, m3)) else Inr (buf1, r, q1, m3)
               else Inr (buf1, receive_batch room (now i) n buf1 r, q1, m1))"

partial_function (option) consumer_loop :: "nat \<Rightarrow> message env \<Rightarrow> probes \<Rightarrow> (nat \<Rightarrow> bool) \<Rightarrow> (nat \<Rightarrow> u64) \<Rightarrow> nat \<Rightarrow>
    message list \<Rightarrow> receiver \<Rightarrow> queue \<Rightarrow> message shm \<Rightarrow> (fault + receiver \<times> queue \<times> message shm) option" where
  "consumer_loop room env kill stop now i buf r q m =
     (case consumer_turn room env kill stop now i buf r q m of
        Inl res \<Rightarrow> Some res
      | Inr (buf1, r1, q1, m1) \<Rightarrow> consumer_loop room env kill stop now (Suc i) buf1 r1 q1 m1)"

definition receiver_init :: receiver where
  "receiver_init = \<lparr>received = 0, expect = 0, errors = 0, latency = []\<rparr>"

text \<open>\<^verbatim>\<open>return errors == 0 ? 0 : 1\<close>.\<close>

definition exit_code :: "receiver \<Rightarrow> nat" where
  "exit_code r = (if errors r = 0 then 0 else 1)"

subsection \<open>What the receiver counts\<close>

text \<open>Messages numbered from \<open>e\<close> on, each with the right checksum.\<close>

fun stream :: "u64 \<Rightarrow> message list \<Rightarrow> bool" where
  "stream e [] = True"
| "stream e (msg # ms) = (seq msg = e \<and> checksum msg = checksumOf msg \<and> stream (e + 1) ms)"

fun misses :: "u64 \<Rightarrow> message list \<Rightarrow> nat" where
  "misses e [] = 0"
| "misses e (msg # ms) =
     (if seq msg = e \<and> checksum msg = checksumOf msg then 0 else 1) + misses (seq msg + 1) ms"

lemma misses_0_iff: "misses e ms = 0 \<longleftrightarrow> stream e ms"
  by (induction ms arbitrary: e) auto

lemma misses_le: "misses e ms \<le> length ms"
  by (induction ms arbitrary: e) (auto intro: le_SucI)

text \<open>A run of the receiver over messages with the times at which their batches were read.\<close>

definition receive_all :: "nat \<Rightarrow> (u64 \<times> message) list \<Rightarrow> receiver \<Rightarrow> receiver" where
  "receive_all room tms r = fold (\<lambda>(t, msg). receive_one room t msg) tms r"

lemma receive_one_simps [simp]:
  "errors (receive_one room t msg r) =
     errors r + (if seq msg = expect r \<and> checksum msg = checksumOf msg then 0 else 1)"
  "expect (receive_one room t msg r) = seq msg + 1"
  "received (receive_one room t msg r) = received r"
  "receive_one room t msg (r\<lparr>received := x\<rparr>) = (receive_one room t msg r)\<lparr>received := x\<rparr>"
  by (auto simp: receive_one_def Let_def)

lemma receive_all_append: "receive_all room (xs @ ys) r = receive_all room ys (receive_all room xs r)"
  by (simp add: receive_all_def)

lemma receive_all_received [simp]:
  "receive_all room tms (r\<lparr>received := x\<rparr>) = (receive_all room tms r)\<lparr>received := x\<rparr>"
  "received (receive_all room tms r) = received r"
  by (induction tms arbitrary: r) (auto simp: receive_all_def)

lemma receive_all_errors: "errors (receive_all room tms r) = errors r + of_nat (misses (expect r) (map snd tms))"
  by (induction tms arbitrary: r) (auto simp: receive_all_def)

lemma receive_all_expect: "stream (expect r) (map snd tms) \<Longrightarrow> expect (receive_all room tms r) = expect r + of_nat (length tms)"
proof (induction tms arbitrary: r)
  case (Cons tm tms)
  obtain t msg where tm: "tm = (t, msg)" by force
  have "expect (receive_all room tms (receive_one room t msg r)) = expect r + 1 + of_nat (length tms)"
    using Cons.IH [of "receive_one room t msg r"] Cons.prems by (simp add: tm)
  then show ?case by (simp add: receive_all_def tm add.commute add.left_commute)
qed (simp add: receive_all_def)

lemma receive_batch_all:
  "receive_batch room t n buf r =
     (receive_all room (map (Pair t) (take (unat n) buf)) r)\<lparr>received := received r + n\<rparr>"
proof -
  have "fold (receive_one room t) ms r = receive_all room (map (Pair t) ms) r" for ms r
    by (induction ms arbitrary: r) (simp_all add: receive_all_def)
  moreover have "received (fold (receive_one room t) ms r) = received r" for ms r
    by (induction ms arbitrary: r) simp_all
  ultimately show ?thesis by (simp add: receive_batch_def Let_def)
qed

subsection \<open>Runs of the loops\<close>

text \<open>What the receive loop has done when it is left: popped \<open>tms\<close> and accounted for each of them.\<close>

definition drained_ok :: "nat \<Rightarrow> receiver \<Rightarrow> queue \<Rightarrow> message shm \<Rightarrow> fault + receiver \<times> queue \<times> message shm \<Rightarrow> bool" where
  "drained_ok room r q m res \<longleftrightarrow> (\<exists>r' q' m' ys tms. res = Inr (r', q', m') \<and> cons_ok q' m' \<and>
     contents q m @ ys = map snd tms @ contents q' m' \<and>
     r' = (receive_all room tms r)\<lparr>received := received r + of_nat (length tms)\<rparr>)"

lemma drained_ok_later:
  assumes "drained_ok room r1 q1 m1 res" "contents q m @ zs = map snd tms1 @ contents q1 m1"
    "r1 = (receive_all room tms1 r)\<lparr>received := received r + of_nat (length tms1)\<rparr>"
  shows "drained_ok room r q m res"
proof -
  obtain r' q' m' ys tms where d: "res = Inr (r', q', m')" "cons_ok q' m'"
      "contents q1 m1 @ ys = map snd tms @ contents q' m'"
      "r' = (receive_all room tms r1)\<lparr>received := received r1 + of_nat (length tms)\<rparr>"
    using assms(1) unfolding drained_ok_def by blast
  have "contents q m @ (zs @ ys) = map snd (tms1 @ tms) @ contents q' m'"
    using assms(2) d(3) by (metis append_assoc map_append)
  moreover have "r' = (receive_all room (tms1 @ tms) r)\<lparr>received := received r + of_nat (length (tms1 @ tms))\<rparr>"
    by (simp add: d(4) assms(3) receive_all_append add.assoc)
  ultimately show ?thesis using d(1,2) unfolding drained_ok_def by blast
qed

context producing_peer
begin

lemma env_cons:
  assumes "cons_ok q m" "cap q = n"
  obtains ys where "cons_ok q (env i j m)" "contents q (env i j m) = contents q m @ ys"
  using keeps [OF assms(2,1)] adds [OF assms(2,1)] that by blast

end

lemma consumer_turn_cases:
  assumes P: "producing_peer env n" and q: "cons_ok q m" "cap q = n" and buf: "length buf < 2 ^ 64"
  obtains (left) q1 m1 ys where "consumer_turn room env kill stop now i buf r q m = Inl (Inr (r, q1, m1))"
      "cons_ok q1 m1" "contents q m @ ys = contents q1 m1"
  | (again) buf1 r1 q1 m1 ys tms where "consumer_turn room env kill stop now i buf r q m = Inr (buf1, r1, q1, m1)"
      "\<not> stop i" "cons_ok q1 m1" "cap q1 = n" "length buf1 = length buf" "contents q m @ ys = map snd tms @ contents q1 m1"
      "r1 = (receive_all room tms r)\<lparr>received := received r + of_nat (length tms)\<rparr>"
proof (cases "stop i")
  case True
  then show ?thesis using left [of q m "[]"] q by (simp add: consumer_turn_def)
next
  case go: False
  let ?m = "env i 0 m"
  obtain ys0 where e0: "cons_ok q ?m" "contents q ?m = contents q m @ ys0"
    by (rule producing_peer.env_cons [OF P q])
  have un: "unat (of_nat (length buf) :: u64) = length buf" using buf by (intro unat_of_nat_u64) simp
  have b: "unat (of_nat (length buf) :: u64) \<le> length buf" by (simp only: un)
  show ?thesis
  proof (rule pop_n_cases [OF e0(1) b])
    fix wc
    define q1 where "q1 = q\<lparr>writeIdxCache_m := wc\<rparr>"
    assume "pop_n buf (of_nat (length buf)) q ?m = Inr (0, buf, q\<lparr>writeIdxCache_m := wc\<rparr>, ?m)"
      and "cons_ok (q\<lparr>writeIdxCache_m := wc\<rparr>) ?m"
    then have pn: "pop_n buf (of_nat (length buf)) q ?m = Inr (0, buf, q1, ?m)" and ok1: "cons_ok q1 ?m" "cap q1 = n"
      using q by (simp_all add: q1_def)
    have c1: "contents q1 m' = contents q m'" for m' :: "message shm" by (simp add: q1_def)
    define m2 where "m2 = env i 1 ?m"
    obtain ys1 where e1: "cons_ok q1 m2" "contents q1 m2 = contents q1 ?m @ ys1"
      unfolding m2_def by (rule producing_peer.env_cons [OF P ok1])
    define m3 where "m3 = (if \<not> peer_alive (kill i) (role_m q1) m2 then env i 2 m2 else m2)"
    obtain ys2 where e2: "cons_ok q1 m3" "contents q1 m3 = contents q1 m2 @ ys2"
    proof (cases "peer_alive (kill i) (role_m q1) m2")
      case True
      then show ?thesis using that [of "[]"] e1(1) by (simp add: m3_def)
    next
      case False
      then have "m3 = env i 2 m2" by (simp add: m3_def)
      then show ?thesis using that producing_peer.env_cons [OF P e1(1) ok1(2), of i 2] by metis
    qed
    have all: "contents q m @ (ys0 @ ys1 @ ys2) = contents q1 m3" using e0(2) e1(2) e2(2) c1 by simp
    have t: "consumer_turn room env kill stop now i buf r q m =
        (if \<not> peer_alive (kill i) (role_m q1) m2 \<and> empty_q m3 then Inl (Inr (r, q1, m3)) else Inr (buf, r, q1, m3))"
      unfolding consumer_turn_def Let_def pn using go by (simp add: m2_def m3_def)
    show ?thesis
    proof (cases "\<not> peer_alive (kill i) (role_m q1) m2 \<and> empty_q m3")
      case True
      then show ?thesis using left [OF _ e2(1) all] t by simp
    next
      case False
      then show ?thesis using again [OF _ go e2(1) ok1(2) refl, of r "ys0 @ ys1 @ ys2" "[]"] t all by (auto simp: receive_all_def)
    qed
  next
    fix wc idx
    let ?k = "min (unat (of_nat (length buf) :: u64)) (length (contents q ?m))"
    assume k: "0 < ?k" and run: "pop_n buf (of_nat (length buf)) q ?m =
        Inr (of_nat ?k, splice buf 0 (take ?k (contents q ?m)), q\<lparr>writeIdxCache_m := wc\<rparr>, consumed idx ?m)"
      and c: "contents q (consumed idx ?m) = drop ?k (contents q ?m)"
      and ok1: "cons_ok (q\<lparr>writeIdxCache_m := wc\<rparr>) (consumed idx ?m)"
    define K where "K = ?k"
    define q1 buf1 m1 where "q1 = q\<lparr>writeIdxCache_m := wc\<rparr>" and "buf1 = splice buf 0 (take K (contents q ?m))" and "m1 = consumed idx ?m"
    have K: "0 < K" "K \<le> length buf" "K \<le> length (contents q ?m)" "K < 18446744073709551616"
      using k buf by (simp_all add: K_def un)
    then have uK: "unat (of_nat K :: u64) = K" by (intro unat_of_nat_u64)
    then have nz: "(of_nat K :: u64) \<noteq> 0" using K(1) by (metis less_numeral_extra(3) unsigned_0)
    define tms where "tms = map (Pair (now i)) (take K (contents q ?m))"
    have tk: "take K buf1 = take K (contents q ?m)" "length buf1 = length buf"
      using K by (simp_all add: buf1_def splice_def)
    have "consumer_turn room env kill stop now i buf r q m = Inr (buf1, receive_batch room (now i) (of_nat K) buf1 r, q1, m1)"
      unfolding consumer_turn_def run K_def [symmetric] q1_def buf1_def m1_def using go nz by simp
    moreover have "receive_batch room (now i) (of_nat K) buf1 r = (receive_all room tms r)\<lparr>received := received r + of_nat (length tms)\<rparr>"
      unfolding receive_batch_all uK tk(1) using K(3) by (simp add: tms_def min_absorb2)
    moreover have "contents q m @ ys0 = map snd tms @ contents q1 m1"
    proof -
      have "map snd tms = take K (contents q ?m)" by (simp add: tms_def comp_def)
      moreover have "contents q1 m1 = drop K (contents q ?m)" using c by (simp only: q1_def m1_def K_def contents_frame)
      ultimately show ?thesis by (simp only: append_take_drop_id e0(2) [symmetric])
    qed
    ultimately show ?thesis using again go ok1 q(2) tk(2) by (simp add: q1_def m1_def)
  qed
qed

lemma consumer_loop_correct:
  assumes P: "producing_peer env n" and run: "consumer_loop room env kill stop now i buf r q m = Some res"
    and q: "cons_ok q m" "cap q = n" "length buf < 2 ^ 64"
  shows "drained_ok room r q m res"
proof -
  have "env = env \<longrightarrow> cons_ok q m \<and> cap q = n \<and> length buf < 2 ^ 64 \<longrightarrow> drained_ok room r q m res"
  proof (rule consumer_loop.raw_induct [where P = "\<lambda>room e kill stop now i buf r q m res.
      e = env \<longrightarrow> cons_ok q m \<and> cap q = n \<and> length buf < 2 ^ 64 \<longrightarrow> drained_ok room r q m res", OF _ run], intro impI)
    fix loop room e kill stop now i buf r q m res
    assume IH: "\<And>room e kill stop now i buf r q m res. loop room e kill stop now i buf r q m = Some res \<Longrightarrow>
        e = env \<longrightarrow> cons_ok q m \<and> cap q = n \<and> length buf < 2 ^ 64 \<longrightarrow> drained_ok room r q m res"
      and body: "(case consumer_turn room e kill stop now i buf r q m of Inl res \<Rightarrow> Some res
        | Inr (buf1, r1, q1, m1) \<Rightarrow> loop room e kill stop now (Suc i) buf1 r1 q1 m1) = Some res"
      and e: "e = env" and ok: "cons_ok q m \<and> cap q = n \<and> length buf < 2 ^ 64"
    show "drained_ok room r q m res"
    proof (rule consumer_turn_cases [OF P, of q m buf room kill stop now i r])
      fix q1 m1 ys
      assume "consumer_turn room env kill stop now i buf r q m = Inl (Inr (r, q1, m1))" "cons_ok q1 m1"
        "contents q m @ ys = contents q1 m1"
      then show ?thesis using body e unfolding drained_ok_def
        by (intro exI [of _ r] exI [of _ q1] exI [of _ m1] exI [of _ ys] exI [of _ "[]"]) (simp add: receive_all_def)
    next
      fix buf1 r1 q1 m1 ys tms
      assume t: "consumer_turn room env kill stop now i buf r q m = Inr (buf1, r1, q1, m1)" "cons_ok q1 m1" "cap q1 = n"
        "length buf1 = length buf" "contents q m @ ys = map snd tms @ contents q1 m1"
        "r1 = (receive_all room tms r)\<lparr>received := received r + of_nat (length tms)\<rparr>"
      then have "drained_ok room r1 q1 m1 res"
        using IH [of room e kill stop now "Suc i" buf1 r1 q1 m1 res] body e ok by simp
      then show ?thesis by (rule drained_ok_later [OF _ t(5,6)])
    qed (use ok in auto)
  qed
  then show ?thesis using q by blast
qed

lemma consumer_loop_stops:
  assumes P: "producing_peer env n" and "stop N"
  shows "cons_ok q m \<Longrightarrow> cap q = n \<Longrightarrow> length buf < 2 ^ 64 \<Longrightarrow> i \<le> N \<Longrightarrow>
    \<exists>res. consumer_loop room env kill stop now i buf r q m = Some res"
proof (induction "N - i" arbitrary: i buf r q m)
  case 0
  then show ?case using assms(2) by (simp add: consumer_loop.simps consumer_turn_def)
next
  case (Suc d)
  show ?case
  proof (rule consumer_turn_cases [OF P Suc.prems(1-3), of room kill stop now i r])
    fix q1 m1 assume "consumer_turn room env kill stop now i buf r q m = Inl (Inr (r, q1, m1))"
    then show ?thesis by (simp add: consumer_loop.simps)
  next
    fix buf1 r1 q1 m1
    assume t: "consumer_turn room env kill stop now i buf r q m = Inr (buf1, r1, q1, m1)" "cons_ok q1 m1" "cap q1 = n"
      "length buf1 = length buf"
    have "\<exists>res. consumer_loop room env kill stop now (Suc i) buf1 r1 q1 m1 = Some res"
      using Suc.hyps(2) Suc.prems(3) t by (intro Suc.hyps(1)) simp_all
    then show ?thesis using t(1) by (simp add: consumer_loop.simps [of room env kill stop now i])
  qed
qed

lemma drop_append_ex: "\<exists>j. drop k xs @ ys = drop j (xs @ ys)"
proof (cases "k \<le> length xs")
  case True
  then show ?thesis by (intro exI [of _ k]) simp
next
  case False
  then show ?thesis by (intro exI [of _ "length xs"]) simp
qed

lemma producer_loop_go:
  assumes "sent < target" "\<not> stop (unat sent)"
    "push (envs (unat sent)) (kills (unat sent)) 4096 (makeMessage sent (now (unat sent))) q m = Some (Inr (ok, q1, m1))"
  shows "producer_loop envs kills stop now target sent q m =
    (if ok then producer_loop envs kills stop now target (sent + 1) q1 m1 else Some (Inr (sent, q1, m1)))"
  using assms by (subst producer_loop.simps) (simp add: Let_def)

lemma producer_loop_stuck:
  assumes "sent < target" "\<not> stop (unat sent)"
    "push (envs (unat sent)) (kills (unat sent)) 4096 (makeMessage sent (now (unat sent))) q m = None"
  shows "producer_loop envs kills stop now target sent q m = None"
  using assms by (subst producer_loop.simps) (simp add: Let_def)

lemma producer_loop_correct:
  assumes "\<And>i. consuming_peer (envs i) n"
  shows "producer_loop envs kills stop now target sent q m = Some res \<Longrightarrow> prod_ok q m \<Longrightarrow> cap q = n \<Longrightarrow>
    role_m q = Producer \<Longrightarrow> sent \<le> target \<Longrightarrow>
    \<exists>s' q' m' k. res = Inr (s', q', m') \<and> prod_ok q' m' \<and> sent \<le> s' \<and> s' \<le> target \<and>
      (s' = target \<or> stop (unat s') \<or> (\<exists>j. \<not> peer_alive (kills (unat s') j) Producer m')) \<and>
      contents q' m' = drop k (contents q m @ map (\<lambda>i. makeMessage (of_nat i) (now i)) [unat sent..<unat s'])"
proof (induction "unat target - unat sent" arbitrary: sent q m rule: less_induct)
  case less
  define i where "i = unat sent"
  show ?case
  proof (cases "sent < target \<and> \<not> stop i")
    case False
    then have "producer_loop envs kills stop now target sent q m = Some (Inr (sent, q, m))"
      by (subst producer_loop.simps) (auto simp: Let_def i_def)
    then have "res = Inr (sent, q, m)" using less.prems(1) by simp
    moreover have "sent = target \<or> stop i" using False less.prems(5) by auto
    ultimately show ?thesis using less.prems
      by (intro exI [of _ sent] exI [of _ q] exI [of _ m] exI [of _ 0]) (auto simp: i_def)
  next
    case True
    have "push (envs i) (kills i) 4096 (makeMessage sent (now i)) q m \<noteq> None"
      using less.prems(1) producer_loop_stuck [of sent target stop envs kills now q m, folded i_def] True by (metis option.distinct(1))
    then obtain pres where p: "push (envs i) (kills i) 4096 (makeMessage sent (now i)) q m = Some pres" by blast
    have "pushed_ok (kills i) (makeMessage sent (now i)) q m pres"
      using consuming_peer.push_loop_correct [OF assms p [unfolded push_def] less.prems(2-4)] .
    then obtain ok q1 m1 k0 where pr: "pres = Inr (ok, q1, m1)" "prod_ok q1 m1" "cap q1 = cap q" "role_m q1 = role_m q"
        "contents q1 m1 = drop k0 (contents q m) @ (if ok then [makeMessage sent (now i)] else [])"
        "\<not> ok \<longrightarrow> (\<exists>j. \<not> peer_alive (kills i j) Producer m1)"
      by (rule pushed_okE)
    then have q1: "cap q1 = n" "role_m q1 = Producer" using less.prems(3,4) by simp_all
    note go = producer_loop_go [of sent target stop envs kills now q m ok q1 m1, folded i_def]
    show ?thesis
    proof (cases ok)
      case False
      then have "res = Inr (sent, q1, m1)" using less.prems(1) True p pr(1) go by simp
      then show ?thesis using pr False less.prems(5)
        by (intro exI [of _ sent] exI [of _ q1] exI [of _ m1] exI [of _ k0]) (simp add: i_def)
    next
      case ok: True
      have s1: "unat (sent + 1) = Suc (unat sent)" using unat_succ_less [of sent target] True by simp
      have le: "sent + 1 \<le> target" "sent \<le> sent + 1" using s1 True by (simp_all add: word_le_nat_alt word_less_nat_alt)
      have run: "producer_loop envs kills stop now target (sent + 1) q1 m1 = Some res"
        using less.prems(1) True p pr(1) ok go by simp
      have dec: "unat target - unat (sent + 1) < unat target - unat sent" using s1 True by (auto simp: word_less_nat_alt)
      from less.hyps [OF dec run pr(2) q1 le(1)] obtain s' q' m' k where r: "res = Inr (s', q', m')" "prod_ok q' m'" "sent + 1 \<le> s'" "s' \<le> target"
          "s' = target \<or> stop (unat s') \<or> (\<exists>j. \<not> peer_alive (kills (unat s') j) Producer m')"
          "contents q' m' = drop k (contents q1 m1 @ map (\<lambda>i. makeMessage (of_nat i) (now i)) [unat (sent + 1)..<unat s'])"
        by blast
      have "unat sent < unat s'" using r(3) s1 by (simp add: word_le_nat_alt)
      then have upt: "[unat sent..<unat s'] = unat sent # [unat (sent + 1)..<unat s']" by (simp add: upt_conv_Cons s1)
      define S where "S = map (\<lambda>i. makeMessage (of_nat i) (now i)) [unat sent..<unat s']"
      have S: "S = makeMessage sent (now i) # map (\<lambda>i. makeMessage (of_nat i) (now i)) [unat (sent + 1)..<unat s']"
        unfolding S_def upt by (simp add: i_def)
      obtain j where j: "drop k0 (contents q m) @ S = drop j (contents q m @ S)" using drop_append_ex by blast
      have "contents q' m' = drop k (drop k0 (contents q m) @ S)" unfolding r(6) pr(5) S using ok by simp
      then have "contents q' m' = drop (k + j) (contents q m @ S)" by (simp only: j drop_drop)
      moreover have "sent \<le> s'" using le(2) r(3) by (rule order_trans)
      ultimately show ?thesis using r(1,2,4,5) by (intro exI [of _ s'] exI [of _ q'] exI [of _ m'] exI [of _ "k + j"]) (simp only: S_def simp_thms)
    qed
  qed
qed

text \<open>The loop returns if during every push the consumer leaves room at some attempt.\<close>

lemma producer_loop_returns:
  assumes peer: "\<And>i. consuming_peer (envs i) n" and room: "\<And>i. \<exists>N. makes_room (envs i) n N"
  shows "prod_ok q m \<Longrightarrow> cap q = n \<Longrightarrow> role_m q = Producer \<Longrightarrow> \<exists>res. producer_loop envs kills stop now target sent q m = Some res"
proof (induction "unat target - unat sent" arbitrary: sent q m rule: less_induct)
  case less
  define i where "i = unat sent"
  show ?case
  proof (cases "sent < target \<and> \<not> stop i")
    case False
    then show ?thesis by (subst producer_loop.simps) (auto simp: Let_def i_def)
  next
    case True
    obtain N where "makes_room (envs i) n N" using room by blast
    then obtain pres where p: "push (envs i) (kills i) 4096 (makeMessage sent (now i)) q m = Some pres"
      using consuming_peer.push_loop_room [OF peer _ less.prems, of i N 0] unfolding push_def by blast
    have "pushed_ok (kills i) (makeMessage sent (now i)) q m pres"
      using consuming_peer.push_loop_correct [OF peer p [unfolded push_def] less.prems] .
    then obtain ok q1 m1 where pr: "pres = Inr (ok, q1, m1)" "prod_ok q1 m1" "cap q1 = cap q" "role_m q1 = role_m q"
      by (rule pushed_okE)
    have "unat target - unat (sent + 1) < unat target - unat sent"
      using True unat_succ_less [of sent target] by (auto simp: word_less_nat_alt)
    then have "\<exists>res. producer_loop envs kills stop now target (sent + 1) q1 m1 = Some res"
      using less.hyps [of "sent + 1" q1 m1] pr less.prems by simp
    then show ?thesis
      using True p pr(1) producer_loop_go [of sent target stop envs kills now q m ok q1 m1, folded i_def] by (cases ok) auto
  qed
qed

subsection \<open>Properties\<close>

text \<open>Words that agree everywhere except in one place give different checksums.\<close>

lemma checksum_one_word:
  assumes "length (payload a) = length (payload b)" and "i < length (words_of a)" and "words_of a ! i \<noteq> words_of b ! i"
    and "\<forall>j < length (words_of a). j \<noteq> i \<longrightarrow> words_of a ! j = words_of b ! j"
  shows "checksumOf a \<noteq> checksumOf b"
proof -
  define A B where "A = words_of a" and "B = words_of b"
  have l: "length A = length B" "i < length B" using assms(1,2) by (simp_all add: A_def B_def words_of_def)
  have pre: "take i A = take i B" and post: "drop (Suc i) A = drop (Suc i) B"
    using assms(4) l by (auto simp: A_def B_def intro!: nth_equalityI)
  have "A = take i B @ A ! i # drop (Suc i) B" "B = take i B @ B ! i # drop (Suc i) B"
    using l id_take_nth_drop [of i A] id_take_nth_drop [of i B] pre post by simp_all
  then have "fold mix A h = fold mix (drop (Suc i) B) (mix (A ! i) (fold mix (take i B) h))"
    "fold mix B h = fold mix (drop (Suc i) B) (mix (B ! i) (fold mix (take i B) h))" for h
    by (metis fold_append fold_simps(2) comp_apply)+
  then show ?thesis using assms(3) by (simp add: checksumOf_fold fold_mix_inj mix_inj_word flip: A_def B_def)
qed

text \<open>The twelve 32-bit words of a message, in the order of the struct.\<close>

definition message_words :: "message \<Rightarrow> u32 list" where
  "message_words m = [ucast (seq m), ucast (drop_bit 32 (seq m)), ucast (sentNs m), ucast (drop_bit 32 (sentNs m))] @ payload m @
     [checksum m, reserved m]"

lemma message_words_at:
  assumes "length (payload m) = 6"
  shows "length (message_words m) = 12" "length (words_of m) = 8" "message_words m ! 10 = checksum m"
    "k < 8 \<Longrightarrow> words_of m ! k = message_words m ! (if k < 2 then k else k + 2)"
  using assms by (auto simp: message_words_def words_of_def nth_append nth_Cons split: nat.splits)

text \<open>
  C39. What the consumer's checksum test catches of a damaged message: if an intact message, whose
  checksum matches, has exactly one of its twelve 32-bit words changed, the test \<^verbatim>\<open>checksum == checksumOf(m)\<close> rejects it when the
  word belongs to the sequence number, the payload or the checksum itself, and accepts it when it belongs to
  \<^verbatim>\<open>sentNs\<close> (words 2 and 3) or is \<^verbatim>\<open>reserved\<close> (word 11), which the checksum does not cover.
\<close>

theorem checksum_detects_single_word:
  assumes "length (payload a) = 6" "length (payload b) = 6" and "checksum a = checksumOf a"
    and "i < 12" "message_words a ! i \<noteq> message_words b ! i" and "\<forall>j < 12. j \<noteq> i \<longrightarrow> message_words a ! j = message_words b ! j"
  shows "checksum b = checksumOf b \<longleftrightarrow> i \<in> {2, 3, 11}"
proof -
  note A = message_words_at [OF assms(1)] and B = message_words_at [OF assms(2)]
  show ?thesis
  proof (cases "i \<in> {2, 3, 10, 11}")
    case True
    have "words_of a = words_of b"
      by (rule nth_equalityI) (use A B assms(6) True in \<open>auto simp: A(2) B(2)\<close>)
    then have "checksumOf b = checksum a" using assms(3) by (simp add: checksumOf_fold)
    moreover have "checksum a = checksum b \<longleftrightarrow> i \<noteq> 10" using A(3) B(3) assms(5,6) by force
    ultimately show ?thesis using True by auto
  next
    case False
    define k where "k = (if i < 2 then i else i - 2)"
    have k: "k < 8" "i = (if k < 2 then k else k + 2)" using False assms(4) by (auto simp: k_def)
    have "checksumOf a \<noteq> checksumOf b"
    proof (rule checksum_one_word [of _ _ k])
      show "words_of a ! k \<noteq> words_of b ! k" using A(4) [OF k(1)] B(4) [OF k(1)] assms(5) k(2) by simp
      have "words_of a ! j = words_of b ! j" if "j < 8" "j \<noteq> k" for j
        using A(4) [OF that(1)] B(4) [OF that(1)] assms(6) that k by auto
      then show "\<forall>j<length (words_of a). j \<noteq> k \<longrightarrow> words_of a ! j = words_of b ! j" by (simp add: A(2))
    qed (use assms(1,2) k(1) A(2) in simp_all)
    moreover have "checksum b = checksum a" using A(3) B(3) assms(6) False by force
    ultimately show ?thesis using False assms(3) by auto
  qed
qed

theorem checksum_detects_single_word_witness:
  "let a = makeMessage 7 0; b = a\<lparr>payload := (payload a)[3 := 99]\<rparr> in checksum a = checksumOf a \<and> checksum b \<noteq> checksumOf b"
proof -
  define a b where "a = makeMessage 7 0" and "b = a\<lparr>payload := (payload a)[3 := 99]\<rparr>"
  have p: "payload a = [217, 218, 219, 220, 221, 222]" by (simp add: a_def makeMessage_def Let_def upt_rec)
  have c: "checksum a = checksumOf a" by (simp add: a_def makeMessage_def checksumOf_def Let_def)
  have "checksum b = checksumOf b \<longleftrightarrow> 7 \<in> {2, 3, 11 :: nat}"
  proof (rule checksum_detects_single_word [OF _ _ c])
    show "\<forall>j<12. j \<noteq> 7 \<longrightarrow> message_words a ! j = message_words b ! j"
      by (auto simp: message_words_def b_def p nth_Cons split: nat.splits)
  qed (simp_all add: message_words_def b_def p)
  then have "checksum b \<noteq> checksumOf b" by simp
  then show ?thesis using c unfolding Let_def a_def b_def by blast
qed

text \<open>
  C38. The consumer's error counter is exact: over any sequence of fewer than \<open>2 ^ 64\<close> received messages it
  stays zero precisely when they carry the consecutive numbers 0, 1, 2 and so on and every checksum
  matches, so a gap, a duplicate, a reordering or a detected corruption makes the program exit with 1.
\<close>

theorem receiver_errors_exact:
  assumes "length tms < 2 ^ 64"
  shows "exit_code (receive_all room tms receiver_init) = 0 \<longleftrightarrow> stream 0 (map snd tms)"
proof -
  have "misses 0 (map snd tms) < 18446744073709551616"
    using misses_le [of 0 "map snd tms"] assms by (simp add: order_le_less_trans)
  then have "of_nat (misses 0 (map snd tms)) = (0 :: u64) \<longleftrightarrow> misses 0 (map snd tms) = 0"
    using unat_of_nat_u64 [of "misses 0 (map snd tms)"] by auto
  then show ?thesis by (simp add: exit_code_def receive_all_errors receiver_init_def misses_0_iff)
qed

theorem receiver_errors_exact_witness:
  "exit_code (receive_all 8 [(5, makeMessage 0 1), (5, makeMessage 2 1)] receiver_init) \<noteq> 0"
  using receiver_errors_exact [of "[(5, makeMessage 0 1), (5, makeMessage 2 1)]" 8] by (simp add: makeMessage_def Let_def)

text \<open>
  The send loop of the demo producer, whenever it returns, has published the messages it counts:
  numbered consecutively from 0, each built by \<^verbatim>\<open>makeMessage\<close>, behind what was queued, minus what the
  consumer has taken from the front meanwhile. It never faults, never sends more than asked, and
  stops early only on a signal or because the consumer was found gone; it does return if the
  consumer makes room during every push.
\<close>

theorem demo_producer_sends_in_order:
  assumes "\<And>i. consuming_peer (envs i) (cap q)" and "prod_ok q m" and "role_m q = Producer"
  shows "(\<forall>res. producer_loop envs kills stop now target 0 q m = Some res \<longrightarrow>
           (\<exists>s' q' m' k. res = Inr (s', q', m') \<and> prod_ok q' m' \<and> s' \<le> target \<and>
             (s' = target \<or> stop (unat s') \<or> (\<exists>j. \<not> peer_alive (kills (unat s') j) Producer m')) \<and>
             contents q' m' = drop k (contents q m @ map (\<lambda>i. makeMessage (of_nat i) (now i)) [0..<unat s']))) \<and>
         ((\<forall>i. \<exists>N. makes_room (envs i) (cap q) N) \<longrightarrow> (\<exists>res. producer_loop envs kills stop now target 0 q m = Some res))"
proof (intro conjI allI impI)
  fix res assume "producer_loop envs kills stop now target 0 q m = Some res"
  from producer_loop_correct [OF assms(1) this assms(2) refl assms(3)]
  show "\<exists>s' q' m' k. res = Inr (s', q', m') \<and> prod_ok q' m' \<and> s' \<le> target \<and>
      (s' = target \<or> stop (unat s') \<or> (\<exists>j. \<not> peer_alive (kills (unat s') j) Producer m')) \<and>
      contents q' m' = drop k (contents q m @ map (\<lambda>i. makeMessage (of_nat i) (now i)) [0..<unat s'])" by auto
next
  assume "\<forall>i. \<exists>N. makes_room (envs i) (cap q) N"
  then show "\<exists>res. producer_loop envs kills stop now target 0 q m = Some res"
    by (intro producer_loop_returns [OF assms(1) _ assms(2) refl assms(3)]) simp
qed

definition msg_sample :: "queue \<times> message shm" where
  "msg_sample = (ShmSpscQueue\<lparr>capacity_m := 4\<rparr>,
     \<lparr>block = sample_block\<lparr>capacity := 4, writeIdx := 0, readIdx := 0\<rparr>, slots = replicate 4 (makeMessage 0 0)\<rparr>)"

lemma msg_sample_ok:
  "prod_ok (fst msg_sample) (snd msg_sample)" "cons_ok (fst msg_sample) (snd msg_sample)"
  "role_m (fst msg_sample) = Producer" "cap (fst msg_sample) = 4" "contents (fst msg_sample) (snd msg_sample) = []"
  by (simp_all add: msg_sample_def prod_ok_def cons_ok_def ring_ok_def used_def contents_def ring_def ShmSpscQueue_def)

theorem demo_producer_sends_in_order_witness:
  "\<exists>s' q' m' k. producer_loop (\<lambda>_. popping (\<lambda>_ _. True) 4 (makeMessage 0 0)) (\<lambda>_ _ _. None) (\<lambda>_. False) (\<lambda>_. 5) 100 0
       (fst msg_sample) (snd msg_sample) = Some (Inr (s', q', m')) \<and> s' \<le> 100 \<and>
     contents q' m' = drop k (map (\<lambda>i. makeMessage (of_nat i) 5) [0..<unat s'])"
proof -
  let ?env = "popping (\<lambda>_ _. True) 4 (makeMessage 0 0)"
  have c: "consuming_peer ?env (cap (fst msg_sample))"
    using popping.consuming_peer_axioms [of "\<lambda>_ _. True" 4 "makeMessage 0 0"] msg_sample_ok(4) by simp
  have room: "\<exists>N. makes_room ?env (cap (fst msg_sample)) N"
    using popping_makes_room [of "\<lambda>_ _. True" 0 4 "makeMessage 0 0"] msg_sample_ok(4) by auto
  from demo_producer_sends_in_order [OF c msg_sample_ok(1,3), of "\<lambda>_ _ _. None" "\<lambda>_. False" "\<lambda>_. 5" 100] room msg_sample_ok(5)
  show ?thesis by fastforce
qed

text \<open>
  The receive loop of the demo consumer, whenever it is left, has not faulted and has accounted for
  exactly the messages it took: they are a prefix of those queued at the start and added since, in
  order, each counted once; and a stop signal ends it.
\<close>

theorem demo_consumer_accounts:
  assumes "producing_peer env (cap q)" and "cons_ok q m" and "length buf < 2 ^ 64"
  shows "(\<forall>res. consumer_loop room env kill stop now 0 buf r q m = Some res \<longrightarrow> drained_ok room r q m res) \<and>
         ((\<exists>i. stop i) \<longrightarrow> (\<exists>res. consumer_loop room env kill stop now 0 buf r q m = Some res))"
  using consumer_loop_correct [OF assms(1) _ assms(2) refl assms(3)]
    consumer_loop_stops [OF assms(1) _ assms(2) refl assms(3)] by blast

theorem demo_consumer_accounts_witness:
  "\<exists>res. consumer_loop 8 (pushing (\<lambda>_ _. True) 4 (\<lambda>i _. makeMessage (of_nat i) 1)) (\<lambda>_ _. None) (\<lambda>i. i = 5) (\<lambda>_. 7) 0
       (replicate 256 (makeMessage 0 0)) receiver_init (fst msg_sample) (snd msg_sample) = Some res \<and>
     drained_ok 8 receiver_init (fst msg_sample) (snd msg_sample) res"
proof -
  define env :: "message env" where "env = pushing (\<lambda>_ _. True) 4 (\<lambda>i _. makeMessage (of_nat i) 1)"
  have c: "producing_peer env (cap (fst msg_sample))"
    unfolding env_def using pushing.producing_peer_axioms [of "\<lambda>_ _. True" 4 "\<lambda>i _. makeMessage (of_nat i) 1"] msg_sample_ok(4) by simp
  have l: "length (replicate 256 (makeMessage 0 0)) < 2 ^ 64" by simp
  show ?thesis
    unfolding env_def [symmetric]
    using demo_consumer_accounts [OF c msg_sample_ok(2) l, of 8 "\<lambda>_ _. None" "\<lambda>i. i = 5" "\<lambda>_. 7" receiver_init] by blast
qed

end
