(* ===== verification/RefHost.thy ===== *)
theory RefHost
  imports Lifecycle
begin

section \<open>Sessions on the reference host\<close>

text \<open>
  On the host \<open>ref_host\<close> with no failing call, \<^verbatim>\<open>ShmSegment::create\<close> and \<^verbatim>\<open>ShmSegment::open\<close> succeed whenever their
  arguments allow it. \<open>tidy\<close> says that the numbers the kernel hands out next are unused. The examples of
  the later theories are sessions on this host.
\<close>

definition tidy :: "kst \<Rightarrow> bool" where
  "tidy k \<longleftrightarrow> (\<forall>i \<ge> fresh k. fds (kv k) i = None \<and> i \<notin> known (kv k) \<and> maps (kv k) i = None)"

abbreviation ref :: "i32 \<Rightarrow> kst host" where "ref self \<equiv> ref_host (\<lambda>_. None) self"

lemma tidy_init: "tidy (kern world_init)"
  by (simp add: tidy_def world_init_def kst_init_def)

lemma ref_seg_create:
  assumes "tidy k" "validateName name = Inr ()" "bytes \<noteq> 0" "0 \<le> sint bytes"
  obtains s k' where "seg_create (ref_posix (\<lambda>_. None)) name bytes k = (Inr s, k')" "tidy k'"
proof -
  have nn: "\<not> sint bytes < 0" using assms(4) by simp
  have "\<exists>s k'. seg_create (ref_posix (\<lambda>_. None)) name bytes k = (Inr s, k') \<and> tidy k'"
    using assms(1) by (simp add: seg_create_def mapAndClose_def ref_posix_def ref_open_def unlinked_def Let_def tidy_def assms(2,3) nn)
  then show ?thesis using that by blast
qed

lemma ref_seg_open:
  assumes "tidy k" "validateName name = Inr ()" "links (kv k) (c_str name) = Some ob" "0 < osize (kv k) ob"
  obtains s k' where "seg_open (ref_posix (\<lambda>_. None)) name k = (Inr s, k')" "tidy k'"
proof -
  have nn: "\<not> osize (kv k) ob \<le> 0" using assms(4) by simp
  have "\<exists>s k'. seg_open (ref_posix (\<lambda>_. None)) name k = (Inr s, k') \<and> tidy k'"
    using assms(1) by (simp add: seg_open_def mapAndClose_def ref_posix_def ref_open_def Let_def tidy_def assms(2,3) nn)
  then show ?thesis using that by blast
qed

text \<open>Messages have 48 bytes.\<close>

definition bin48 :: binary where "bin48 = bin8\<lparr>sizeof_T := 48\<rparr>"

lemma bin48_ok: "binary_ok bin48" "unat (sizeof_T bin48) < 2 ^ 32"
  by (simp_all add: bin48_def bin8_def binary_ok_def)

lemma create_kern:
  assumes "create H b name cap0 role w = (Inr q, w')"
  shows "\<exists>bytes s k. bytesNeeded b (clamped cap0) = Inr bytes \<and> seg_create (posix_of H) name bytes (kern w) = (Inr s, k) \<and> kern w' = snd (seg_reset (posix_of H) ShmSegment k) \<and>
    ctrl_m q = addr_m s"
proof -
  have not_unwind: "unwind H e q1 v \<noteq> (Inr q, v')" for e q1 v v'
    by (auto simp: unwind_def split: err.splits prod.splits sum.splits)
  show ?thesis using assms
    by (auto simp: create_def Let_def clamped_def not_unwind bind_def store_def seg_move_assign_eq ShmSpscQueue_def split: sum.splits prod.splits)
qed

lemma bin48_bytes:
  assumes "0 < cap0" "unat cap0 < 2 ^ 32"
  obtains bytes where "bytesNeeded bin48 cap0 = Inr bytes" "0 < sint bytes"
proof -
  have "\<exists>bytes. bytesNeeded bin48 cap0 = Inr bytes \<and> unat bytes = 4 * 64 + (unat cap0 + 1) * 48"
    using bytesNeeded_exact [OF bin48_ok(1), of cap0] assms(2) by (auto simp: Let_def bin48_def bin8_def split: sum.splits if_splits)
  then obtain bytes where b: "bytesNeeded bin48 cap0 = Inr bytes" "unat bytes = 4 * 64 + (unat cap0 + 1) * 48" by blast
  have i: "int (unat bytes) = uint bytes" by simp
  have "0 < unat bytes" "unat bytes < 9223372036854775808" using b(2) assms(2) by simp_all
  then have u: "0 < uint bytes" "uint bytes < 9223372036854775808" using i by linarith+
  then have "sint bytes = uint bytes" by (simp add: sint_uint signed_take_bit_int_eq_self_iff)
  then show ?thesis using that [OF b(1)] u(1) by simp
qed

lemma ref_create:
  assumes "tidy (kern w)" "validateName name = Inr ()" "bytesNeeded b (clamped cap0) = Inr bytes" "0 < sint bytes"
  obtains q w1 ob where "create (ref self) b name cap0 role w = (Inr q, w1)" "reaches (ref self) q w1 = Some ob" "size_m (seg_m q) = bytes"
    "tidy (kern w1)" "links (kv (kern w1)) (c_str name) = Some ob" "osize (kv (kern w1)) ob = sint bytes"
    "\<forall>n. n \<noteq> c_str name \<longrightarrow> links (kv (kern w1)) n = links (kv (kern w)) n"
    "\<forall>ob' \<in> known (kv (kern w)). osize (kv (kern w1)) ob' = osize (kv (kern w)) ob'" "ob \<in> known (kv (kern w1))"
    "\<forall>a x. maps (kv (kern w)) a = Some x \<longrightarrow> maps (kv (kern w1)) a = Some x"
proof -
  have nz: "bytes \<noteq> 0" "0 \<le> sint bytes" using assms(4) by auto
  obtain s k where sc: "seg_create (posix_of (ref self)) name bytes (kern w) = (Inr s, k)" "tidy k"
    unfolding ref_host_def host.select_convs by (rule ref_seg_create [OF assms(1,2) nz])
  obtain q w1 where cr: "create (ref self) b name cap0 role w = (Inr q, w1)"
    by (rule refh.create_cases [of b cap0 "\<lambda>_. None" self name role w]) (use assms(3) sc(1) in auto)
  have "kern w1 = snd (seg_reset (posix_of (ref self)) ShmSegment k)" using create_kern [OF cr] assms(3) sc(1) by simp
  then have t: "tidy (kern w1)" using sc(2) by (simp add: seg_reset_def ShmSegment_def)
  obtain ob a where c: "seg_m q = \<lparr>addr_m = Some a, size_m = bytes, owner_m = True, name_m = name\<rparr>" "ctrl_m q = Some a"
      "maps (kv (kern w)) a = None" "ob \<notin> known (kv (kern w))"
      "kv (kern w1) = (kv (kern w))\<lparr>links := (links (kv (kern w)))(c_str name \<mapsto> ob), osize := (osize (kv (kern w)))(ob := sint bytes),
         known := insert ob (known (kv (kern w))), owned := insert ob (owned (kv (kern w))), maps := (maps (kv (kern w)))(a \<mapsto> (ob, bytes))\<rparr>"
    by (rule refh.create_ok [OF cr]) (use assms(3) in \<open>auto intro: that\<close>)
  have "reaches (ref self) q w1 = Some ob" using c(2,5) by (simp add: refh.reaches_iff)
  then show ?thesis by (rule that [OF cr _ _ t]) (use c in auto)
qed

end
