(* ===== verification/Wire.thy ===== *)
theory Wire
  imports Demo RefHost
begin

section \<open>Elements as bytes of the mapping\<close>

text \<open>
  \<open>Ring\<close> and the theories above it take the slots as an array of elements. Here are the bytes below that
  array: where \<^verbatim>\<open>create\<close> puts the slots and how the compiler lays out \<^verbatim>\<open>demo::Message\<close>.
\<close>

definition Message :: "member list" where
  "Message = [(''seq'', 8, 8), (''sentNs'', 8, 8), (''payload'', 24, 4), (''checksum'', 4, 4), (''reserved'', 4, 4)]"

definition sizeof_Message :: nat where
  "sizeof_Message = align_up (end_of 0 Message) (Max (set (map (\<lambda>(f, sz, al). al) Message)))"

definition encode_message :: "message \<Rightarrow> 8 word list" where
  "encode_message m = le_bytes 8 (unat (seq m)) @ le_bytes 8 (unat (sentNs m)) @ concat (map (\<lambda>v. le_bytes 4 (unat v)) (payload m)) @
     le_bytes 4 (unat (checksum m)) @ le_bytes 4 (unat (reserved m))"

definition member_bytes :: "string \<Rightarrow> nat \<Rightarrow> 8 word list \<Rightarrow> 8 word list" where
  "member_bytes f sz bs = (case map_of (place 0 Message) f of None \<Rightarrow> [] | Some off \<Rightarrow> take sz (drop off bs))"

definition decode_message :: "8 word list \<Rightarrow> message" where
  "decode_message bs =
     \<lparr>seq = of_nat (le_value (member_bytes ''seq'' 8 bs)), sentNs = of_nat (le_value (member_bytes ''sentNs'' 8 bs)),
      payload = map (\<lambda>i. of_nat (le_value (take 4 (drop (4 * i) (member_bytes ''payload'' 24 bs))))) [0..<6],
      checksum = of_nat (le_value (member_bytes ''checksum'' 4 bs)), reserved = of_nat (le_value (member_bytes ''reserved'' 4 bs))\<rparr>"

subsection \<open>The layout of a message\<close>

lemma message_places:
  "place 0 Message = [(''seq'', 0), (''sentNs'', 8), (''payload'', 16), (''checksum'', 40), (''reserved'', 44)]"
  by (simp add: Message_def align_up_def)

lemma sizeof_Message [simp]: "sizeof_Message = 48"
  by (simp add: sizeof_Message_def Message_def align_up_def)

lemma length_concat_const: "(\<And>x. x \<in> set xs \<Longrightarrow> length (f x) = n) \<Longrightarrow> length (concat (map f xs)) = length xs * n"
  by (induction xs) simp_all

lemma chunk_of_concat:
  "(\<And>x. x \<in> set xs \<Longrightarrow> length (f x) = n) \<Longrightarrow> k < length xs \<Longrightarrow> take n (drop (k * n) (concat (map f xs))) = f (xs ! k)"
proof (induction xs arbitrary: k)
  case (Cons x xs)
  then show ?case by (cases k) simp_all
qed simp

lemma length_encode_message [simp]: "length (payload m) = 6 \<Longrightarrow> length (encode_message m) = 48"
  by (simp add: encode_message_def length_concat_const [where n = 4])

lemma decode_encode_message:
  assumes "length (payload m) = 6"
  shows "decode_message (encode_message m) = m"
proof -
  define pl where "pl = concat (map (\<lambda>v :: u32. le_bytes 4 (unat v)) (payload m))"
  have len: "length pl = 24" using assms by (simp add: pl_def length_concat_const [where n = 4])
  have "take 4 (drop (4 * i) pl) = le_bytes 4 (unat (payload m ! i))" if "i < 6" for i
    using chunk_of_concat [of "payload m" "\<lambda>v. le_bytes 4 (unat v)" 4 i] that assms by (simp add: pl_def mult.commute)
  then have "map (\<lambda>i. of_nat (le_value (take 4 (drop (4 * i) pl)))) [0..<6] = map (\<lambda>i. payload m ! i) [0..<6]"
    by (intro map_cong) simp_all
  also have "\<dots> = payload m" using map_nth [of "payload m"] assms by simp
  finally have "map (\<lambda>i. of_nat (le_value (take 4 (drop (4 * i) pl)))) [0..<6] = payload m" .
  then show ?thesis
    using len by (simp add: decode_message_def member_bytes_def message_places encode_message_def pl_def [symmetric])
qed

subsection \<open>Properties\<close>

text \<open>
  C26. A message is the 48 bytes the \<^verbatim>\<open>static_assert\<close> of \<^verbatim>\<open>common.h\<close> demands, without padding, and reading the members
  back at the compiler's offsets gives the message.
\<close>

theorem message_wire_format:
  assumes "length (payload m) = 6"
  shows "sizeof_Message = 48 \<and> length (encode_message m) = sizeof_Message \<and> decode_message (encode_message m) = m \<and>
         map_of (place 0 Message) ''payload'' = Some 16 \<and> map_of (place 0 Message) ''reserved'' = Some 44"
  using decode_encode_message [OF assms] assms by (simp add: message_places)

theorem message_wire_format_witness:
  "length (payload (makeMessage 7 3)) = 6 \<and> decode_message (encode_message (makeMessage 7 3)) = makeMessage 7 3"
proof -
  have "length (payload (makeMessage 7 3)) = 6" by (simp add: makeMessage_def)
  then show ?thesis using message_wire_format by blast
qed

text \<open>
  C25. Where \<^verbatim>\<open>create\<close> puts the slots, on a mapping that starts at a multiple of the cache line size (as \<^verbatim>\<open>mmap\<close> gives
  it): they follow the control block with a whole line between slot 0 and the read index, every slot is
  aligned for its type, no two overlap, and the last one ends where the mapping ends.
\<close>

theorem created_slots_laid_out:
  assumes "shm_host H view time" and "binary_ok b" and "unat (sizeof_T b) < 2 ^ 32"
    and "create H b name cap0 role w = (Inr q, w')" and "ctrl_m q = Some a" and "kCacheLine b dvd a"
  shows "\<exists>base. slots_m q = Some base \<and> base = a + sizeof_block (kCacheLine b) \<and>
           the (offsets_of_block (kCacheLine b) ''readIdx'') + 2 * kCacheLine b = sizeof_block (kCacheLine b) \<and>
           (\<forall>i < cap q. let s = base + i * unat (sizeof_T b) in
              unat (alignof_T b) dvd s \<and> s + unat (sizeof_T b) \<le> a + unat (size_m (seg_m q)) \<and>
              (\<forall>j < i. base + j * unat (sizeof_T b) + unat (sizeof_T b) \<le> s)) \<and>
           base + cap q * unat (sizeof_T b) = a + unat (size_m (seg_m q))"
proof -
  obtain bytes where c: "bytesNeeded b (clamped cap0) = Inr bytes" "0 \<le> sint bytes" "size_m (seg_m q) = bytes"
      "capacity_m q = clamped cap0 + 1" "slots_m q = Some (a + unat (ucast (sizeof_ControlBlock b) :: u32))"
    by (rule shm_host.create_ok [OF assms(1,4)]) (use assms(5) in \<open>auto intro: that\<close>)
  note g = created_geometry [OF assms(2,3) c(1,2)]
  define L T where "L = kCacheLine b" and "T = unat (sizeof_T b)"
  have b: "56 < L" "8 dvd L" "unat (alignof_T b) dvd T" "unat (alignof_T b) dvd L" "L \<le> 65536" "L dvd a"
    using assms(2,6) by (simp_all add: binary_ok_def L_def T_def)
  have size: "sizeof_block L = 4 * L" by (rule sizeof_block_eq [OF b(1,2)])
  have "unat (ucast (sizeof_ControlBlock b) :: u32) = 4 * L"
    using unat_sizeof_ControlBlock [OF assms(2)] b(5) by (simp add: L_def unsigned_ucast_eq take_bit_nat_eq_self)
  then have base: "slots_m q = Some (a + 4 * L)" using c(5) by simp
  have n: "unat (size_m (seg_m q)) = 4 * L + cap q * T" using g(1,4) c(3,4) by (simp add: L_def T_def)
  have "unat (alignof_T b) dvd a + 4 * L + i * T" for i using b by (auto intro: dvd_add dvd_mult dvd_trans)
  moreover have "i * T + T \<le> cap q * T" if "i < cap q" for i using mult_le_mono1 [of "Suc i" "cap q" T] that by simp
  moreover have "j * T + T \<le> i * T" if "j < i" for i j using mult_le_mono1 [of "Suc j" i T] that by simp
  moreover have "offsets_of_block L ''readIdx'' = Some (2 * L)" using block_places [OF b(1,2)] by (simp add: offsets_of_block_def)
  ultimately show ?thesis using base size n by (intro exI [of _ "a + 4 * L"]) (simp add: Let_def L_def T_def)
qed

text \<open>A create on the reference host whose mapping starts at address 64.\<close>

theorem created_slots_laid_out_witness:
  "\<exists>q w' base. create (ref 42) bin48 ''/q'' 4 Producer (world_init\<lparr>kern := kst_init\<lparr>fresh := 63\<rparr>\<rparr>) = (Inr q, w') \<and>
     ctrl_m q = Some 64 \<and> slots_m q = Some base \<and> base + cap q * 48 = 64 + unat (size_m (seg_m q))"
proof -
  let ?w = "world_init\<lparr>kern := kst_init\<lparr>fresh := 63\<rparr>\<rparr>"
  have t: "tidy (kern ?w)" by (simp add: tidy_def kst_init_def)
  have n: "validateName ''/q'' = Inr ()" by (simp add: validateName_ok_iff)
  obtain bytes where "bytesNeeded bin48 4 = Inr bytes" and pos: "0 < sint bytes" by (rule bin48_bytes [of 4]) simp_all
  then have bn: "bytesNeeded bin48 (clamped 4) = Inr bytes" by (simp add: clamped_def)
  obtain q w' where cr: "create (ref 42) bin48 ''/q'' 4 Producer ?w = (Inr q, w')"
    by (rule ref_create [OF t n bn pos, of 42 Producer])
  have nz: "bytes \<noteq> 0" "\<not> sint bytes < 0" using pos by auto
  have "\<exists>s k. seg_create (posix_of (ref 42)) ''/q'' bytes (kern ?w) = (Inr s, k) \<and> addr_m s = Some 64"
    using nz by (simp add: ref_host_def seg_eval)
  then have a: "ctrl_m q = Some 64" using create_kern [OF cr] bn by auto
  have d: "kCacheLine bin48 dvd 64" "unat (sizeof_T bin48) = 48" by (simp_all add: bin48_def bin8_def)
  from created_slots_laid_out [OF refh.shm_host_axioms bin48_ok cr a d(1)] show ?thesis using cr a unfolding d(2) by auto
qed

end
