(* ===== verification/Fair.thy ===== *)
theory Fair
  imports Prelude
begin

section \<open>Two processes under a fair scheduler\<close>

text \<open>
  The benchmarks fork a process and let the two run to their ends over shared queues. A system of
  two processes is a function that takes one turn of either; a scheduler says whose turn it is. The
  locale \<open>fair_pair\<close> states what is enough for every fair schedule to bring such a system to its final state:
  turns never fault and never lose ground, somebody can always gain some, and who can is not put
  off by turns of the other that gain nothing.
\<close>

primrec run_pair :: "(bool \<Rightarrow> 's \<Rightarrow> fault + 's) \<Rightarrow> (nat \<Rightarrow> bool) \<Rightarrow> nat \<Rightarrow> 's \<Rightarrow> fault + 's" where
  "run_pair turn sched 0 s = Inr s"
| "run_pair turn sched (Suc n) s = bindE (run_pair turn sched n s) (turn (sched n))"

text \<open>What every turn keeps holds from the first time on.\<close>

lemma run_pair_stays:
  assumes "run_pair turn sched k s = Inr t" "Q t" and keeps: "\<And>i t t'. run_pair turn sched i s = Inr t \<Longrightarrow> Q t \<Longrightarrow> turn (sched i) t = Inr t' \<Longrightarrow> Q t'"
  shows "k \<le> j \<Longrightarrow> run_pair turn sched j s = Inr t' \<Longrightarrow> Q t'"
proof (induction j arbitrary: t' rule: dec_induct)
  case base
  then show ?case using assms(1,2) by simp
next
  case (step j)
  obtain t1 where "run_pair turn sched j s = Inr t1" "turn (sched j) t1 = Inr t'"
    using step.prems by (cases "run_pair turn sched j s") auto
  then show ?case using step.IH keeps by blast
qed

definition fair :: "(nat \<Rightarrow> bool) \<Rightarrow> bool" where
  "fair sched \<longleftrightarrow> (\<forall>n w. \<exists>k \<ge> n. sched k = w)"

locale fair_pair =
  fixes turn :: "bool \<Rightarrow> 's \<Rightarrow> fault + 's" and inv :: "'s \<Rightarrow> bool" and final :: "'s \<Rightarrow> bool" and left :: "'s \<Rightarrow> nat"
  assumes safe: "inv s \<Longrightarrow> \<exists>s'. turn w s = Inr s' \<and> inv s' \<and> left s' \<le> left s"
    and progress: "inv s \<Longrightarrow> \<not> final s \<Longrightarrow> \<exists>w s'. turn w s = Inr s' \<and> left s' < left s"
    and persists: "inv s \<Longrightarrow> turn w s = Inr s1 \<Longrightarrow> left s1 < left s \<Longrightarrow> turn (\<not> w) s = Inr s2 \<Longrightarrow> left s2 = left s \<Longrightarrow>
      \<exists>s3. turn w s2 = Inr s3 \<and> left s3 < left s2"
begin

lemma run_safe: "inv s \<Longrightarrow> \<exists>s'. run_pair turn sched n s = Inr s' \<and> inv s'"
proof (induction n)
  case (Suc n)
  then obtain t where t: "run_pair turn sched n s = Inr t" "inv t" by blast
  then show ?case using safe [OF t(2), of "sched n"] by auto
qed simp

lemma gains:
  assumes "sched k = w" "inv s"
  shows "run_pair turn sched n s = Inr t \<Longrightarrow> n \<le> k \<Longrightarrow> \<exists>t1. turn w t = Inr t1 \<and> left t1 < left t \<Longrightarrow>
    \<exists>n' t'. run_pair turn sched n' s = Inr t' \<and> left t' < left t"
proof (induction "k - n" arbitrary: n t rule: less_induct)
  case less
  obtain t1 where t1: "turn w t = Inr t1" "left t1 < left t" using less.prems(3) by blast
  have inv: "inv t" using run_safe [OF assms(2), of sched n] less.prems(1) by auto
  show ?case
  proof (cases "sched n = w")
    case True
    then have "run_pair turn sched (Suc n) s = Inr t1" using less.prems(1) t1(1) by simp
    then show ?thesis using t1(2) by blast
  next
    case False
    then have w: "sched n = (\<not> w)" by auto
    obtain t2 where t2: "turn (\<not> w) t = Inr t2" "left t2 \<le> left t" using safe [OF inv] by blast
    have run: "run_pair turn sched (Suc n) s = Inr t2" using less.prems(1) t2(1) w by simp
    show ?thesis
    proof (cases "left t2 = left t")
      case True
      have "n \<noteq> k" using False assms(1) by blast
      then have "k - Suc n < k - n" "Suc n \<le> k" using less.prems(2) by linarith+
      from less.hyps [OF this(1) run this(2) persists [OF inv t1 t2(1) True]] show ?thesis using True by simp
    next
      case False
      then show ?thesis using t2(2) run by (intro exI [of _ "Suc n"] exI [of _ t2]) simp
    qed
  qed
qed

theorem completes:
  assumes "fair sched" "inv s"
  shows "\<exists>n t. run_pair turn sched n s = Inr t \<and> inv t \<and> final t"
proof -
  have "\<exists>n t. run_pair turn sched n s = Inr t \<and> final t" if "run_pair turn sched n s = Inr t" for n t
    using that
  proof (induction "left t" arbitrary: n t rule: less_induct)
    case less
    have inv: "inv t" using run_safe [OF assms(2), of sched n] less.prems by auto
    show ?case
    proof (cases "final t")
      case False
      then obtain w where w: "\<exists>t1. turn w t = Inr t1 \<and> left t1 < left t" using progress [OF inv] by blast
      obtain k where k: "n \<le> k" "sched k = w" using assms(1) unfolding fair_def by blast
      obtain n' t' where "run_pair turn sched n' s = Inr t'" "left t' < left t"
        using gains [OF k(2) assms(2) less.prems k(1) w] by blast
      then show ?thesis using less.hyps by blast
    qed (use less.prems in blast)
  qed
  from this [of 0 s] obtain n t where "run_pair turn sched n s = Inr t" "final t" by auto
  then show ?thesis using run_safe [OF assms(2), of sched n] by auto
qed

end

text \<open>
  The contract the benchmarks meet: it is known from the state which process can gain, and a turn of
  one that cannot leaves the other as it was.
\<close>

locale ready_pair =
  fixes turn :: "bool \<Rightarrow> 's \<Rightarrow> fault + 's" and inv :: "'s \<Rightarrow> bool" and final :: "'s \<Rightarrow> bool" and left :: "'s \<Rightarrow> nat"
    and ready :: "bool \<Rightarrow> 's \<Rightarrow> bool"
  assumes takes: "inv s \<Longrightarrow> \<exists>s'. turn w s = Inr s' \<and> inv s' \<and>
      (if ready w s then left s' < left s else left s' = left s \<and> (ready (\<not> w) s' \<longleftrightarrow> ready (\<not> w) s))"
    and someone: "inv s \<Longrightarrow> \<not> final s \<Longrightarrow> \<exists>w. ready w s"

sublocale ready_pair \<subseteq> fair_pair turn inv final left
proof
  fix s w assume "inv s"
  then show "\<exists>s'. turn w s = Inr s' \<and> inv s' \<and> left s' \<le> left s" using takes [of s w] by (auto split: if_splits)
next
  fix s assume "inv s" "\<not> final s"
  then obtain w where "ready w s" using someone by blast
  then show "\<exists>w s'. turn w s = Inr s' \<and> left s' < left s" using takes [OF \<open>inv s\<close>, of w] by auto
next
  fix s w s1 s2
  assume inv: "inv s" and t1: "turn w s = Inr s1" "left s1 < left s" and t2: "turn (\<not> w) s = Inr s2" "left s2 = left s"
  have w: "ready w s" "\<not> ready (\<not> w) s"
    using takes [OF inv, of w] takes [OF inv, of "\<not> w"] t1 t2 by (auto split: if_splits)
  then have "inv s2" "ready w s2" using takes [OF inv, of "\<not> w"] t2 by (auto split: if_splits)
  then show "\<exists>s3. turn w s2 = Inr s3 \<and> left s3 < left s2" using takes [of s2 w] by auto
qed

text \<open>The scheduler that alternates is fair.\<close>

lemma fair_even: "fair even"
  unfolding fair_def
proof (intro allI)
  fix n :: nat and w
  show "\<exists>k \<ge> n. even k = w" by (cases "even n = w") (auto intro: exI [of _ "Suc n"])
qed

end
