(* ===== verification/Throughput.thy ===== *)
theory Throughput
  imports Demo Fifo Fair
begin

section \<open>The throughput benchmark\<close>

text \<open>
  \<^verbatim>\<open>run\<close> of \<^verbatim>\<open>src/bench_throughput.cpp\<close> from the fork on: the child drains the queue with
  \<^verbatim>\<open>try_pop\<close> or \<^verbatim>\<open>pop_n\<close> until it has \<^verbatim>\<open>total\<close> messages, the parent fills it with \<^verbatim>\<open>try_push\<close> or
  \<^verbatim>\<open>push_n\<close>. A turn of a process is one operation on the queue with the bookkeeping that follows;
  \<open>Spsc\<close> justifies taking operations as atomic. What the processes have pushed and taken is recorded
  beside their variables. The rates computed from the elapsed time afterwards are not modelled.
\<close>

record tput =
  link :: "message chan"
  sentCount :: u64 \<comment> \<open>\<^verbatim>\<open>i\<close> or \<^verbatim>\<open>sent\<close> of the parent\<close>
  gotCount :: u64 \<comment> \<open>\<^verbatim>\<open>got\<close> of the child\<close>
  popVar :: message
  popBuf :: "message list"
  pushed :: "message list" \<comment> \<open>recorded, not in the program\<close>
  taken :: "message list" \<comment> \<open>recorded, not in the program\<close>

text \<open>Lines 53--56.\<close>

definition bench_buf :: "u64 \<Rightarrow> message list" where
  "bench_buf batch = map (\<lambda>i. makeMessage (of_nat i) 0) [0..<unat batch]"

text \<open>Lines 59--71; a parent that has left its loop does nothing more to the queue.\<close>

definition parent_turn :: "u64 \<Rightarrow> u64 \<Rightarrow> tput \<Rightarrow> fault + tput" where
  "parent_turn total_n batch s =
     (let buf = bench_buf batch in
      if \<not> sentCount s < total_n then Inr s
      else if batch = 1
      then bindE (chan_push (buf ! 0) (link s)) (\<lambda>(ok, c).
             Inr (if ok then s\<lparr>link := c, sentCount := sentCount s + 1, pushed := pushed s @ [buf ! 0]\<rparr>
                  else s\<lparr>link := c\<rparr>))
      else let want = min batch (total_n - sentCount s)
           in bindE (chan_push_n buf want (link s)) (\<lambda>(k, c).
                Inr (s\<lparr>link := c, sentCount := sentCount s + k, pushed := pushed s @ take (unat k) buf\<rparr>)))"

text \<open>Lines 31--42.\<close>

definition child_turn :: "bool \<Rightarrow> u64 \<Rightarrow> u64 \<Rightarrow> tput \<Rightarrow> fault + tput" where
  "child_turn ndebug total_n batch s =
     (if \<not> gotCount s < total_n then Inr s
      else if batch = 1
      then bindE (chan_pop ndebug (popVar s) (link s)) (\<lambda>(ok, x, c).
             Inr (if ok then s\<lparr>link := c, popVar := x, gotCount := gotCount s + 1, taken := taken s @ [x]\<rparr>
                  else s\<lparr>link := c, popVar := x\<rparr>))
      else bindE (chan_pop_n (popBuf s) (of_nat (length (popBuf s))) (link s)) (\<lambda>(k, buf, c).
             Inr (s\<lparr>link := c, popBuf := buf, gotCount := gotCount s + k, taken := taken s @ take (unat k) buf\<rparr>)))"

definition tput_turn :: "bool \<Rightarrow> u64 \<Rightarrow> u64 \<Rightarrow> bool \<Rightarrow> tput \<Rightarrow> fault + tput" where
  "tput_turn ndebug total_n batch parent s = (if parent then parent_turn total_n batch s else child_turn ndebug total_n batch s)"

text \<open>Both processes attached, nothing sent: \<^verbatim>\<open>Message m{}\<close> and \<^verbatim>\<open>std::vector<Message> buf(batch)\<close> are zeroed.\<close>

definition zero_message :: message where
  "zero_message = \<lparr>seq = 0, sentNs = 0, payload = replicate 6 0, checksum = 0, reserved = 0\<rparr>"

definition tput_init :: "u64 \<Rightarrow> message chan \<Rightarrow> tput" where
  "tput_init batch c =
     \<lparr>link = c, sentCount = 0, gotCount = 0, popVar = zero_message, popBuf = replicate (unat batch) zero_message,
      pushed = [], taken = []\<rparr>"

subsection \<open>Turns\<close>

definition tput_inv :: "u64 \<Rightarrow> u64 \<Rightarrow> tput \<Rightarrow> bool" where
  "tput_inv total_n batch s \<longleftrightarrow>
     chan_ok (link s) \<and> 0 < chan_bound (link s) \<and> batch \<noteq> 0 \<and> length (popBuf s) = unat batch \<and>
     pushed s = taken s @ chan_items (link s) \<and> unat (sentCount s) = length (pushed s) \<and>
     unat (gotCount s) = length (taken s) \<and> length (pushed s) \<le> unat total_n"

definition tput_final :: "u64 \<Rightarrow> tput \<Rightarrow> bool" where
  "tput_final total_n s \<longleftrightarrow> sentCount s = total_n \<and> gotCount s = total_n"

definition tput_left :: "u64 \<Rightarrow> tput \<Rightarrow> nat" where
  "tput_left total_n s = (unat total_n - length (pushed s)) + (unat total_n - length (taken s))"

text \<open>How much a turn moves.\<close>

definition parent_moves :: "u64 \<Rightarrow> u64 \<Rightarrow> tput \<Rightarrow> nat" where
  "parent_moves total_n batch s =
     min (min (unat batch) (unat total_n - length (pushed s))) (chan_bound (link s) - length (chan_items (link s)))"

definition child_moves :: "u64 \<Rightarrow> tput \<Rightarrow> nat" where
  "child_moves batch s = min (unat batch) (length (chan_items (link s)))"

lemma unat_add_count:
  assumes "unat (a :: u64) = n" "n + k \<le> unat (b :: u64)"
  shows "unat (a + of_nat k) = n + k" "unat (of_nat k :: u64) = k"
proof -
  have "n + k < 18446744073709551616" using assms(2) unat_u64_less [of b] by linarith
  then show "unat (of_nat k :: u64) = k" by (intro unat_of_nat_u64) linarith
  then show "unat (a + of_nat k) = n + k" using assms(1) \<open>n + k < _\<close> by (simp add: unat_word_ariths)
qed

lemma parent_turn_moves:
  assumes inv: "tput_inv total_n batch s"
  defines "k \<equiv> parent_moves total_n batch s"
  shows "\<exists>s'. parent_turn total_n batch s = Inr s' \<and> tput_inv total_n batch s' \<and> taken s' = taken s \<and>
    length (pushed s') = length (pushed s) + k \<and> chan_bound (link s') = chan_bound (link s)"
proof -
  define c where "c = link s"
  note I = inv [unfolded tput_inv_def, folded c_def]
  have ok: "chan_ok c" using I by blast
  have un: "unat (sentCount s) = length (pushed s)" "length (pushed s) \<le> unat total_n" using I by blast+
  have len: "length (bench_buf batch) = unat batch" by (simp add: bench_buf_def)
  show ?thesis
  proof (cases "sentCount s < total_n")
    case False
    then have "unat total_n - length (pushed s) = 0" using un by (simp add: word_less_nat_alt)
    then have "k = 0" by (simp add: k_def parent_moves_def)
    then show ?thesis using False inv by (simp add: parent_turn_def Let_def)
  next
    case more: True
    then have lt: "length (pushed s) < unat total_n" using un by (simp add: word_less_nat_alt)
    show ?thesis
    proof (cases "batch = 1")
      case True
      obtain c' where c': "chan_push (bench_buf batch ! 0) c = Inr (length (chan_items c) < chan_bound c, c')" "chan_ok c'"
          "chan_bound c' = chan_bound c"
          "chan_items c' = (if length (chan_items c) < chan_bound c then chan_items c @ [bench_buf batch ! 0] else chan_items c)"
        using chan.push_law [OF ok, of "bench_buf batch ! 0"] by blast
      have k: "k = (if length (chan_items c) < chan_bound c then 1 else 0)"
        using lt True by (simp add: k_def parent_moves_def c_def)
      have u1: "unat (sentCount s + 1) = length (pushed s) + 1"
        using unat_add_count(1) [OF un(1), of 1 total_n] lt by simp
      show ?thesis
      proof (cases "length (chan_items c) < chan_bound c")
        case room: True
        then show ?thesis using c' I k u1 lt more True by (simp add: parent_turn_def Let_def tput_inv_def c_def)
      next
        case full: False
        then show ?thesis using c' I k more True by (auto simp: parent_turn_def Let_def tput_inv_def c_def)
      qed
    next
      case False
      define want where "want = min batch (total_n - sentCount s)"
      have "unat (total_n - sentCount s) = unat total_n - length (pushed s)"
        using unat_sub [OF order_less_imp_le [OF more]] un(1) by simp
      then have w: "unat want = min (unat batch) (unat total_n - length (pushed s))" by (simp add: want_def unat_min)
      have kk: "min (unat want) (chan_bound c - length (chan_items c)) = k"
        by (simp add: w k_def parent_moves_def c_def)
      obtain c' where c': "chan_push_n (bench_buf batch) want c = Inr (of_nat k, c')" "chan_ok c'"
          "chan_bound c' = chan_bound c" "chan_items c' = chan_items c @ take k (bench_buf batch)"
        using chan.pushn_law [OF ok, of want "bench_buf batch"] w len unfolding kk by auto
      have kb: "k \<le> unat batch" "length (pushed s) + k \<le> unat total_n"
        using lt by (auto simp: k_def parent_moves_def)
      note u = unat_add_count [OF un(1) kb(2)]
      have "parent_turn total_n batch s = Inr (s\<lparr>link := c', sentCount := sentCount s + of_nat k, pushed := pushed s @ take k (bench_buf batch)\<rparr>)"
        using more False c'(1) u(2) by (simp add: parent_turn_def Let_def want_def c_def)
      then show ?thesis using c' I u kb len by (simp add: tput_inv_def c_def)
    qed
  qed
qed

lemma child_turn_moves:
  assumes inv: "tput_inv total_n batch s"
  defines "k \<equiv> child_moves batch s"
  shows "\<exists>s'. child_turn ndebug total_n batch s = Inr s' \<and> tput_inv total_n batch s' \<and> pushed s' = pushed s \<and>
    length (taken s') = length (taken s) + k \<and> chan_bound (link s') = chan_bound (link s)"
proof -
  define c where "c = link s"
  note I = inv [unfolded tput_inv_def, folded c_def]
  have ok: "chan_ok c" using I by blast
  have un: "unat (gotCount s) = length (taken s)" "length (taken s) + length (chan_items c) \<le> unat total_n"
    "pushed s = taken s @ chan_items c" using I by auto
  show ?thesis
  proof (cases "gotCount s < total_n")
    case False
    then have "length (chan_items c) = 0" using un(1,2) unfolding word_less_nat_alt by linarith
    then have "k = 0" by (simp add: k_def child_moves_def c_def)
    then show ?thesis using False inv by (simp add: child_turn_def)
  next
    case more: True
    show ?thesis
    proof (cases "batch = 1")
      case True
      obtain c' where c': "chan_pop ndebug (popVar s) c = Inr (chan_items c \<noteq> [], if chan_items c = [] then popVar s else hd (chan_items c), c')"
          "chan_ok c'" "chan_bound c' = chan_bound c" "chan_items c' = tl (chan_items c)"
        using chan.pop_law [OF ok, of ndebug "popVar s"] by blast
      show ?thesis
      proof (cases "chan_items c")
        case Nil
        then have "k = 0" by (simp add: k_def child_moves_def c_def)
        then show ?thesis using Nil c' I more True by (auto simp: child_turn_def tput_inv_def c_def)
      next
        case (Cons x xs)
        then have "k = 1" using True by (simp add: k_def child_moves_def c_def)
        moreover have "unat (gotCount s + 1) = length (taken s) + 1"
          using unat_add_count(1) [OF un(1), of 1 total_n] un(2) Cons by simp
        ultimately show ?thesis using Cons c' I more True by (auto simp: child_turn_def tput_inv_def c_def)
      qed
    next
      case False
      have lb: "unat (of_nat (length (popBuf s)) :: u64) = unat batch" using I by simp
      have kk: "min (unat (of_nat (length (popBuf s)) :: u64)) (length (chan_items c)) = k"
        unfolding lb by (simp add: k_def child_moves_def c_def)
      have dst: "unat (of_nat (length (popBuf s)) :: u64) \<le> length (popBuf s)" unfolding lb using I by simp
      obtain c' where c': "chan_pop_n (popBuf s) (of_nat (length (popBuf s))) c =
            Inr (of_nat k, splice (popBuf s) 0 (take k (chan_items c)), c')" "chan_ok c'"
          "chan_bound c' = chan_bound c" "chan_items c' = drop k (chan_items c)"
        using chan.popn_law [OF ok dst] unfolding kk by blast
      have kb: "k \<le> length (chan_items c)" "k \<le> length (popBuf s)" using I by (auto simp: k_def child_moves_def c_def)
      then have "length (taken s) + k \<le> unat total_n" using un(2) by linarith
      note u = unat_add_count [OF un(1) this]
      have tk: "take k (splice (popBuf s) 0 (take k (chan_items c))) = take k (chan_items c)"
        "length (splice (popBuf s) 0 (take k (chan_items c))) = length (popBuf s)"
        using kb by (simp_all add: splice_def)
      have "child_turn ndebug total_n batch s = Inr (s\<lparr>link := c', popBuf := splice (popBuf s) 0 (take k (chan_items c)),
          gotCount := gotCount s + of_nat k, taken := taken s @ take k (chan_items c)\<rparr>)"
        using more False c'(1) u(2) tk(1) by (simp add: child_turn_def c_def)
      then show ?thesis using c' I u kb tk(2) by (auto simp: tput_inv_def c_def)
    qed
  qed
qed

lemma tput_turn_moves:
  assumes "tput_inv total_n batch s"
  obtains s' where "tput_turn ndebug total_n batch w s = Inr s'" "tput_inv total_n batch s'"
    "length (pushed s') = length (pushed s) + (if w then parent_moves total_n batch s else 0)"
    "length (taken s') = length (taken s) + (if w then 0 else child_moves batch s)"
    "chan_bound (link s') = chan_bound (link s)"
proof (cases w)
  case True
  obtain s' where "parent_turn total_n batch s = Inr s'" "tput_inv total_n batch s'" "taken s' = taken s"
    "length (pushed s') = length (pushed s) + parent_moves total_n batch s" "chan_bound (link s') = chan_bound (link s)"
    using parent_turn_moves [OF assms] by blast
  then show ?thesis using that True by (simp add: tput_turn_def)
next
  case False
  obtain s' where "child_turn ndebug total_n batch s = Inr s'" "tput_inv total_n batch s'" "pushed s' = pushed s"
    "length (taken s') = length (taken s) + child_moves batch s" "chan_bound (link s') = chan_bound (link s)"
    using child_turn_moves [OF assms] by blast
  then show ?thesis using that False by (simp add: tput_turn_def)
qed

lemma tput_counts:
  assumes "tput_inv total_n batch s"
  shows "length (pushed s) = length (taken s) + length (chan_items (link s))" "length (pushed s) \<le> unat total_n"
    "0 < unat batch" "0 < chan_bound (link s)" "length (chan_items (link s)) \<le> chan_bound (link s)"
proof -
  have "batch \<noteq> 0" using assms by (simp add: tput_inv_def)
  then show "0 < unat batch" by (simp add: word_neq_0_conv word_less_nat_alt)
qed (use assms chan.items_bound in \<open>auto simp: tput_inv_def\<close>)

lemma tput_final_iff:
  "tput_inv total_n batch s \<Longrightarrow> tput_final total_n s \<longleftrightarrow> length (pushed s) = unat total_n \<and> length (taken s) = unat total_n"
  by (auto simp: tput_inv_def tput_final_def intro!: unsigned_word_eqI)

interpretation tput: ready_pair "tput_turn ndebug total_n batch" "tput_inv total_n batch" "tput_final total_n" "tput_left total_n"
    "\<lambda>w s. 0 < (if w then parent_moves total_n batch s else child_moves batch s)"
  for ndebug total_n batch
proof
  fix s w assume inv: "tput_inv total_n batch s"
  obtain s' where t: "tput_turn ndebug total_n batch w s = Inr s'" "tput_inv total_n batch s'"
    "length (pushed s') = length (pushed s) + (if w then parent_moves total_n batch s else 0)"
    "length (taken s') = length (taken s) + (if w then 0 else child_moves batch s)"
    "chan_bound (link s') = chan_bound (link s)"
    by (rule tput_turn_moves [OF inv, of ndebug w])
  note C = tput_counts [OF inv] tput_counts [OF t(2)]
  let ?m = "\<lambda>w s. if w then parent_moves total_n batch s else child_moves batch s"
  have "if 0 < ?m w s then tput_left total_n s' < tput_left total_n s
      else tput_left total_n s' = tput_left total_n s \<and> (0 < ?m (\<not> w) s' \<longleftrightarrow> 0 < ?m (\<not> w) s)"
  proof (cases "0 < ?m w s")
    case True
    then show ?thesis using t(3,4) C(1,2,6,7) by (cases w) (auto simp: tput_left_def)
  next
    case False
    then have same: "length (pushed s') = length (pushed s)" "length (taken s') = length (taken s)" using t(3,4) by (auto split: if_splits)
    then have "length (chan_items (link s')) = length (chan_items (link s))" using C(1,6) by linarith
    then show ?thesis using False same t(5) by (simp add: tput_left_def parent_moves_def child_moves_def)
  qed
  then show "\<exists>s'. tput_turn ndebug total_n batch w s = Inr s' \<and> tput_inv total_n batch s' \<and>
      (if 0 < ?m w s then tput_left total_n s' < tput_left total_n s
       else tput_left total_n s' = tput_left total_n s \<and> (0 < ?m (\<not> w) s' \<longleftrightarrow> 0 < ?m (\<not> w) s))" using t(1,2) by blast
next
  fix s assume inv: "tput_inv total_n batch s" and "\<not> tput_final total_n s"
  then have "length (pushed s) < unat total_n \<or> length (taken s) < unat total_n"
    using tput_counts(1,2) [OF inv] tput_final_iff [OF inv] by linarith
  then show "\<exists>w. 0 < (if w then parent_moves total_n batch s else child_moves batch s)"
    using tput_counts [OF inv]
    by (intro exI [of _ "chan_items (link s) = []"]) (auto simp: parent_moves_def child_moves_def)
qed

subsection \<open>Properties\<close>

lemma tput_init_inv: "chan_ok c \<Longrightarrow> chan_items c = [] \<Longrightarrow> batch \<noteq> 0 \<Longrightarrow> tput_inv total_n batch (tput_init batch c)"
  by (auto simp: tput_inv_def tput_init_def chan_ok_def chan_bound_def cons_ok_def ring_ok_def)

text \<open>
  A run of the throughput benchmark over an empty queue, single or batched, never faults under any
  schedule, and at every moment what the child has taken followed by what is queued is what the parent
  has pushed, in order, both counters being exact and never above \<^verbatim>\<open>total\<close>. Under every fair schedule
  it comes to its end: the parent has sent exactly \<^verbatim>\<open>total\<close> messages, the child has received exactly
  these, and the queue is empty.
\<close>

theorem throughput_run_completes:
  assumes "chan_ok c" and "chan_items c = []" and "batch \<noteq> 0"
  shows "(\<forall>n. \<exists>s. run_pair (tput_turn ndebug total_n batch) sched n (tput_init batch c) = Inr s \<and>
            pushed s = taken s @ chan_items (link s) \<and> unat (sentCount s) = length (pushed s) \<and>
            unat (gotCount s) = length (taken s) \<and> sentCount s \<le> total_n) \<and>
         (fair sched \<longrightarrow>
            (\<exists>n s. run_pair (tput_turn ndebug total_n batch) sched n (tput_init batch c) = Inr s \<and>
               sentCount s = total_n \<and> gotCount s = total_n \<and> taken s = pushed s \<and> chan_items (link s) = []))"
proof (intro conjI allI impI)
  note inv = tput_init_inv [OF assms, of total_n]
  fix n
  show "\<exists>s. run_pair (tput_turn ndebug total_n batch) sched n (tput_init batch c) = Inr s \<and>
      pushed s = taken s @ chan_items (link s) \<and> unat (sentCount s) = length (pushed s) \<and>
      unat (gotCount s) = length (taken s) \<and> sentCount s \<le> total_n"
    using tput.run_safe [OF inv, of ndebug sched n] by (auto simp: tput_inv_def word_le_nat_alt)
next
  assume "fair sched"
  then obtain n s where s: "run_pair (tput_turn ndebug total_n batch) sched n (tput_init batch c) = Inr s"
      "tput_inv total_n batch s" "tput_final total_n s"
    using tput.completes [OF _ tput_init_inv [OF assms, of total_n]] by blast
  have "length (pushed s) = length (taken s)" using iffD1 [OF tput_final_iff [OF s(2)] s(3)] by simp
  then have "taken s = pushed s" "chan_items (link s) = []" using s(2) by (auto simp: tput_inv_def)
  then show "\<exists>n s. run_pair (tput_turn ndebug total_n batch) sched n (tput_init batch c) = Inr s \<and>
      sentCount s = total_n \<and> gotCount s = total_n \<and> taken s = pushed s \<and> chan_items (link s) = []"
    using s(1,3) unfolding tput_final_def by blast
qed

definition msg_chan :: "message chan" where
  "msg_chan = \<lparr>pend = sample_queue, cend = sample_queue,
     mem = \<lparr>block = sample_block\<lparr>capacity := 4, writeIdx := 0, readIdx := 0\<rparr>, slots = replicate 4 zero_message\<rparr>\<rparr>"

lemma msg_chan_ok: "chan_ok msg_chan" "chan_items msg_chan = []"
  by (simp_all add: chan_defs prod_ok_def cons_ok_def ring_ok_def contents_def ring_def msg_chan_def sample_queue_def ShmSpscQueue_def)

theorem throughput_run_completes_witness:
  "\<exists>n s. run_pair (tput_turn True 10 8) even n (tput_init 8 msg_chan) = Inr s \<and>
     gotCount s = 10 \<and> taken s = pushed s \<and> chan_items (link s) = []"
  using throughput_run_completes [OF msg_chan_ok, of 8 True 10 even] fair_even by auto

end
