(* ===== verification/DemoRun.thy ===== *)
theory DemoRun
  imports Throughput
begin

section \<open>The two demo programs together\<close>

text \<open>
  \<^verbatim>\<open>demo_producer\<close> and \<^verbatim>\<open>demo_consumer\<close> as a closed system over the queue they share, from the moment
  the producer has claimed its slot (a poll of the consumer before that finds no pid and changes nothing): the producer sends \<^verbatim>\<open>total\<close> messages with the blocking \<^verbatim>\<open>push\<close>, detaches and
  exits; the consumer waits until it sees a producer, drains until it finds the producer gone and the
  queue empty, detaches and exits. No signal arrives and no process is killed. A turn of the producer is
  a loop test, one turn of \<^verbatim>\<open>push\<close> or the detach of its destructor; a turn of the consumer is one poll of
  its \<^verbatim>\<open>waitForPeer\<close>, one turn of its receive loop or the detach of its destructor. Operations on the queue
  are single turns here; that their interleavings come to the same is shown in \<open>Spsc\<close>. The clock shows
  \<open>clk n\<close> when \<open>n\<close> turns have been taken. What was pushed and taken is recorded beside the variables.
\<close>

datatype send_pc =
    SLoop u64 \<comment> \<open>loop test of line 38 with \<^verbatim>\<open>sent\<close>\<close>
  | SPush u64 u32 message \<comment> \<open>inside \<^verbatim>\<open>push\<close> with its spin count\<close>
  | SLeave \<comment> \<open>at the end of the block that owns the handle\<close>
  | SExit

datatype recv_pc =
    RWait \<comment> \<open>in \<^verbatim>\<open>while (!g_stop && !q.waitForPeer(1000))\<close>\<close>
  | RLoop \<comment> \<open>in the receive loop\<close>
  | RLeave \<comment> \<open>behind the loop, the handle still there\<close>
  | RExit

record demo_run =
  shared :: "message chan"
  send_at :: send_pc
  inbuf :: "message list"
  recv :: receiver
  recv_at :: recv_pc
  now_at :: nat
  sent_all :: "message list" \<comment> \<open>recorded, not in the program\<close>
  recv_all :: "message list" \<comment> \<open>recorded, not in the program\<close>

text \<open>Both processes exist throughout.\<close>

definition all_exist :: "i32 \<Rightarrow> errno option" where
  "all_exist _ = None"

text \<open>What a destructor does to the control block: the slot of the role is given up if it is the process's own.\<close>

definition give_up_slot :: "role \<Rightarrow> i32 \<Rightarrow> 'a shm \<Rightarrow> 'a shm" where
  "give_up_slot role self m =
     m\<lparr>block := if pid_slot role (block m) = self then set_pid_slot role (- 1) (block m) else block m\<rparr>"

definition sender_turn :: "(nat \<Rightarrow> u64) \<Rightarrow> i32 \<Rightarrow> u64 \<Rightarrow> demo_run \<Rightarrow> fault + demo_run" where
  "sender_turn clk self total_n s =
     (case send_at s of
        SLoop sent \<Rightarrow>
          Inr (s\<lparr>send_at := if sent < total_n then SPush sent 0 (makeMessage sent (clk (now_at s))) else SLeave\<rparr>)
      | SPush sent spins msg \<Rightarrow>
          (case push_turn (\<lambda>_ _ m. m) (\<lambda>_. all_exist) 4096 msg spins 0 (pend (shared s)) (mem (shared s)) of
             Inl (Inl f) \<Rightarrow> Inl f
           | Inl (Inr (ok, q, m)) \<Rightarrow>
               Inr (s\<lparr>shared := (shared s)\<lparr>pend := q, mem := m\<rparr>, send_at := if ok then SLoop (sent + 1) else SLeave,
                      sent_all := if ok then sent_all s @ [msg] else sent_all s\<rparr>)
           | Inr (spins', q, m) \<Rightarrow> Inr (s\<lparr>shared := (shared s)\<lparr>pend := q, mem := m\<rparr>, send_at := SPush sent spins' msg\<rparr>))
      | SLeave \<Rightarrow> Inr (s\<lparr>shared := (shared s)\<lparr>mem := give_up_slot Producer self (mem (shared s))\<rparr>, send_at := SExit\<rparr>)
      | SExit \<Rightarrow> Inr s)"

text \<open>
  The consumer: a poll of \<^verbatim>\<open>waitForPeer\<close> that finds no pid in the producer's slot sleeps or, at the
  deadline, is followed by the next call, and so by the next poll.
\<close>

definition receiver_turn :: "nat \<Rightarrow> (nat \<Rightarrow> u64) \<Rightarrow> i32 \<Rightarrow> demo_run \<Rightarrow> fault + demo_run" where
  "receiver_turn room clk self s =
     (case recv_at s of
        RWait \<Rightarrow> Inr (s\<lparr>recv_at := if 0 < sint (peer_slot (role_m (cend (shared s))) (block (mem (shared s)))) then RLoop else RWait\<rparr>)
      | RLoop \<Rightarrow>
          (case consumer_turn room (\<lambda>_ _ m. m) (\<lambda>_. all_exist) (\<lambda>_. False) clk (now_at s) (inbuf s) (recv s)
                  (cend (shared s)) (mem (shared s)) of
             Inl (Inl f) \<Rightarrow> Inl f
           | Inl (Inr (r, q, m)) \<Rightarrow> Inr (s\<lparr>shared := (shared s)\<lparr>cend := q, mem := m\<rparr>, recv := r, recv_at := RLeave\<rparr>)
           | Inr (buf, r, q, m) \<Rightarrow>
               Inr (s\<lparr>shared := (shared s)\<lparr>cend := q, mem := m\<rparr>, recv := r, inbuf := buf,
                      recv_all := recv_all s @ take (unat (received r - received (recv s))) buf\<rparr>))
      | RLeave \<Rightarrow> Inr (s\<lparr>shared := (shared s)\<lparr>mem := give_up_slot Consumer self (mem (shared s))\<rparr>, recv_at := RExit\<rparr>)
      | RExit \<Rightarrow> Inr s)"

text \<open>\<open>self\<close> is the pid of the producer, \<open>peer\<close> that of the consumer.\<close>

definition demo_turn :: "nat \<Rightarrow> (nat \<Rightarrow> u64) \<Rightarrow> i32 \<Rightarrow> i32 \<Rightarrow> u64 \<Rightarrow> bool \<Rightarrow> demo_run \<Rightarrow> fault + demo_run" where
  "demo_turn room clk self peer total_n sender s =
     bindE (if sender then sender_turn clk self total_n s else receiver_turn room clk peer s)
       (\<lambda>s'. Inr (s'\<lparr>now_at := Suc (now_at s)\<rparr>))"

text \<open>
  The producer is attached to an empty queue and the consumer, behind \<^verbatim>\<open>create\<close>, is about to wait;
  \<^verbatim>\<open>std::vector<Message> buf(256)\<close>.
\<close>

definition demo_init :: "message chan \<Rightarrow> demo_run" where
  "demo_init c =
     \<lparr>shared = c, send_at = SLoop 0, inbuf = replicate 256 zero_message, recv = receiver_init, recv_at = RWait,
      now_at = 0, sent_all = [], recv_all = []\<rparr>"

definition attached_pair :: "i32 \<Rightarrow> i32 \<Rightarrow> message chan \<Rightarrow> bool" where
  "attached_pair self peer c \<longleftrightarrow> chan_ok c \<and> role_m (pend c) = Producer \<and> role_m (cend c) = Consumer \<and>
     0 < sint self \<and> producerPid (block (mem c)) = self \<and> 0 < sint peer \<and> consumerPid (block (mem c)) = peer"

subsection \<open>Invariant\<close>

definition left_pid :: "i32 \<Rightarrow> bool \<Rightarrow> i32" where
  "left_pid self gone = (if gone then - 1 else self)"

fun sent_so_far :: "u64 \<Rightarrow> message list \<Rightarrow> send_pc \<Rightarrow> bool" where
  "sent_so_far n ms (SLoop k) = (k \<le> n \<and> length ms = unat k)"
| "sent_so_far n ms (SPush k spins msg) =
     (k < n \<and> length ms = unat k \<and> seq msg = k \<and> checksum msg = checksumOf msg)"
| "sent_so_far n ms SLeave = (length ms = unat n)"
| "sent_so_far n ms SExit = (length ms = unat n)"

text \<open>\<open>bound\<close> is how many messages fit; a consumer that still waits has taken none.\<close>

definition demo_inv :: "i32 \<Rightarrow> i32 \<Rightarrow> nat \<Rightarrow> u64 \<Rightarrow> demo_run \<Rightarrow> bool" where
  "demo_inv self peer bound total_n s \<longleftrightarrow>
     (let c = shared s; b = block (mem c); r = recv s in
      chan_ok c \<and> chan_bound c = bound \<and> role_m (pend c) = Producer \<and> role_m (cend c) = Consumer \<and>
      0 < sint self \<and> producerPid b = left_pid self (send_at s = SExit) \<and>
      0 < sint peer \<and> consumerPid b = left_pid peer (recv_at s = RExit) \<and> length (inbuf s) = 256 \<and>
      sent_all s = recv_all s @ chan_items c \<and> sent_so_far total_n (sent_all s) (send_at s) \<and> stream 0 (sent_all s) \<and>
      errors r = 0 \<and> expect r = of_nat (length (recv_all s)) \<and> received r = of_nat (length (recv_all s)) \<and>
      (recv_at s = RWait \<longrightarrow> recv_all s = []) \<and>
      (recv_at s \<in> {RLeave, RExit} \<longrightarrow> send_at s = SExit \<and> chan_items c = []))"

fun send_rank :: "u64 \<Rightarrow> send_pc \<Rightarrow> nat" where
  "send_rank n (SLoop k) = 2 * unat k"
| "send_rank n (SPush k spins msg) = 2 * unat k + 1"
| "send_rank n SLeave = 2 * unat n + 1"
| "send_rank n SExit = 2 * unat n + 2"

fun recv_rest :: "recv_pc \<Rightarrow> nat" where
  "recv_rest RWait = 3" | "recv_rest RLoop = 2" | "recv_rest RLeave = 1" | "recv_rest RExit = 0"

definition demo_left :: "u64 \<Rightarrow> demo_run \<Rightarrow> nat" where
  "demo_left n s = (2 * unat n + 2 - send_rank n (send_at s)) + (unat n - length (recv_all s)) + recv_rest (recv_at s)"

text \<open>
  The producer has ended, and so has the consumer, or it still waits for a producer.
\<close>

definition demo_final :: "demo_run \<Rightarrow> bool" where
  "demo_final s \<longleftrightarrow> send_at s = SExit \<and> recv_at s \<in> {RExit, RWait}"

subsection \<open>Turns of the sender\<close>

lemma stream_append: "stream e (xs @ ys) \<longleftrightarrow> stream e xs \<and> stream (e + of_nat (length xs)) ys"
  by (induction xs arbitrary: e) (auto simp: add.assoc add.commute)

lemma makeMessage_ok: "seq (makeMessage k t) = k" "checksum (makeMessage k t) = checksumOf (makeMessage k t)"
  by (simp_all add: makeMessage_def checksumOf_def Let_def)

lemma chan_okD:
  fixes m :: "'a shm"
  assumes "chan_ok (c :: 'a chan)"
  shows "prod_ok (pend c) (mem c)" "cons_ok (cend c) (mem c)" "cap (pend c) = cap (cend c)"
    "contents (pend c) m = contents (cend c) m"
  using assms contents_cong by (auto simp: chan_ok_def)

lemma chan_bound_frame [simp]:
  "chan_bound (c\<lparr>pend := q\<rparr>) = chan_bound c" "chan_bound (c\<lparr>mem := m\<rparr>) = chan_bound c"
  "chan_bound (c\<lparr>pend := q, mem := m\<rparr>) = chan_bound c"
  by (simp_all add: chan_bound_def)

lemma give_up_slot_own:
  assumes "chan_ok c" "pid_slot role (block (mem c)) = self"
  shows "chan_ok (c\<lparr>mem := give_up_slot role self (mem c)\<rparr>)" "chan_items (c\<lparr>mem := give_up_slot role self (mem c)\<rparr>) = chan_items c"
    "block (give_up_slot role self (mem c)) = set_pid_slot role (- 1) (block (mem c))"
  using assms by (simp_all add: give_up_slot_def chan_ok_def chan_items_def)

definition sender_ready :: "demo_run \<Rightarrow> bool" where
  "sender_ready s \<longleftrightarrow> (case send_at s of SExit \<Rightarrow> False
     | SPush k spins msg \<Rightarrow> length (chan_items (shared s)) < chan_bound (shared s) | _ \<Rightarrow> True)"

definition receiver_ready :: "demo_run \<Rightarrow> bool" where
  "receiver_ready s \<longleftrightarrow> recv_at s = RWait \<and> send_at s \<noteq> SExit \<or>
     recv_at s = RLoop \<and> (chan_items (shared s) \<noteq> [] \<or> send_at s = SExit) \<or> recv_at s = RLeave"

text \<open>What a turn of the sender does.\<close>

definition sender_did :: "i32 \<Rightarrow> i32 \<Rightarrow> nat \<Rightarrow> u64 \<Rightarrow> demo_run \<Rightarrow> fault + demo_run \<Rightarrow> bool" where
  "sender_did self peer bound n s res \<longleftrightarrow> (\<exists>s'. res = Inr s' \<and> demo_inv self peer bound n s' \<and> recv_all s' = recv_all s \<and> recv_at s' = recv_at s \<and>
     send_rank n (send_at s') = send_rank n (send_at s) + (if sender_ready s then 1 else 0) \<and>
     (\<not> sender_ready s \<longrightarrow> receiver_ready s' = receiver_ready s))"

lemma push_turn_alone:
  assumes c: "chan_ok c" "role_m (pend c) = Producer" "0 < sint (consumerPid (block (mem c)))"
  obtains (room) q m where "push_turn (\<lambda>_ _ m. m) (\<lambda>_. all_exist) t msg spins i (pend c) (mem c) = Inl (Inr (True, q, m))"
      "length (chan_items c) < chan_bound c" "chan_ok (c\<lparr>pend := q, mem := m\<rparr>)" "chan_items (c\<lparr>pend := q, mem := m\<rparr>) = chan_items c @ [msg]"
      "role_m q = Producer" "producerPid (block m) = producerPid (block (mem c))" "consumerPid (block m) = consumerPid (block (mem c))"
  | (full) q spins' where "push_turn (\<lambda>_ _ m. m) (\<lambda>_. all_exist) t msg spins i (pend c) (mem c) = Inr (spins', q, mem c)"
      "\<not> length (chan_items c) < chan_bound c" "chan_ok (c\<lparr>pend := q\<rparr>)" "chan_items (c\<lparr>pend := q\<rparr>) = chan_items c" "role_m q = Producer"
proof -
  note ok = chan_okD [OF c(1)]
  show ?thesis
  proof (rule try_push_cases [OF ok(1), of msg])
    define q where "q = (pend c)\<lparr>readIdxCache_m := readIdx (block (mem c))\<rparr>"
    assume f: "length (contents (pend c) (mem c)) = cap (pend c) - 1"
      "try_push msg (pend c) (mem c) = Inr (False, (pend c)\<lparr>readIdxCache_m := readIdx (block (mem c))\<rparr>, mem c)"
    have "peer_alive all_exist (role_m q) (mem c)"
      using c(2,3) by (simp add: peer_alive_def q_def peer_slot_def all_exist_def processAlive_iff Let_def)
    then obtain spins' where t: "push_turn (\<lambda>_ _ m. m) (\<lambda>_. all_exist) t msg spins i (pend c) (mem c) = Inr (spins', q, mem c)"
      using f(2) by (cases "t \<le> spins") (simp_all add: push_turn_def Let_def q_def)
    have ck: "chan_ok (c\<lparr>pend := q\<rparr>)" using ok prod_ok_refresh [OF ok(1)] by (simp add: chan_ok_def q_def)
    have "length (chan_items c) = chan_bound c" using f(1) ok(3,4) by (simp add: chan_items_def chan_bound_def)
    then show ?thesis using full [OF t _ ck] c(2) by (simp add: chan_items_def q_def)
  next
    fix rc sl idx
    define q m where "q = (pend c)\<lparr>readIdxCache_m := rc\<rparr>" and "m = published sl idx (mem c)"
    assume r: "length (contents (pend c) (mem c)) < cap (pend c) - 1"
      "try_push msg (pend c) (mem c) = Inr (True, (pend c)\<lparr>readIdxCache_m := rc\<rparr>, published sl idx (mem c))"
      "contents (pend c) (published sl idx (mem c)) = contents (pend c) (mem c) @ [msg]"
      "prod_ok ((pend c)\<lparr>readIdxCache_m := rc\<rparr>) (published sl idx (mem c))"
      "\<And>p. cap p = cap (pend c) \<Longrightarrow> cons_ok p (mem c) \<Longrightarrow> cons_ok p (published sl idx (mem c))"
    have t: "push_turn (\<lambda>_ _ m. m) (\<lambda>_. all_exist) t msg spins i (pend c) (mem c) = Inl (Inr (True, q, m))"
      using r(2) by (simp add: push_turn_def q_def m_def)
    have ck: "chan_ok (c\<lparr>pend := q, mem := m\<rparr>)"
      using r(4) r(5) [of "cend c"] ok(2,3) by (simp add: chan_ok_def q_def m_def)
    have it: "chan_items (c\<lparr>pend := q, mem := m\<rparr>) = chan_items c @ [msg]"
      using r(3) ok(4) by (simp add: chan_items_def m_def)
    show ?thesis
      by (rule room [OF t _ ck it]) (use r(1) ok(3,4) c(2) in \<open>simp_all add: chan_items_def chan_bound_def q_def m_def published_def\<close>)
  qed
qed

lemma sender_turn_push:
  assumes inv: "demo_inv self peer bound n s" and at: "send_at s = SPush k spins msg"
  shows "sender_did self peer bound n s (sender_turn clk self n s)"
proof -
  define c where "c = shared s"
  note I = inv [unfolded demo_inv_def Let_def, folded c_def]
  have "recv_at s \<noteq> RExit" using I at by auto
  then have c: "chan_ok c" "role_m (pend c) = Producer" "0 < sint (consumerPid (block (mem c)))" using I by (simp_all add: left_pid_def)
  have k: "k < n" "length (sent_all s) = unat k" "seq msg = k" "checksum msg = checksumOf msg" using I at by auto
  note u = unat_succ_less [OF k(1)]
  then have le: "k + 1 \<le> n" using k(1) by (simp add: word_le_nat_alt word_less_nat_alt)
  show ?thesis
  proof (rule push_turn_alone [OF c, of 4096 msg spins 0])
    fix q m
    assume r: "push_turn (\<lambda>_ _ m. m) (\<lambda>_. all_exist) 4096 msg spins 0 (pend c) (mem c) = Inl (Inr (True, q, m))"
      "length (chan_items c) < chan_bound c" "chan_ok (c\<lparr>pend := q, mem := m\<rparr>)" "chan_items (c\<lparr>pend := q, mem := m\<rparr>) = chan_items c @ [msg]"
      "role_m q = Producer" "producerPid (block m) = producerPid (block (mem c))" "consumerPid (block m) = consumerPid (block (mem c))"
    have k2: "of_nat (length (sent_all s)) = k" using k(2) by simp
    have "stream 0 (sent_all s)" using I by blast
    then have st: "stream 0 (sent_all s @ [msg])" unfolding stream_append k2 using k by simp
    show ?thesis using r I at u le k st
      by (auto simp: sender_did_def sender_turn_def demo_inv_def sender_ready_def left_pid_def Let_def simp flip: c_def)
  next
    fix q spins'
    assume r: "push_turn (\<lambda>_ _ m. m) (\<lambda>_. all_exist) 4096 msg spins 0 (pend c) (mem c) = Inr (spins', q, mem c)"
      "\<not> length (chan_items c) < chan_bound c" "chan_ok (c\<lparr>pend := q\<rparr>)" "chan_items (c\<lparr>pend := q\<rparr>) = chan_items c" "role_m q = Producer"
    have same: "c\<lparr>pend := q, mem := mem c\<rparr> = c\<lparr>pend := q\<rparr>" by simp
    show ?thesis using r I at k
      by (auto simp: sender_did_def sender_turn_def demo_inv_def sender_ready_def receiver_ready_def left_pid_def Let_def same simp flip: c_def)
  qed
qed

lemma sender_turn_law:
  assumes inv: "demo_inv self peer bound n s"
  shows "sender_did self peer bound n s (sender_turn clk self n s)"
proof (cases "send_at s")
  case (SLoop k)
  then show ?thesis using inv makeMessage_ok
    by (auto simp: sender_did_def sender_turn_def demo_inv_def sender_ready_def left_pid_def Let_def not_less word_le_nat_alt word_less_nat_alt)
next
  case (SPush k spins msg)
  then show ?thesis using sender_turn_push [OF inv] by blast
next
  case SLeave
  have c: "chan_ok (shared s)" "pid_slot Producer (block (mem (shared s))) = self"
    using inv SLeave by (simp_all add: demo_inv_def left_pid_def pid_slot_def Let_def)
  show ?thesis using inv SLeave give_up_slot_own [OF c]
    by (auto simp: sender_did_def sender_turn_def demo_inv_def sender_ready_def left_pid_def set_pid_slot_def Let_def)
next
  case SExit
  then show ?thesis using inv by (simp add: sender_did_def sender_turn_def sender_ready_def)
qed

subsection \<open>Turns of the receiver\<close>

lemma receive_batch_stream:
  assumes "stream (expect r) (take (unat n) buf)" "unat n \<le> length buf"
  shows "errors (receive_batch room t n buf r) = errors r" "expect (receive_batch room t n buf r) = expect r + n"
    "received (receive_batch room t n buf r) = received r + n"
proof -
  let ?tms = "map (Pair t) (take (unat n) buf)"
  have snd: "map snd ?tms = take (unat n) buf" "length ?tms = unat n" using assms(2) by (simp_all add: comp_def)
  have "misses (expect r) (map snd ?tms) = 0" unfolding snd(1) using assms(1) misses_0_iff by blast
  then show "errors (receive_batch room t n buf r) = errors r"
    by (simp add: receive_batch_all receive_all_errors del: map_map)
  show "expect (receive_batch room t n buf r) = expect r + n"
    using receive_all_expect [of r ?tms room] assms(1) snd by (simp add: receive_batch_all)
  show "received (receive_batch room t n buf r) = received r + n" by (simp add: receive_batch_all)
qed

definition receiver_did :: "i32 \<Rightarrow> i32 \<Rightarrow> nat \<Rightarrow> u64 \<Rightarrow> demo_run \<Rightarrow> fault + demo_run \<Rightarrow> bool" where
  "receiver_did self peer bound n s res \<longleftrightarrow> (\<exists>s'. res = Inr s' \<and> demo_inv self peer bound n s' \<and> send_at s' = send_at s \<and>
     (if receiver_ready s
      then length (recv_all s) < length (recv_all s') \<and> recv_at s' = recv_at s \<or>
           recv_all s' = recv_all s \<and> recv_rest (recv_at s') < recv_rest (recv_at s)
      else recv_all s' = recv_all s \<and> recv_at s' = recv_at s \<and> sender_ready s' = sender_ready s))"

text \<open>One turn of the receive loop on an undisturbed segment.\<close>

lemma consumer_turn_alone:
  assumes c: "chan_ok c" "role_m (cend c) = Consumer" and buf: "length buf = 256"
    and pid: "0 < sint (producerPid (block (mem c))) \<or> producerPid (block (mem c)) = - 1"
  obtains (elems) q m k where "0 < k" "k \<le> length (chan_items c)" "unat (of_nat k :: u64) = k" "k \<le> 256"
      "consumer_turn room (\<lambda>_ _ m. m) (\<lambda>_. all_exist) (\<lambda>_. False) clk i buf r (cend c) (mem c) =
         Inr (splice buf 0 (take k (chan_items c)), receive_batch room (clk i) (of_nat k) (splice buf 0 (take k (chan_items c))) r, q, m)"
      "chan_ok (c\<lparr>cend := q, mem := m\<rparr>)" "chan_items (c\<lparr>cend := q, mem := m\<rparr>) = drop k (chan_items c)"
      "chan_bound (c\<lparr>cend := q, mem := m\<rparr>) = chan_bound c" "role_m q = Consumer" "producerPid (block m) = producerPid (block (mem c))" "consumerPid (block m) = consumerPid (block (mem c))"
  | (none) q where "chan_items c = []"
      "consumer_turn room (\<lambda>_ _ m. m) (\<lambda>_. all_exist) (\<lambda>_. False) clk i buf r (cend c) (mem c) =
         (if producerPid (block (mem c)) = - 1 then Inl (Inr (r, q, mem c)) else Inr (buf, r, q, mem c))"
      "chan_ok (c\<lparr>cend := q\<rparr>)" "chan_items (c\<lparr>cend := q\<rparr>) = []" "chan_bound (c\<lparr>cend := q\<rparr>) = chan_bound c" "role_m q = Consumer"
proof -
  note ok = chan_okD [OF c(1)]
  have un: "unat (of_nat (length buf) :: u64) = 256" using buf by simp
  have le: "unat (of_nat (length buf) :: u64) \<le> length buf" using buf un by simp
  have it: "contents (cend c) (mem c) = chan_items c" by (simp add: chan_items_def)
  show ?thesis
  proof (rule pop_n_cases [OF ok(2) le], unfold un it)
    fix wc
    define q where "q = (cend c)\<lparr>writeIdxCache_m := wc\<rparr>"
    assume z: "min 256 (length (chan_items c)) = 0"
      and p: "pop_n buf (of_nat (length buf)) (cend c) (mem c) = Inr (0, buf, (cend c)\<lparr>writeIdxCache_m := wc\<rparr>, mem c)"
      and ok1: "cons_ok ((cend c)\<lparr>writeIdxCache_m := wc\<rparr>) (mem c)"
    have nil: "chan_items c = []" using z by (auto simp: min_def split: if_splits)
    then have e: "empty_q (mem c)" using contents_Nil_iff [OF ok(2)] it by (simp add: empty_q_def)
    have "peer_alive all_exist (role_m q) (mem c) \<longleftrightarrow> producerPid (block (mem c)) \<noteq> - 1"
      using c(2) pid by (auto simp: peer_alive_def q_def peer_slot_def all_exist_def processAlive_iff Let_def)
    then have t: "consumer_turn room (\<lambda>_ _ m. m) (\<lambda>_. all_exist) (\<lambda>_. False) clk i buf r (cend c) (mem c) =
         (if producerPid (block (mem c)) = - 1 then Inl (Inr (r, q, mem c)) else Inr (buf, r, q, mem c))"
      using p e by (simp add: consumer_turn_def Let_def q_def)
    have "chan_ok (c\<lparr>cend := q\<rparr>)" using ok ok1 by (simp add: chan_ok_def q_def)
    then show ?thesis using none [OF nil t] nil c(2) by (simp add: chan_items_def chan_bound_def q_def)
  next
    fix wc idx
    define k q m where "k = min 256 (length (chan_items c))" and "q = (cend c)\<lparr>writeIdxCache_m := wc\<rparr>" and "m = consumed idx (mem c)"
    assume k0: "0 < min 256 (length (chan_items c))"
      and p: "pop_n buf (of_nat (length buf)) (cend c) (mem c) = Inr (of_nat (min 256 (length (chan_items c))),
          splice buf 0 (take (min 256 (length (chan_items c))) (chan_items c)), (cend c)\<lparr>writeIdxCache_m := wc\<rparr>, consumed idx (mem c))"
      and d: "contents (cend c) (consumed idx (mem c)) = drop (min 256 (length (chan_items c))) (chan_items c)"
      and ok1: "cons_ok ((cend c)\<lparr>writeIdxCache_m := wc\<rparr>) (consumed idx (mem c))"
      and ok2: "\<And>p. cap p = cap (cend c) \<Longrightarrow> prod_ok p (mem c) \<Longrightarrow> prod_ok p (consumed idx (mem c))"
    have k: "0 < k" "k \<le> length (chan_items c)" "k \<le> 256" using k0 by (simp_all add: k_def)
    then have uk: "unat (of_nat k :: u64) = k" by (intro unat_of_nat_u64) simp
    then have "(of_nat k :: u64) \<noteq> 0" using k(1) by (metis less_numeral_extra(3) unsigned_0)
    then have t: "consumer_turn room (\<lambda>_ _ m. m) (\<lambda>_. all_exist) (\<lambda>_. False) clk i buf r (cend c) (mem c) =
         Inr (splice buf 0 (take k (chan_items c)), receive_batch room (clk i) (of_nat k) (splice buf 0 (take k (chan_items c))) r, q, m)"
      using p by (simp add: consumer_turn_def k_def q_def m_def)
    have ck: "chan_ok (c\<lparr>cend := q, mem := m\<rparr>)" using ok1 ok2 [of "pend c"] ok by (simp add: chan_ok_def q_def m_def)
    show ?thesis
      by (rule elems [OF k(1,2) uk k(3) t ck]) (use d c(2) in \<open>simp_all add: chan_items_def chan_bound_def q_def m_def k_def consumed_def\<close>)
  qed
qed

lemma receiver_turn_loop:
  assumes inv: "demo_inv self peer bound n s" and at: "recv_at s = RLoop"
  shows "receiver_did self peer bound n s (receiver_turn room clk peer s)"
proof -
  define c where "c = shared s"
  note I = inv [unfolded demo_inv_def Let_def, folded c_def]
  have c: "chan_ok c" "role_m (cend c) = Consumer" "length (inbuf s) = 256"
    "0 < sint (producerPid (block (mem c))) \<or> producerPid (block (mem c)) = - 1"
    using I by (auto simp: left_pid_def)
  show ?thesis
  proof (rule consumer_turn_alone [OF c, of room clk "now_at s" "recv s"])
    fix q m k
    define buf where "buf = splice (inbuf s) 0 (take k (chan_items c))"
    define r where "r = receive_batch room (clk (now_at s)) (of_nat k) buf (recv s)"
    assume t: "0 < k" "k \<le> length (chan_items c)" "unat (of_nat k :: u64) = k" "k \<le> 256"
      "consumer_turn room (\<lambda>_ _ m. m) (\<lambda>_. all_exist) (\<lambda>_. False) clk (now_at s) (inbuf s) (recv s) (cend c) (mem c) =
         Inr (splice (inbuf s) 0 (take k (chan_items c)), receive_batch room (clk (now_at s)) (of_nat k) (splice (inbuf s) 0 (take k (chan_items c))) (recv s), q, m)"
      "chan_ok (c\<lparr>cend := q, mem := m\<rparr>)" "chan_items (c\<lparr>cend := q, mem := m\<rparr>) = drop k (chan_items c)"
      "chan_bound (c\<lparr>cend := q, mem := m\<rparr>) = chan_bound c" "role_m q = Consumer" "producerPid (block m) = producerPid (block (mem c))" "consumerPid (block m) = consumerPid (block (mem c))"
    have buf: "take k buf = take k (chan_items c)" "length buf = 256" using t(2,4) c(3) by (simp_all add: buf_def splice_def)
    have "stream 0 (recv_all s @ chan_items c)" using I by metis
    then have "stream (expect (recv s)) (take k (chan_items c))"
      using I stream_append [of "expect (recv s)" "take k (chan_items c)" "drop k (chan_items c)"] by (simp add: stream_append)
    then have r: "errors r = errors (recv s)" "expect r = expect (recv s) + of_nat k" "received r = received (recv s) + of_nat k"
      unfolding r_def using receive_batch_stream [of "recv s" "of_nat k" buf room "clk (now_at s)"] t(3,4) buf by simp_all
    have "receiver_turn room clk peer s = Inr (s\<lparr>shared := c\<lparr>cend := q, mem := m\<rparr>, recv := r, inbuf := buf, recv_all := recv_all s @ take k (chan_items c)\<rparr>)"
      using at t(5) r(3) t(3) buf(1) by (simp add: receiver_turn_def buf_def r_def flip: c_def)
    moreover have "demo_inv self peer bound n (s\<lparr>shared := c\<lparr>cend := q, mem := m\<rparr>, recv := r, inbuf := buf, recv_all := recv_all s @ take k (chan_items c)\<rparr>)"
      using I t r buf at by (auto simp: demo_inv_def Let_def min_absorb2)
    moreover have "receiver_ready s" using t(1,2) at by (auto simp: receiver_ready_def simp flip: c_def)
    ultimately show ?thesis using t(1,2) by (auto simp: receiver_did_def)
  next
    fix q
    assume t: "chan_items c = []"
      "consumer_turn room (\<lambda>_ _ m. m) (\<lambda>_. all_exist) (\<lambda>_. False) clk (now_at s) (inbuf s) (recv s) (cend c) (mem c) =
         (if producerPid (block (mem c)) = - 1 then Inl (Inr (recv s, q, mem c)) else Inr (inbuf s, recv s, q, mem c))"
      "chan_ok (c\<lparr>cend := q\<rparr>)" "chan_items (c\<lparr>cend := q\<rparr>) = []" "chan_bound (c\<lparr>cend := q\<rparr>) = chan_bound c" "role_m q = Consumer"
    have same: "c\<lparr>cend := q, mem := mem c\<rparr> = c\<lparr>cend := q\<rparr>" by simp
    have ex: "producerPid (block (mem c)) = - 1 \<longleftrightarrow> send_at s = SExit" using I by (auto simp: left_pid_def)
    show ?thesis
    proof (cases "send_at s = SExit")
      case True
      then show ?thesis using I t ex at
        by (auto simp: receiver_did_def receiver_turn_def receiver_ready_def demo_inv_def Let_def same simp flip: c_def)
    next
      case going: False
      then show ?thesis using I t ex at
        by (auto simp: receiver_did_def receiver_turn_def receiver_ready_def sender_ready_def demo_inv_def Let_def same
            simp flip: c_def split: send_pc.splits)
    qed
  qed
qed

lemma receiver_turn_law:
  assumes inv: "demo_inv self peer bound n s"
  shows "receiver_did self peer bound n s (receiver_turn room clk peer s)"
proof (cases "recv_at s")
  case RWait
  have sl: "peer_slot (role_m (cend (shared s))) (block (mem (shared s))) = left_pid self (send_at s = SExit)"
    using inv by (simp add: demo_inv_def peer_slot_def Let_def)
  have same: "Inr (s\<lparr>recv_at := RWait\<rparr>) = (Inr s :: fault + demo_run)" using RWait by (cases s) simp
  show ?thesis
  proof (cases "send_at s = SExit")
    case True
    then have "receiver_turn room clk peer s = Inr s" using RWait unfolding same [symmetric] by (simp add: receiver_turn_def sl left_pid_def)
    then show ?thesis using True RWait inv by (simp add: receiver_did_def receiver_ready_def)
  next
    case False
    have "0 < sint self" using inv by (simp add: demo_inv_def Let_def)
    then have "receiver_turn room clk peer s = Inr (s\<lparr>recv_at := RLoop\<rparr>)"
      using False RWait by (simp add: receiver_turn_def sl left_pid_def)
    moreover have "demo_inv self peer bound n (s\<lparr>recv_at := RLoop\<rparr>)" using inv RWait by (auto simp: demo_inv_def left_pid_def Let_def)
    ultimately show ?thesis using False RWait by (auto simp: receiver_did_def receiver_ready_def)
  qed
next
  case RLoop
  then show ?thesis by (rule receiver_turn_loop [OF inv])
next
  case RLeave
  have c: "chan_ok (shared s)" "pid_slot Consumer (block (mem (shared s))) = peer"
    using inv RLeave by (simp_all add: demo_inv_def left_pid_def pid_slot_def Let_def)
  show ?thesis using inv RLeave give_up_slot_own [OF c]
    by (auto simp: receiver_did_def receiver_turn_def demo_inv_def receiver_ready_def left_pid_def set_pid_slot_def Let_def)
next
  case RExit
  then show ?thesis using inv by (simp add: receiver_did_def receiver_turn_def receiver_ready_def)
qed

lemma demo_bounds:
  assumes "demo_inv self peer bound n s"
  shows "send_rank n (send_at s) \<le> 2 * unat n + 2" "length (recv_all s) \<le> unat n" "0 < chan_bound (shared s)"
proof -
  have s: "sent_so_far n (sent_all s) (send_at s)" "length (recv_all s) \<le> length (sent_all s)" "chan_ok (shared s)"
    using assms by (auto simp: demo_inv_def Let_def)
  show "send_rank n (send_at s) \<le> 2 * unat n + 2" "length (recv_all s) \<le> unat n"
    using s(1,2) by (cases "send_at s"; auto simp: word_le_nat_alt word_less_nat_alt)+
  show "0 < chan_bound (shared s)" using s(3) by (auto simp: chan_ok_def chan_bound_def cons_ok_def ring_ok_def)
qed

lemma now_at_frame [simp]:
  "sender_ready (s\<lparr>now_at := t\<rparr>) = sender_ready s" "receiver_ready (s\<lparr>now_at := t\<rparr>) = receiver_ready s"
  "demo_inv self peer bound n (s\<lparr>now_at := t\<rparr>) = demo_inv self peer bound n s" "demo_left n (s\<lparr>now_at := t\<rparr>) = demo_left n s"
  by (cases "send_at s"; cases "recv_at s"; simp add: sender_ready_def receiver_ready_def demo_inv_def demo_left_def Let_def)+

lemma demo_turn_sender:
  assumes inv: "demo_inv self peer bound n s"
  obtains s' where "demo_turn room clk self peer n True s = Inr s'" "demo_inv self peer bound n s'"
    "if sender_ready s then demo_left n s' < demo_left n s else demo_left n s' = demo_left n s \<and> (receiver_ready s' \<longleftrightarrow> receiver_ready s)"
proof -
  obtain s1 where s1: "sender_turn clk self n s = Inr s1" "demo_inv self peer bound n s1" "recv_all s1 = recv_all s" "recv_at s1 = recv_at s"
      "send_rank n (send_at s1) = send_rank n (send_at s) + (if sender_ready s then 1 else 0)"
      "\<not> sender_ready s \<longrightarrow> receiver_ready s1 = receiver_ready s"
    using sender_turn_law [OF inv] unfolding sender_did_def by blast
  show ?thesis
    by (rule that [of "s1\<lparr>now_at := Suc (now_at s)\<rparr>"])
      (use s1 demo_bounds(1) [OF s1(2)] in \<open>auto simp: demo_turn_def demo_left_def\<close>)
qed

lemma demo_turn_receiver:
  assumes inv: "demo_inv self peer bound n s"
  obtains s' where "demo_turn room clk self peer n False s = Inr s'" "demo_inv self peer bound n s'"
    "if receiver_ready s then demo_left n s' < demo_left n s else demo_left n s' = demo_left n s \<and> (sender_ready s' \<longleftrightarrow> sender_ready s)"
proof -
  obtain s1 where s1: "receiver_turn room clk peer s = Inr s1" "demo_inv self peer bound n s1" "send_at s1 = send_at s"
      "if receiver_ready s
       then length (recv_all s) < length (recv_all s1) \<and> recv_at s1 = recv_at s \<or>
         recv_all s1 = recv_all s \<and> recv_rest (recv_at s1) < recv_rest (recv_at s)
       else recv_all s1 = recv_all s \<and> recv_at s1 = recv_at s \<and> sender_ready s1 = sender_ready s"
    using receiver_turn_law [OF inv] unfolding receiver_did_def by blast
  show ?thesis
    by (rule that [of "s1\<lparr>now_at := Suc (now_at s)\<rparr>"])
      (use s1 demo_bounds(2) [OF s1(2)] in \<open>auto simp: demo_turn_def demo_left_def split: if_splits\<close>)
qed

interpretation demo: ready_pair "demo_turn room clk self peer n" "demo_inv self peer bound n" demo_final "demo_left n"
    "\<lambda>w. if w then sender_ready else receiver_ready"
  for room clk self peer bound n
proof
  fix s w assume inv: "demo_inv self peer bound n s"
  show "\<exists>s'. demo_turn room clk self peer n w s = Inr s' \<and> demo_inv self peer bound n s' \<and>
      (if (if w then sender_ready else receiver_ready) s then demo_left n s' < demo_left n s
       else demo_left n s' = demo_left n s \<and>
         ((if \<not> w then sender_ready else receiver_ready) s' = (if \<not> w then sender_ready else receiver_ready) s))"
  proof (cases w)
    case True
    obtain s' where "demo_turn room clk self peer n True s = Inr s'" "demo_inv self peer bound n s'"
      "if sender_ready s then demo_left n s' < demo_left n s else demo_left n s' = demo_left n s \<and> (receiver_ready s' \<longleftrightarrow> receiver_ready s)"
      by (rule demo_turn_sender [OF inv])
    then show ?thesis using True by auto
  next
    case False
    obtain s' where "demo_turn room clk self peer n False s = Inr s'" "demo_inv self peer bound n s'"
      "if receiver_ready s then demo_left n s' < demo_left n s else demo_left n s' = demo_left n s \<and> (sender_ready s' \<longleftrightarrow> sender_ready s)"
      by (rule demo_turn_receiver [OF inv])
    then show ?thesis using False by auto
  qed
next
  fix s assume inv: "demo_inv self peer bound n s" and nf: "\<not> demo_final s"
  have l: "recv_at s \<in> {RLeave, RExit} \<longrightarrow> send_at s = SExit" using inv by (auto simp: demo_inv_def Let_def)
  have "sender_ready s \<or> receiver_ready s"
    using nf l demo_bounds(3) [OF inv]
    by (cases "send_at s"; cases "recv_at s") (auto simp: demo_final_def sender_ready_def receiver_ready_def)
  then show "\<exists>w. (if w then sender_ready else receiver_ready) s" by (metis (full_types))
qed

subsection \<open>Properties\<close>


lemma demo_init_inv: "attached_pair self peer c \<Longrightarrow> chan_items c = [] \<Longrightarrow> demo_inv self peer (chan_bound c) n (demo_init c)"
  by (auto simp: demo_inv_def demo_init_def attached_pair_def left_pid_def receiver_init_def Let_def)

text \<open>
  How a run can end. Either everything has been received, in order and undamaged, and both have given up
  their slots; or the consumer never saw the producer, which has put everything in the queue and gone.
\<close>

definition demo_delivered :: "u64 \<Rightarrow> demo_run \<Rightarrow> bool" where
  "demo_delivered total_n s \<longleftrightarrow> send_at s = SExit \<and> recv_at s = RExit \<and> recv_all s = sent_all s \<and> chan_items (shared s) = [] \<and>
     stream 0 (recv_all s) \<and> length (recv_all s) = unat total_n \<and> received (recv s) = total_n \<and> exit_code (recv s) = 0 \<and>
     producerPid (block (mem (shared s))) = - 1 \<and> consumerPid (block (mem (shared s))) = - 1"

definition demo_missed :: "u64 \<Rightarrow> demo_run \<Rightarrow> bool" where
  "demo_missed total_n s \<longleftrightarrow> send_at s = SExit \<and> recv_at s = RWait \<and> recv_all s = [] \<and> chan_items (shared s) = sent_all s \<and>
     stream 0 (sent_all s) \<and> length (sent_all s) = unat total_n \<and> producerPid (block (mem (shared s))) = - 1"

lemma delivered_or_missed:
  assumes inv: "demo_inv self peer bound n s" and fin: "demo_final s"
  shows "recv_at s \<noteq> RWait \<Longrightarrow> demo_delivered n s" "recv_at s = RWait \<Longrightarrow> demo_missed n s \<and> unat n \<le> bound"
proof -
  show "demo_delivered n s" if "recv_at s \<noteq> RWait"
    using inv fin that by (auto simp: demo_delivered_def demo_inv_def demo_final_def left_pid_def exit_code_def Let_def)
  assume "recv_at s = RWait"
  then have m: "demo_missed n s" using inv fin by (auto simp: demo_missed_def demo_inv_def demo_final_def left_pid_def Let_def)
  moreover have "length (chan_items (shared s)) \<le> chan_bound (shared s)" "chan_bound (shared s) = bound"
    using inv by (auto simp: demo_inv_def Let_def chan.items_bound)
  ultimately show "demo_missed n s \<and> unat n \<le> bound" by (simp add: demo_missed_def)
qed

text \<open>A run that is over does not move any more, and a consumer that has seen a producer does not wait again.\<close>

lemma demo_over_stays:
  assumes inv: "demo_inv self peer bound n s" and fin: "demo_final s" and turn: "demo_turn room clk self peer n w s = Inr s'"
  shows "demo_final s'"
proof -
  have "\<not> sender_ready s" "\<not> receiver_ready s" using fin by (auto simp: demo_final_def sender_ready_def receiver_ready_def)
  then show ?thesis
    using turn fin sender_turn_law [OF inv, of clk] receiver_turn_law [OF inv, of room clk]
    by (cases w) (auto simp: demo_turn_def demo_final_def sender_did_def receiver_did_def sender_turn_def)
qed

lemma seen_stays:
  assumes "demo_turn room clk self peer n w s = Inr s'" "recv_at s \<noteq> RWait"
  shows "recv_at s' \<noteq> RWait"
  using assms by (cases w; cases "recv_at s"; cases "send_at s")
    (auto simp: demo_turn_def sender_turn_def receiver_turn_def split: sum.splits)

lemma poll_sees:
  assumes "demo_inv self peer bound n s" "demo_turn room clk self peer n False s = Inr s'" "send_at s \<noteq> SExit"
  shows "recv_at s' \<noteq> RWait"
proof (cases "recv_at s = RWait")
  case True
  then show ?thesis using assms by (auto simp: demo_turn_def receiver_turn_def demo_inv_def left_pid_def peer_slot_def Let_def)
qed (rule seen_stays [OF assms(2)])

text \<open>
  Once the producer is attached to the empty queue of a consumer that waits, no schedule makes either of them
  fault or the consumer count an error. Every fair schedule brings them to an end: everything
  is delivered, unless the consumer polled only after the producer had gone, which takes a queue that holds all
  messages at once.
\<close>

lemma demo_end_to_end:
  fixes c room clk self peer total_n
  defines "run \<equiv> \<lambda>sched k. run_pair (demo_turn room clk self peer total_n) sched k (demo_init c)"
  assumes start: "attached_pair self peer c" "chan_items c = []"
  shows "\<exists>s. run sched k = Inr s \<and> exit_code (recv s) = 0 \<and> sent_all s = recv_all s @ chan_items (shared s)"
    and "fair sched \<Longrightarrow> (\<exists>k. \<forall>j\<ge>k. \<exists>s. run sched j = Inr s \<and> demo_delivered total_n s) \<or>
       unat total_n \<le> chan_bound c \<and> (\<exists>k. \<forall>j\<ge>k. \<exists>s. run sched j = Inr s \<and> demo_missed total_n s) \<and>
       (\<forall>i s. run sched i = Inr s \<and> \<not> sched i \<longrightarrow> send_at s = SExit)"
proof -
  note inv = demo_init_inv [OF start, of total_n]
  have safe: "\<exists>s. run sched k = Inr s \<and> demo_inv self peer (chan_bound c) total_n s" for k
    unfolding run_def using demo.run_safe [OF inv] by blast
  then show "\<exists>s. run sched k = Inr s \<and> exit_code (recv s) = 0 \<and> sent_all s = recv_all s @ chan_items (shared s)"
    using safe [of k] by (auto simp: demo_inv_def exit_code_def Let_def)
  assume "fair sched"
  from demo.completes [OF this inv, of room clk] obtain k s where
    s: "run sched k = Inr s" "demo_inv self peer (chan_bound c) total_n s" "demo_final s" unfolding run_def by blast
  have over: "demo_final t" if "k \<le> j" "run sched j = Inr t" for j t
    by (rule run_pair_stays [where Q = demo_final, OF s(1) [unfolded run_def] s(3) _ that(1) that(2) [unfolded run_def]])
      (metis demo_over_stays safe sum.inject(2) run_def)
  have inv_at: "demo_inv self peer (chan_bound c) total_n t" if "run sched j = Inr t" for j t using safe [of j] that by auto
  have seen: "recv_at t \<noteq> RWait" if "run sched i = Inr u" "recv_at u \<noteq> RWait" "i \<le> j" "run sched j = Inr t" for i j u t
    by (rule run_pair_stays [where Q = "\<lambda>t. recv_at t \<noteq> RWait", OF that(1) [unfolded run_def] that(2) _ that(3) that(4) [unfolded run_def]])
      (rule seen_stays)
  have ends: "\<exists>k. \<forall>j\<ge>k. \<exists>s. run sched j = Inr s \<and> demo_delivered total_n s" if "run sched i = Inr u" "recv_at u \<noteq> RWait" for i u
    by (rule exI [of _ "max i k"]) (metis delivered_or_missed(1) inv_at over safe seen that max.bounded_iff)
  show "(\<exists>k. \<forall>j\<ge>k. \<exists>s. run sched j = Inr s \<and> demo_delivered total_n s) \<or>
       unat total_n \<le> chan_bound c \<and> (\<exists>k. \<forall>j\<ge>k. \<exists>s. run sched j = Inr s \<and> demo_missed total_n s) \<and>
       (\<forall>i s. run sched i = Inr s \<and> \<not> sched i \<longrightarrow> send_at s = SExit)"
  proof (cases "\<exists>i u. run sched i = Inr u \<and> recv_at u \<noteq> RWait")
    case True
    then show ?thesis using ends by blast
  next
    case False
    then have waits: "recv_at u = RWait" if "run sched i = Inr u" for i u using that by blast
    have "unat total_n \<le> chan_bound c" using delivered_or_missed(2) [OF s(2,3)] waits [OF s(1)] by blast
    moreover have "\<exists>k. \<forall>j\<ge>k. \<exists>s. run sched j = Inr s \<and> demo_missed total_n s"
      by (rule exI [of _ k]) (metis delivered_or_missed(2) inv_at over safe waits)
    moreover have "send_at u = SExit" if u: "run sched i = Inr u" "\<not> sched i" for i u
    proof -
      obtain t where t: "run sched (Suc i) = Inr t" using safe by blast
      then have "demo_turn room clk self peer total_n False u = Inr t" using u by (simp add: run_def)
      then show ?thesis using poll_sees [OF inv_at [OF u(1)]] waits [OF t] by blast
    qed
    ultimately show ?thesis by blast
  qed
qed

end
