(* ===== verification/Session.thy ===== *)
theory Session
  imports DemoRun RefHost
begin

section \<open>From create and attach to a working queue\<close>

text \<open>
  One process creates a segment, another attaches to it: what \<open>Lifecycle\<close> proves of the two calls
  gives the invariants that \<open>Ring\<close>, \<open>Fifo\<close> and the programs start from. The control block is the
  one both handles reach; the slots behind it are an array of at least as many elements.
\<close>

definition segment_of :: "'k world \<Rightarrow> oid \<Rightarrow> 'a list \<Rightarrow> 'a shm" where
  "segment_of w ob xs = \<lparr>block = objs w ob, slots = xs\<rparr>"

text \<open>
  An \<^verbatim>\<open>attach\<close> whose first \<^verbatim>\<open>ShmSegment::open\<close> succeeds on an object that is ready, passes \<^verbatim>\<open>validate\<close> and has
  the wanted pid slot free takes it at once, without sleeping.
\<close>

context shm_host
begin

lemma attach_ready:
  assumes now: "steady_now H (kern w) = (t0, k0)" "steady_now H k0 = (t1, k1)"
    and op: "seg_open (posix_of H) name k1 = (Inr s, k2)" and ob: "links (V w) (c_str name) = Some ob"
    and c: "ready (objs w ob) = 1" "validate b (word_of_int (osize (V w) ob)) (objs w ob) = Inr ()" "pid_slot role (objs w ob) = 0"
  shows "\<exists>q w'. attach H b name role timeoutMs w = Some (Inr q, w') \<and> attached H view (maps (V w)) b name role w (Inr q, w') \<and>
           kern w' = snd (seg_reset (posix_of H) ShmSegment k2)"
proof -
  define w0 w1 where "w0 = w\<lparr>kern := k0\<rparr>" and "w1 = w\<lparr>kern := k1\<rparr>"
  have v: "V w0 = V w" "V w1 = V w" using now_law [OF now(1)] now_law [OF now(2)] by (simp_all add: w0_def w1_def)
  have q0: "attaching (V w) ShmSpscQueue"
    by (simp add: attaching_def handle_ok_def seg_mapped_def ShmSpscQueue_def ShmSegment_def)
  have m0: "other_maps (V w) ShmSpscQueue = maps (V w)" by (simp add: other_maps_def ShmSpscQueue_def ShmSegment_def)
  define q2 w2 where "q2 = ShmSpscQueue\<lparr>seg_m := s, ctrl_m := addr_m s\<rparr>"
    and "w2 = w1\<lparr>kern := snd (seg_reset (posix_of H) (seg_m ShmSpscQueue) k2)\<rparr>"
  have op1: "seg_open (posix_of H) name (kern w1) = (Inr s, k2)" using op by (simp add: w1_def)
  have q1: "attaching (V w1) ShmSpscQueue" using q0 v(2) by simp
  from reopen [OF q1 op1 q2_def w2_def] obtain ob' where
    "links (V w1) (c_str name) = Some ob'" "deref H q2 w2 = Inr (ob', objs w1 ob')" by blast
  then have d: "deref H q2 w2 = Inr (ob, objs w ob)" using ob v(2) by (simp add: w1_def)
  from seg_open_ok [OF op1] obtain ob1 where "size_m s = word_of_int (osize (V w1) ob1)" "links (V w1) (c_str name) = Some ob1"
    by (metis shm_segment.select_convs(2))
  then have sz: "size_m (seg_m q2) = word_of_int (osize (V w) ob)" using ob v(2) by (simp add: q2_def)
  have pass: "attach_pass H b name role dl ShmSpscQueue w0 = Inl (attach_finish H b role q2 w2)" for dl
    using now(2) op d c(1) by (simp add: attach_pass_def Let_def seg_move_assign_eq w0_def q2_def w2_def w1_def)
  have "\<exists>q w'. attach_finish H b role q2 w2 = (Inr q, w') \<and> kern w' = kern w2"
    using d c(2,3) sz by (simp add: attach_finish_def bind_def claim_slot_fresh Let_def store_def)
  then obtain q w' where fin: "attach_finish H b role q2 w2 = (Inr q, w')" and kern: "kern w' = kern w2" by blast
  have "attach H b name role timeoutMs w = Some (Inr q, w')"
    using now(1) pass fin by (simp add: attach_def attach_loop.simps w0_def)
  moreover have "attached H view (maps (V w)) b name role w0 (Inr q, w')"
    using attach_pass_end [OF _ pass [unfolded fin]] q0 v(1) m0 by (auto simp: refused_def)
  ultimately show ?thesis using v(1) kern by (auto simp: attached_def w0_def w2_def ShmSpscQueue_def)
qed

end

text \<open>Fresh indices and caches satisfy both invariants.\<close>

lemma fresh_ok:
  assumes "2 \<le> cap q" "cap q \<le> 2 ^ 63" "cap q \<le> length (slots m)" "writeIdx (block m) = 0" "readIdx (block m) = 0"
    "readIdxCache_m q = 0" "writeIdxCache_m q = 0"
  shows "prod_ok q m" "cons_ok q m" "contents q m = []"
  using assms by (simp_all add: prod_ok_def cons_ok_def ring_ok_def contents_def ring_def)

text \<open>
  One process creates, a second one opens the same name: \<open>other_sees\<close> says that the second sees the
  name linked to the object the first has just created, with its size, and that its first
  \<^verbatim>\<open>ShmSegment::open\<close>, after the two readings of the clock, succeeds.
\<close>

definition other_sees :: "'k host \<Rightarrow> ('k \<Rightarrow> kview) \<Rightarrow> string \<Rightarrow> oid \<Rightarrow> u64 \<Rightarrow> 'k world \<Rightarrow> bool" where
  "other_sees G view name ob bytes w \<longleftrightarrow>
     links (view (kern w)) (c_str name) = Some ob \<and> osize (view (kern w)) ob = sint bytes \<and>
     (\<exists>s k. seg_open (posix_of G) name (snd (steady_now G (snd (steady_now G (kern w))))) = (Inr s, k))"

text \<open>
  A control block as \<^verbatim>\<open>create\<close> leaves it for capacity \<open>cap0\<close>, role and pid: complete, valid for a segment of
  \<open>bytes\<close> bytes, empty, with the peer's slot free.
\<close>

definition fresh_block :: "binary \<Rightarrow> u64 \<Rightarrow> u64 \<Rightarrow> role \<Rightarrow> i32 \<Rightarrow> control_block \<Rightarrow> bool" where
  "fresh_block b cap0 bytes role pid c \<longleftrightarrow> ready c = 1 \<and> validate b bytes c = Inr () \<and> readIdx c = 0 \<and> writeIdx c = 0 \<and>
     unat (capacity c) = max 1 (unat cap0) + 1 \<and> max 1 (unat cap0) + 1 \<le> 2 ^ 63 \<and> pid_slot role c = pid \<and> peer_slot role c = 0"

text \<open>A handle whose caches are those of an empty queue of that capacity.\<close>

definition fresh_handle :: "u64 \<Rightarrow> role \<Rightarrow> queue \<Rightarrow> bool" where
  "fresh_handle cap0 role q \<longleftrightarrow> cap q = max 1 (unat cap0) + 1 \<and> role_m q = role \<and> bound_m q \<and> readIdxCache_m q = 0 \<and> writeIdxCache_m q = 0"

lemma fresh_invariants:
  assumes "fresh_handle cap0 role q" "fresh_block b cap0 bytes role' pid c" "writeIdx (block m) = writeIdx c" "readIdx (block m) = readIdx c"
    "cap q \<le> length (slots m)"
  shows "prod_ok q m" "cons_ok q m" "contents q m = []"
  by (rule fresh_ok; use assms in \<open>simp add: fresh_handle_def fresh_block_def\<close>)+

lemma slot_of_role: "role' \<noteq> role \<Longrightarrow> pid_slot role' c = peer_slot role c"
  by (cases role; cases role'; simp add: pid_slot_def peer_slot_def)

lemma set_pid_slot_other: "role' \<noteq> role \<Longrightarrow> pid_slot role (set_pid_slot role' p c) = pid_slot role c"
  by (cases role; cases role'; simp add: pid_slot_def set_pid_slot_def)

lemma created_fresh:
  assumes H: "shm_host H view time" and b: "binary_ok b" "unat (sizeof_T b) < 2 ^ 32"
    and cr: "create H b name cap0 role w = (Inr q, w1)" "reaches H q w1 = Some ob"
  shows "fresh_block b cap0 (size_m (seg_m q)) role (getpid H) (objs w1 ob)" "fresh_handle cap0 role q"
    "objs w1 = (objs w)(ob := objs w1 ob)" "ob \<notin> known (view (kern w))" "ob \<in> known (view (kern w1))"
proof -
  obtain ob' a bytes where c: "bytesNeeded b (clamped cap0) = Inr bytes" "0 \<le> sint bytes" "size_m (seg_m q) = bytes"
    "ctrl_m q = Some a" "capacity_m q = clamped cap0 + 1" "role_m q = role" "bound_m q" "readIdxCache_m q = 0" "writeIdxCache_m q = 0"
    "maps (view (kern w1)) a = Some (ob', bytes)"
    "objs w1 = (objs w)(ob' := (set_pid_slot role (getpid H) (created_block b (clamped cap0 + 1) bytes))\<lparr>ready := 1\<rparr>)"
    "ob' \<notin> known (view (kern w))" "ob' \<in> known (view (kern w1))"
    by (rule shm_host.create_ok [OF H cr(1)]) (auto intro: that)
  have ob: "ob' = ob" using cr(2) c(4,10) shm_host.reaches_iff [OF H, of q w1 ob'] by auto
  note g = created_geometry [OF b c(1,2)]
  have c1: "objs w1 ob = (set_pid_slot role (getpid H) (created_block b (clamped cap0 + 1) bytes))\<lparr>ready := 1\<rparr>"
    using c(11) by (simp add: ob)
  have "validate b bytes (objs w1 ob) = Inr ()" using g(5) by (simp add: c1)
  then show "fresh_block b cap0 (size_m (seg_m q)) role (getpid H) (objs w1 ob)"
    using g(1,3) unfolding fresh_block_def c1 c(3)
    by (cases role) (simp_all add: created_block_def set_pid_slot_def pid_slot_def peer_slot_def)
  show "fresh_handle cap0 role q" using c g(1) by (simp add: fresh_handle_def)
  show "objs w1 = (objs w)(ob := objs w1 ob)" "ob \<notin> known (view (kern w))" "ob \<in> known (view (kern w1))"
    using c(11-13) ob by auto
qed

text \<open>Attaching to such a block from another process.\<close>

lemma attach_fresh:
  assumes G: "shm_host G view time" and c: "fresh_block b cap0 bytes role pid (objs w1 ob)"
    and sees: "other_sees G view name ob bytes w1" and role: "role' \<noteq> role"
  obtains p w2 where "attach G b name role' timeoutMs w1 = Some (Inr p, w2)" "reaches G p w2 = Some ob"
    "fresh_handle cap0 role' p" "objs w2 = (objs w1)(ob := set_pid_slot role' (getpid G) (objs w1 ob))"
proof -
  have f: "ready (objs w1 ob) = 1" "validate b (word_of_int (osize (view (kern w1)) ob)) (objs w1 ob) = Inr ()"
    "pid_slot role' (objs w1 ob) = 0" "links (view (kern w1)) (c_str name) = Some ob"
    using c sees slot_of_role [OF role] by (simp_all add: fresh_block_def other_sees_def)
  obtain s k where op: "seg_open (posix_of G) name (snd (steady_now G (snd (steady_now G (kern w1))))) = (Inr s, k)"
    using sees by (auto simp: other_sees_def)
  obtain p w2 where at: "attach G b name role' timeoutMs w1 = Some (Inr p, w2)" "attached G view (maps (view (kern w1))) b name role' w1 (Inr p, w2)"
    using shm_host.attach_ready [OF G prod.collapse [symmetric] prod.collapse [symmetric] op f(4,1,2,3)] by blast
  then have "reaches G p w2 = Some ob \<and> fresh_handle cap0 role' p \<and> objs w2 = (objs w1)(ob := set_pid_slot role' (getpid G) (objs w1 ob))"
    using f(4) c by (auto simp: attached_def fresh_handle_def fresh_block_def)
  then show ?thesis using that at(1) by blast
qed

text \<open>Both steps together: two handles on one empty queue.\<close>

lemma created_and_attached:
  fixes xs :: "'a list"
  assumes H: "shm_host H view time" and G: "shm_host G view' time'"
    and b: "binary_ok b" "unat (sizeof_T b) < 2 ^ 32"
    and cr: "create H b name cap0 role w = (Inr q, w1)" "reaches H q w1 = Some ob"
    and sees: "other_sees G view' name ob (size_m (seg_m q)) w1"
    and role: "role' \<noteq> role" and xs: "cap q \<le> length xs"
  obtains p w2 m where "attach G b name role' timeoutMs w1 = Some (Inr p, w2)" "reaches G p w2 = Some ob"
    "m = segment_of w2 ob xs" "prod_ok q m" "cons_ok q m" "prod_ok p m" "cons_ok p m" "contents q m = []"
    "cap q = max 1 (unat cap0) + 1" "cap p = cap q" "role_m q = role" "role_m p = role'"
    "pid_slot role (block m) = getpid H" "pid_slot role' (block m) = getpid G"
proof -
  note c = created_fresh [OF H b cr]
  obtain p w2 where at: "attach G b name role' timeoutMs w1 = Some (Inr p, w2)" "reaches G p w2 = Some ob"
    "fresh_handle cap0 role' p" "objs w2 = (objs w1)(ob := set_pid_slot role' (getpid G) (objs w1 ob))"
    by (rule attach_fresh [OF G c(1) sees role])
  have blk: "objs w2 ob = set_pid_slot role' (getpid G) (objs w1 ob)" using at(4) by simp
  define m where "m = segment_of w2 ob xs"
  have pids: "pid_slot role (block m) = getpid H" "pid_slot role' (block m) = getpid G"
    using c(1) set_pid_slot_other [OF role] by (simp_all add: m_def segment_of_def blk fresh_block_def)
  have caps: "cap q = max 1 (unat cap0) + 1" "cap p = cap q" "role_m q = role" "role_m p = role'"
    using c(2) at(3) by (simp_all add: fresh_handle_def)
  have m: "writeIdx (block m) = writeIdx (objs w1 ob)" "readIdx (block m) = readIdx (objs w1 ob)" "slots m = xs"
    by (simp_all add: m_def segment_of_def blk)
  have "prod_ok q m" "cons_ok q m" "prod_ok p m" "cons_ok p m" "contents q m = []"
    using fresh_invariants [OF c(2,1) m(1,2)] fresh_invariants [OF at(3) c(1) m(1,2)] m(3) xs caps(2) by simp_all
  then show ?thesis using that [OF at(1,2) m_def] caps pids by blast
qed

subsection \<open>Properties\<close>

lemma ref_sees:
  assumes "tidy (kern w)" "validateName name = Inr ()" "links (kv (kern w)) (c_str name) = Some ob" "osize (kv (kern w)) ob = sint bytes" "0 < sint bytes"
  shows "other_sees (ref self) kv name ob bytes w"
proof -
  obtain s k where "seg_open (ref_posix (\<lambda>_. None)) name (kern w) = (Inr s, k)"
    by (rule ref_seg_open [OF assms(1-3)]) (use assms(4,5) in auto)
  then show ?thesis using assms(3,4) by (simp add: other_sees_def ref_host_def)
qed

lemma ref_attach:
  assumes k: "tidy (kern w)" "validateName name = Inr ()" "links (kv (kern w)) (c_str name) = Some ob" "osize (kv (kern w)) ob = sint bytes" "0 < sint bytes"
    and c: "fresh_block b cap0 bytes role pid (objs w ob)" "role' \<noteq> role" and at: "attach (ref self) b name role' ms w = Some (r, w2)"
  shows "tidy (kern w2)" "links (kv (kern w2)) = links (kv (kern w))" "osize (kv (kern w2)) = osize (kv (kern w))"
    "owned (kv (kern w2)) = owned (kv (kern w))"
    "maps (kv (kern w)) a = Some x \<Longrightarrow> maps (kv (kern w2)) a = Some x"
proof -
  have now: "steady_now (ref self) (kern w) = (fresh (kern w), kern w)" by (simp add: ref_host_def)
  obtain s k2 where op: "seg_open (ref_posix (\<lambda>_. None)) name (kern w) = (Inr s, k2)" "tidy k2"
    by (rule ref_seg_open [OF k(1-3)]) (use k(4,5) in auto)
  have op': "seg_open (posix_of (ref self)) name (kern w) = (Inr s, k2)" using op(1) by (simp add: ref_host_def)
  have f: "ready (objs w ob) = 1" "validate b (word_of_int (osize (kv (kern w)) ob)) (objs w ob) = Inr ()" "pid_slot role' (objs w ob) = 0"
    using c k(4) slot_of_role [OF c(2)] by (simp_all add: fresh_block_def)
  have w2: "kern w2 = k2"
    using refh.attach_ready [OF now now op' k(3) f, of ms] at by (auto simp: seg_reset_def ShmSegment_def)
  obtain a' ob' where v: "maps (kv (kern w)) a' = None"
      "kv k2 = (kv (kern w))\<lparr>maps := (maps (kv (kern w)))(a' \<mapsto> (ob', word_of_int (osize (kv (kern w)) ob')))\<rparr>"
    by (rule refk.seg_open_ok [OF op(1)]) (auto intro: that)
  show "tidy (kern w2)" "links (kv (kern w2)) = links (kv (kern w))" "osize (kv (kern w2)) = osize (kv (kern w))"
    "owned (kv (kern w2)) = owned (kv (kern w))"
    using op(2) v(2) by (simp_all add: w2)
  show "maps (kv (kern w2)) a = Some x" if "maps (kv (kern w)) a = Some x" using that v by (auto simp: w2)
qed

lemma sample_session:
  obtains q w1 ob where "create ref42 bin48 ''/q'' 4 Consumer world_init = (Inr q, w1)" "reaches ref42 q w1 = Some ob"
    "other_sees (ref_host (\<lambda>_. None) 43) kv ''/q'' ob (size_m (seg_m q)) w1" "cap q = 5"
proof -
  have n: "validateName ''/q'' = Inr ()" by (simp add: validateName_ok_iff)
  obtain bytes where bn: "bytesNeeded bin48 4 = Inr bytes" "0 < sint bytes" by (rule bin48_bytes [of 4]) simp_all
  obtain q w1 ob where s: "create ref42 bin48 ''/q'' 4 Consumer world_init = (Inr q, w1)" "reaches ref42 q w1 = Some ob" "size_m (seg_m q) = bytes"
    "tidy (kern w1)" "links (kv (kern w1)) (c_str ''/q'') = Some ob" "osize (kv (kern w1)) ob = sint bytes"
    by (rule ref_create [OF tidy_init n, of bin48 4 bytes 42 Consumer]) (use bn in \<open>simp_all add: clamped_def\<close>)
  have "cap q = 5" using created_fresh(2) [OF refh.shm_host_axioms bin48_ok s(1,2)] by (simp add: fresh_handle_def)
  then show ?thesis using that s(1,2) ref_sees [OF s(4) n s(5,6) bn(2), of 43] s(3) by blast
qed

text \<open>
  C8. Create and attach go together: when \<^verbatim>\<open>create\<close> has returned in one process and another process
  sees the name linked to the new object and can open it, \<^verbatim>\<open>attach\<close> with the other role succeeds at
  once, whatever its timeout; both handles then reach the same block, agree on the geometry asked for,
  hold its two pid slots, and start on the same empty queue with the invariants that every operation
  of the queue needs and keeps.
\<close>

theorem create_attach_roundtrip:
  fixes xs :: "'a list"
  assumes "shm_host H view time" "shm_host G view' time'" "binary_ok b" "unat (sizeof_T b) < 2 ^ 32"
    and "create H b name cap0 role w = (Inr q, w1)" "reaches H q w1 = Some ob"
    and "other_sees G view' name ob (size_m (seg_m q)) w1" "role' \<noteq> role" "cap q \<le> length xs"
  shows "\<exists>p w2. attach G b name role' timeoutMs w1 = Some (Inr p, w2) \<and> reaches G p w2 = Some ob \<and>
           (let m = segment_of w2 ob xs in
              prod_ok q m \<and> cons_ok q m \<and> prod_ok p m \<and> cons_ok p m \<and> contents q m = [] \<and>
              cap q = max 1 (unat cap0) + 1 \<and> cap p = cap q \<and> role_m q = role \<and> role_m p = role' \<and>
              pid_slot role (block m) = getpid H \<and> pid_slot role' (block m) = getpid G)"
  by (rule created_and_attached [OF assms, of timeoutMs]) (auto simp: Let_def)

theorem create_attach_roundtrip_witness:
  "\<exists>q w1 p w2 ob. create ref42 bin48 ''/q'' 4 Consumer world_init = (Inr q, w1) \<and>
     attach (ref_host (\<lambda>_. None) 43) bin48 ''/q'' Producer 0 w1 = Some (Inr p, w2) \<and>
     reaches ref42 q w1 = Some ob \<and> reaches (ref_host (\<lambda>_. None) 43) p w2 = Some ob \<and> cap p = 5"
proof -
  obtain q w1 ob where s: "create ref42 bin48 ''/q'' 4 Consumer world_init = (Inr q, w1)" "reaches ref42 q w1 = Some ob"
    "other_sees (ref_host (\<lambda>_. None) 43) kv ''/q'' ob (size_m (seg_m q)) w1" "cap q = 5" by (rule sample_session)
  show ?thesis
    using create_attach_roundtrip [OF refh.shm_host_axioms refh.shm_host_axioms bin48_ok s(1-3), of Producer "replicate 5 ()" 0] s
    by (auto simp: Let_def)
qed

end
