(* ===== verification/Stats.thy ===== *)
theory Stats
  imports Prelude "HOL-Library.Log_Nat"
begin

section \<open>Latency statistics\<close>

text \<open>
  The measuring half of \<^verbatim>\<open>src/common.h\<close>: \<^verbatim>\<open>nowNs\<close>, \<^verbatim>\<open>percentile\<close>, \<^verbatim>\<open>printLatency\<close> and
  \<^verbatim>\<open>clockOverheadNs\<close>. \<^verbatim>\<open>percentile\<close> computes an index in double precision. The doubles that occur
  are not negative and, but for the last rounding, whole multiples of \<open>2 ^ - 53\<close>: the literals 0.50,
  0.99 and 0.999 lie between one half and one, and the other factor is a whole number. They are
  represented by that multiple, and rounding to the nearest 53-bit significand, ties to even, is
  spelled out; the range of the exponent is never left. Of \<^verbatim>\<open>printLatency\<close> the four numbers printed
  are modelled, not their formatting.
\<close>

text \<open>\<^verbatim>\<open>duration_cast<nanoseconds>(...).count()\<close> as an unsigned number; the clock reading is \<open>ns\<close>.\<close>

definition nowNs :: "int \<Rightarrow> u64" where
  "nowNs ns = word_of_int ns"

text \<open>The nearest number with a significand of 53 bits.\<close>

definition rnd53 :: "nat \<Rightarrow> nat" where
  "rnd53 x =
     (let k = floorlog 2 x - 53; q = x div 2 ^ k; r = x mod 2 ^ k
      in (if 2 ^ k < 2 * r \<or> (2 * r = 2 ^ k \<and> odd q) then q + 1 else q) * 2 ^ k)"

text \<open>The literals, in units of \<open>2 ^ - 53\<close>.\<close>

definition p50 :: nat where "p50 = 4503599627370496"
definition p99 :: nat where "p99 = 8917127262193582"
definition p999 :: nat where "p999 = 8998192055486251"

text \<open>\<^verbatim>\<open>p * (sorted.size() - 1)\<close>, converted back to an integer by truncation.\<close>

definition percentile_index :: "nat \<Rightarrow> nat \<Rightarrow> nat" where
  "percentile_index p n = rnd53 (p * rnd53 n) div 2 ^ 53"

definition percentile :: "u64 list \<Rightarrow> nat \<Rightarrow> u64" where
  "percentile xs p =
     (if xs = [] then 0
      else let i = percentile_index p (length xs - 1) in xs ! min i (length xs - 1))"

text \<open>\<^verbatim>\<open>samples.back()\<close> of an empty vector is undefined.\<close>

definition printLatency :: "u64 list \<Rightarrow> fault + u64 \<times> u64 \<times> u64 \<times> u64" where
  "printLatency samples =
     (let xs = sort samples
      in if xs = [] then Inl OutOfBounds
         else Inr (percentile xs p50, percentile xs p99, percentile xs p999, last xs))"

text \<open>
  \<open>now j\<close> is the \<open>j\<close>-th reading of the clock; the result is \<open>None\<close> when \<^verbatim>\<open>iters\<close> is zero (a division by
  zero). A negative \<^verbatim>\<open>iters\<close> runs no iteration and divides by its 64-bit conversion.
\<close>

definition clockOverheadNs :: "(nat \<Rightarrow> u64) \<Rightarrow> i32 \<Rightarrow> u64 option" where
  "clockOverheadNs now iters =
     (let n = nat (sint iters); start = now 0; stop = now (Suc n); d = scast iters
      in if d = 0 then None else Some ((stop - start) div d))"

subsection \<open>Rounding\<close>

lemma floorlog_le53: "x < 2 ^ 53 \<Longrightarrow> floorlog 2 x \<le> 53"
  by (simp add: floorlog_leI)

lemma rnd53_small: "x < 2 ^ 53 \<Longrightarrow> rnd53 x = x"
  using floorlog_le53 [of x] by (simp add: rnd53_def Let_def)

lemma rnd53_0 [simp]: "rnd53 0 = 0"
  by (simp add: rnd53_small)

text \<open>A number between two powers of two is rounded to one between them.\<close>

lemma rnd53_bounds:
  assumes "0 < x" "floorlog 2 x = b" "53 \<le> b"
  shows "2 ^ (b - 1) \<le> rnd53 x" "rnd53 x \<le> 2 ^ b"
proof -
  define k where "k = b - 53"
  have x: "2 ^ (b - 1) \<le> x" "x < 2 ^ b" using floorlog_bounds [of x 2] assms by auto
  have "b = 53 + k" "b - 1 = 52 + k" using assms(3) by (simp_all add: k_def)
  then have pw: "(2 :: nat) ^ b = 2 ^ 53 * 2 ^ k" "(2 :: nat) ^ (b - 1) = 2 ^ 52 * 2 ^ k"
    by (simp_all only: power_add)
  have q: "2 ^ 52 \<le> x div 2 ^ k" "x div 2 ^ k < 2 ^ 53"
    using x unfolding pw by (simp_all add: less_mult_imp_div_less div_le_mono [of "2 ^ 52 * 2 ^ k" x "2 ^ k", simplified])
  have "rnd53 x = x div 2 ^ k * 2 ^ k \<or> rnd53 x = (x div 2 ^ k + 1) * 2 ^ k"
    by (auto simp: rnd53_def Let_def assms(2) k_def)
  then show "2 ^ (b - 1) \<le> rnd53 x" "rnd53 x \<le> 2 ^ b"
    unfolding pw using q by (auto intro!: mult_le_mono1)
qed

lemma rnd53_mono_same:
  assumes "floorlog 2 x = floorlog 2 y" "x \<le> y"
  shows "rnd53 x \<le> rnd53 y"
proof -
  define k where "k = floorlog 2 y - 53"
  define up where "up z \<longleftrightarrow> 2 ^ k < 2 * (z mod 2 ^ k) \<or> (2 * (z mod 2 ^ k) = 2 ^ k \<and> odd (z div 2 ^ k))" for z :: nat
  have r: "rnd53 x = (if up x then x div 2 ^ k + 1 else x div 2 ^ k) * 2 ^ k"
    "rnd53 y = (if up y then y div 2 ^ k + 1 else y div 2 ^ k) * 2 ^ k"
    using assms(1) by (simp_all add: rnd53_def Let_def k_def up_def)
  have "(if up x then x div 2 ^ k + 1 else x div 2 ^ k) \<le> (if up y then y div 2 ^ k + 1 else y div 2 ^ k)"
  proof (cases "x div 2 ^ k = y div 2 ^ k")
    case True
    then have "x mod 2 ^ k \<le> y mod 2 ^ k" using assms(2) by (metis div_mult_mod_eq nat_add_left_cancel_le)
    then have "up x \<Longrightarrow> up y" using True by (auto simp: up_def)
    then show ?thesis using True by auto
  next
    case False
    then have "x div 2 ^ k < y div 2 ^ k" using div_le_mono [OF assms(2)] by (simp add: le_neq_implies_less)
    then show ?thesis by auto
  qed
  then show ?thesis unfolding r by (rule mult_le_mono1)
qed

lemma rnd53_mono: "x \<le> y \<Longrightarrow> rnd53 x \<le> rnd53 y"
proof -
  assume le: "x \<le> y"
  define a b where "a = floorlog 2 x" and "b = floorlog 2 y"
  have ab: "a \<le> b" using floorlog_mono [OF le] by (simp add: a_def b_def)
  consider "x = 0" | "y < 2 ^ 53" | "a = b" | "0 < x" "a < b" "\<not> y < 2 ^ 53" using ab by linarith
  then show ?thesis
  proof cases
    case 4
    have "\<not> b \<le> 52" using 4(3) floorlog_leD [of 2 y 52] by (auto simp: b_def)
    then have y: "0 < y" "53 \<le> b" using 4(1) le by linarith+
    have "rnd53 x \<le> 2 ^ (b - 1)"
    proof (cases "53 \<le> a")
      case True
      then have "rnd53 x \<le> 2 ^ a" using rnd53_bounds(2) [OF 4(1) a_def [symmetric]] by simp
      also have "(2 :: nat) ^ a \<le> 2 ^ (b - 1)" using 4(2) by simp
      finally show ?thesis .
    next
      case False
      then have "x < 2 ^ 52" using floorlog_leD [of 2 x 52] by (simp add: a_def)
      moreover have "(2 :: nat) ^ 52 \<le> 2 ^ (b - 1)" using y(2) by (intro power_increasing) simp_all
      ultimately show ?thesis using rnd53_small [of x] by simp
    qed
    also have "\<dots> \<le> rnd53 y" by (rule rnd53_bounds(1) [OF y(1) b_def [symmetric] y(2)])
    finally show ?thesis .
  qed (use le rnd53_small [of x] rnd53_small [of y] rnd53_mono_same in \<open>auto simp: a_def b_def\<close>)
qed

lemma rnd53_shift:
  assumes "x < 2 ^ 53"
  shows "rnd53 (x * 2 ^ j) = x * 2 ^ j"
proof (cases "x = 0")
  case False
  define k where "k = floorlog 2 x + j - 53"
  have k: "k \<le> j" using floorlog_le53 [OF assms] by (simp add: k_def)
  then have "(2 :: nat) ^ k dvd x * 2 ^ j" by (intro dvd_mult le_imp_power_dvd)
  then have "x * 2 ^ j mod 2 ^ k = 0" "x * 2 ^ j div 2 ^ k * 2 ^ k = x * 2 ^ j" by simp_all
  then show ?thesis using False by (simp add: rnd53_def Let_def k_def)
qed simp

subsection \<open>The percentiles\<close>

lemma percentile_index_mono: "p \<le> p' \<Longrightarrow> percentile_index p n \<le> percentile_index p' n"
  unfolding percentile_index_def by (intro div_le_mono rnd53_mono mult_le_mono1)

lemma percentile_idx: "xs \<noteq> [] \<Longrightarrow> min i (length xs - 1) < length xs"
  by (cases xs) auto

lemma percentile_in: "xs \<noteq> [] \<Longrightarrow> percentile xs p \<in> set xs"
  unfolding percentile_def Let_def using percentile_idx [of xs] nth_mem by (metis (full_types))

lemma percentile_mono:
  assumes "sorted xs" "p \<le> p'"
  shows "percentile xs p \<le> percentile xs p'"
proof (cases "xs = []")
  case False
  have "min (percentile_index p (length xs - 1)) (length xs - 1) \<le> min (percentile_index p' (length xs - 1)) (length xs - 1)"
    using percentile_index_mono [OF assms(2), of "length xs - 1"] by linarith
  then show ?thesis
    using False sorted_nth_mono [OF assms(1) _ percentile_idx [OF False]] unfolding percentile_def Let_def by presburger
qed (simp add: percentile_def)

lemma sorted_le_last: "sorted xs \<Longrightarrow> x \<in> set xs \<Longrightarrow> x \<le> last xs"
  by (induction xs) auto

lemma percentile_median:
  assumes "xs \<noteq> []" "length xs \<le> 2 ^ 53"
  shows "percentile xs p50 = xs ! ((length xs - 1) div 2)"
proof -
  define n where "n = length xs - 1"
  have n: "n < 2 ^ 53" using assms by (cases xs) (simp_all add: n_def)
  have "p50 * rnd53 n = n * 2 ^ 52" by (simp add: p50_def rnd53_small [OF n])
  then have "percentile_index p50 n = n * 2 ^ 52 div 2 ^ 53"
    unfolding percentile_index_def using rnd53_shift [OF n, of 52] by (simp only:)
  also have "\<dots> = n div 2" by simp
  finally have "percentile_index p50 n = n div 2" .
  then show ?thesis using assms(1) unfolding percentile_def Let_def n_def [symmetric] by (simp add: min_def)
qed

subsection \<open>Properties\<close>

lemma printLatency_nonempty: "(\<exists>r. printLatency xs = Inr r) \<longleftrightarrow> xs \<noteq> []" "printLatency [] = Inl OutOfBounds"
proof -
  have "sort xs = [] \<longleftrightarrow> xs = []" by (simp flip: length_0_conv)
  then show "(\<exists>r. printLatency xs = Inr r) \<longleftrightarrow> xs \<noteq> []" by (simp add: printLatency_def Let_def)
qed (simp add: printLatency_def)

text \<open>
  C37. The latency report is coherent: for a non-empty set of samples the numbers printed as p50, p99,
  p99.9 and max are samples, in ascending order, the last is the largest sample, and (for up to
  \<open>2 ^ 53\<close> samples) p50 is the lower median, however the double-precision product is rounded. For no samples at
  all the call reads the last element of an empty vector.
\<close>

theorem printLatency_coherent:
  "case printLatency samples of
     Inl f \<Rightarrow> samples = [] \<and> f = OutOfBounds
   | Inr (a, b, c, d) \<Rightarrow> {a, b, c, d} \<subseteq> set samples \<and> a \<le> b \<and> b \<le> c \<and> c \<le> d \<and> d = Max (set samples) \<and>
       (length samples \<le> 2 ^ 53 \<longrightarrow> a = sort samples ! ((length samples - 1) div 2))"
proof (cases "samples = []")
  case True
  then show ?thesis by (simp add: printLatency_def)
next
  case False
  define xs where "xs = sort samples"
  have xs: "xs \<noteq> []" "sorted xs" "set xs = set samples" "length xs = length samples"
    using False by (simp_all add: xs_def flip: length_greater_0_conv)
  have last: "last xs \<in> set samples" "last xs = Max (set samples)"
    using xs sorted_le_last [OF xs(2)] last_in_set [OF xs(1)] by (auto intro!: Max_eqI [symmetric])
  have ord: "percentile xs p50 \<le> percentile xs p99" "percentile xs p99 \<le> percentile xs p999"
    by (rule percentile_mono [OF xs(2)], simp add: p50_def p99_def p999_def)+
  moreover have "percentile xs p999 \<le> last xs" using sorted_le_last [OF xs(2) percentile_in [OF xs(1)]] .
  moreover have "percentile xs p \<in> set samples" for p using percentile_in [OF xs(1)] xs(3) by simp
  ultimately show ?thesis
    using last xs percentile_median [of xs] by (simp add: printLatency_def Let_def flip: xs_def)
qed

theorem printLatency_coherent_witness:
  "\<exists>b c. printLatency [30, 10, 20] = Inr (20, b, c, 30) \<and> 20 \<le> b \<and> b \<le> c \<and> c \<le> 30"
proof -
  have s: "sort [30, 10, 20 :: u64] = [10, 20, 30]" "Max {30, 10, 20 :: u64} = 30" by simp_all
  obtain a b c d where r: "printLatency [30, 10, 20] = Inr (a, b, c, d)" by (auto simp: printLatency_def Let_def s)
  show ?thesis using printLatency_coherent [of "[30, 10, 20]"] unfolding r by (auto simp: s)
qed

text \<open>The overhead reported for a clock that does not run backwards, times the iterations, fits into the time measured.\<close>

lemma clockOverheadNs_bound:
  assumes "clockOverheadNs now iters = Some ns" "0 < sint iters" "now 0 \<le> now (Suc (nat (sint iters)))"
  shows "unat ns * nat (sint iters) \<le> unat (now (Suc (nat (sint iters)))) - unat (now 0)"
proof -
  define n where "n = nat (sint iters)"
  define e where "e = now (Suc n)"
  have "sint iters < 2 ^ LENGTH(64)" using sint_lt [of iters] by simp
  then have "uint (word_of_int (sint iters) :: u64) = sint iters"
    using assms(2) unfolding uint_word_of_int by (intro mod_pos_pos_trivial) simp_all
  then have "uint (scast iters :: u64) = sint iters" by simp
  then have d: "unat (scast iters :: u64) = n" by (simp only: unat_eq_nat_uint n_def)
  have "unat ns = unat (e - now 0) div n"
    using assms(1) unfolding clockOverheadNs_def Let_def n_def [symmetric] e_def
    by (cases "scast iters = (0 :: u64)") (auto simp: unat_div d)
  moreover have "unat (e - now 0) = unat e - unat (now 0)"
    using assms(3) by (simp add: e_def n_def unat_sub)
  ultimately show ?thesis by (simp add: e_def flip: n_def)
qed

end
