(* ===== verification/Programs.thy ===== *)
theory Programs
  imports Session Stats
begin

section \<open>The main functions of the two demo programs\<close>

text \<open>
  \<^verbatim>\<open>main\<close> of \<^verbatim>\<open>src/demo_producer.cpp\<close> and \<^verbatim>\<open>src/demo_consumer.cpp\<close> from the command line to the exit code:
  arguments, \<^verbatim>\<open>create\<close> or \<^verbatim>\<open>attach\<close>, the consumer's wait for a producer, the loops of \<open>Demo\<close>, the
  \<^verbatim>\<open>catch\<close> clause and the destructor of the handle on every way out. \<open>stop n\<close> is what the \<open>n\<close>-th reading
  of \<^verbatim>\<open>g_stop\<close> gives, \<open>ring_at ob\<close> the slots behind the control block of object \<open>ob\<close>. What is printed is left out,
  except that computing it may throw or fault.
\<close>

subsection \<open>Command lines\<close>

text \<open>\<^verbatim>\<open>strtoull(s, nullptr, 10)\<close>, and \<^verbatim>\<open>strtoul\<close> where \<^verbatim>\<open>long\<close> has 64 bits, in the C locale.\<close>

definition is_space :: "char \<Rightarrow> bool" where
  "is_space c \<longleftrightarrow> (let n = of_char c in n = (32 :: nat) \<or> 9 \<le> n \<and> n \<le> 13)"

definition is_digit :: "char \<Rightarrow> bool" where
  "is_digit c \<longleftrightarrow> (let n = of_char c in (48 :: nat) \<le> n \<and> n \<le> 57)"

definition digits_value :: "string \<Rightarrow> nat" where
  "digits_value ds = foldl (\<lambda>n c. 10 * n + (of_char c - 48)) 0 ds"

definition strtoull :: "string \<Rightarrow> u64" where
  "strtoull s =
     (let t = dropWhile is_space s;
          neg = (t \<noteq> [] \<and> hd t = CHR ''-'');
          u = (if t \<noteq> [] \<and> (hd t = CHR ''-'' \<or> hd t = CHR ''+'') then tl t else t);
          v = digits_value (takeWhile is_digit u)
      in if 2 ^ 64 \<le> v then - 1 else if neg then - of_nat v else of_nat v)"

text \<open>\<^verbatim>\<open>argv\<close> with the program's name first; \<^verbatim>\<open>argc\<close> is its length.\<close>

definition producer_args :: "string list \<Rightarrow> u64 \<times> string" where
  "producer_args argv =
     (if 1 < length argv then strtoull (argv ! 1) else 5000000,
      if 2 < length argv then argv ! 2 else ''/shmspsc_demo'')"

definition consumer_args :: "string list \<Rightarrow> string \<times> u64" where
  "consumer_args argv =
     (if 1 < length argv then argv ! 1 else ''/shmspsc_demo'',
      if 2 < length argv then strtoull (argv ! 2) else 8192)"

subsection \<open>Leaving a program\<close>

datatype outcome = Exit nat | Crash fault

text \<open>\<^verbatim>\<open>catch (const std::exception &)\<close> returns 1.\<close>

fun caught :: "err \<Rightarrow> outcome" where
  "caught (Throws x) = Exit 1"
| "caught (Faults f) = Crash f"

text \<open>The handle goes out of scope with the outcome decided.\<close>

definition leave :: "'k host \<Rightarrow> outcome \<Rightarrow> queue \<Rightarrow> 'k world \<Rightarrow> outcome \<times> 'k world" where
  "leave H r q w = (case detach H q w of (Inl e, w1) \<Rightarrow> (caught e, w1) | (Inr _, w1) \<Rightarrow> (r, w1))"

subsection \<open>The producer\<close>

definition producer_main :: "'k host \<Rightarrow> binary \<Rightarrow> (nat \<Rightarrow> message env) \<Rightarrow> (nat \<Rightarrow> probes) \<Rightarrow> (nat \<Rightarrow> bool) \<Rightarrow> (nat \<Rightarrow> u64) \<Rightarrow>
    (oid \<Rightarrow> message list) \<Rightarrow> string list \<Rightarrow> 'k world \<Rightarrow> (outcome \<times> 'k world) option" where
  "producer_main H b envs kills stop now ring_at argv w =
     (let (total_n, name) = producer_args argv in
      case attach H b name Producer 10000 w of
        None \<Rightarrow> None
      | Some (Inl e, w1) \<Rightarrow> Some (caught e, w1)
      | Some (Inr q, w1) \<Rightarrow>
          (case deref H q w1 of
             Inl e \<Rightarrow> Some (caught e, w1)
           | Inr (ob, c) \<Rightarrow>
               (case producer_loop envs kills stop now total_n 0 q \<lparr>block = c, slots = ring_at ob\<rparr> of
                  None \<Rightarrow> None
                | Some (Inl f) \<Rightarrow> Some (Crash f, w1)
                | Some (Inr (sent, q1, m1)) \<Rightarrow> Some (leave H (Exit 0) q1 (store ob (block m1) w1)))))"

subsection \<open>The consumer\<close>

text \<open>Lines 37--38; the result is the number of the next reading of \<^verbatim>\<open>g_stop\<close>.\<close>

partial_function (option) consumer_wait :: "'k host \<Rightarrow> (nat \<Rightarrow> bool) \<Rightarrow> nat \<Rightarrow> queue \<Rightarrow> 'k world \<Rightarrow> ((err + nat) \<times> 'k world) option" where
  "consumer_wait H stop i q w =
     (if stop i then Some (Inr (Suc i), w)
      else case waitForPeer H 1000 q w of
             None \<Rightarrow> None
           | Some (Inl e, w1) \<Rightarrow> Some (Inl e, w1)
           | Some (Inr there, w1) \<Rightarrow> if there then Some (Inr (Suc i), w1) else consumer_wait H stop (Suc i) q w1)"

text \<open>Lines 94--99: the report of the latencies, if there are any, and the exit code.\<close>

definition consumer_report :: "receiver \<Rightarrow> outcome" where
  "consumer_report r =
     (if latency r \<noteq> []
      then case printLatency (latency r) of Inl f \<Rightarrow> Crash f | Inr _ \<Rightarrow> Exit (exit_code r)
      else Exit (exit_code r))"

text \<open>Lines 39--99, with \<open>n\<close> readings of \<^verbatim>\<open>g_stop\<close> behind.\<close>

definition consumer_drain :: "'k host \<Rightarrow> nat \<Rightarrow> message env \<Rightarrow> probes \<Rightarrow> (nat \<Rightarrow> bool) \<Rightarrow> (nat \<Rightarrow> u64) \<Rightarrow>
    (oid \<Rightarrow> message list) \<Rightarrow> nat \<Rightarrow> queue \<Rightarrow> 'k world \<Rightarrow> (outcome \<times> 'k world) option" where
  "consumer_drain H room env kill stop now ring_at n q w =
     (if stop n then Some (leave H (Exit 0) q w)
      else case deref H q w of
             Inl e \<Rightarrow> Some (caught e, w)
           | Inr (ob, c) \<Rightarrow>
               (case consumer_loop room env kill (\<lambda>j. stop (Suc n + j)) now 0 (replicate 256 zero_message)
                       receiver_init q \<lparr>block = c, slots = ring_at ob\<rparr> of
                  None \<Rightarrow> None
                | Some (Inl f) \<Rightarrow> Some (Crash f, w)
                | Some (Inr (r, q1, m1)) \<Rightarrow> Some (leave H (consumer_report r) q1 (store ob (block m1) w))))"

text \<open>Lines 21--104; \<^verbatim>\<open>bytesNeeded\<close> is called again for the line printed at the start.\<close>

definition consumer_main :: "'k host \<Rightarrow> binary \<Rightarrow> nat \<Rightarrow> message env \<Rightarrow> probes \<Rightarrow> (nat \<Rightarrow> bool) \<Rightarrow> (nat \<Rightarrow> u64) \<Rightarrow>
    (oid \<Rightarrow> message list) \<Rightarrow> string list \<Rightarrow> 'k world \<Rightarrow> (outcome \<times> 'k world) option" where
  "consumer_main H b room env kill stop now ring_at argv w =
     (let (name, cap0) = consumer_args argv in
      case create H b name cap0 Consumer w of
        (Inl e, w1) \<Rightarrow> Some (caught e, w1)
      | (Inr q, w1) \<Rightarrow>
          (case bytesNeeded b cap0 of
             Inl x \<Rightarrow> Some (leave H (caught (Throws x)) q w1)
           | Inr _ \<Rightarrow>
               (case consumer_wait H stop 0 q w1 of
                  None \<Rightarrow> None
                | Some (Inl e, w2) \<Rightarrow> Some (caught e, w2)
                | Some (Inr n, w2) \<Rightarrow> consumer_drain H room env kill stop now ring_at n q w2)))"

subsection \<open>Counts on the command line\<close>

lemma to_string_digits: "c \<in> set (to_string n) \<Longrightarrow> is_digit c"
proof (induction n rule: to_string.induct)
  case (1 n)
  have d: "is_digit (char_of (48 + k))" if "k < 10" for k :: nat using that by (simp add: is_digit_def Let_def)
  show ?case
  proof (cases "n < 10")
    case True
    then show ?thesis using 1(2) d [of n] by (simp add: to_string.simps [of n])
  next
    case False
    then show ?thesis using 1(1) [OF False] 1(2) d [of "n mod 10"] by (auto simp: to_string.simps [of n])
  qed
qed

lemma digits_value_snoc: "digits_value (ds @ [c]) = 10 * digits_value ds + (of_char c - 48)"
  by (simp add: digits_value_def)

lemma digits_value_to_string: "digits_value (to_string n) = n"
proof (induction n rule: to_string.induct)
  case (1 n)
  show ?case
  proof (cases "n < 10")
    case True
    then show ?thesis using digits_value_snoc [of "[]" "char_of (48 + n)"] by (simp add: to_string.simps [of n] digits_value_def)
  next
    case False
    then show ?thesis using 1 [OF False] by (simp add: to_string.simps [of n] digits_value_snoc)
  qed
qed

lemma to_string_nonempty [simp]: "to_string n \<noteq> []"
  by (simp add: to_string.simps [of n])

text \<open>The text of a number is read back as that number; one that does not fit reads as the largest.\<close>

lemma strtoull_to_string: "strtoull (to_string n) = (if n < 2 ^ 64 then of_nat n else - 1)"
proof -
  have d: "is_digit (hd (to_string n))" by (intro to_string_digits [of _ n]) simp
  then have h: "\<not> is_space (hd (to_string n))" "hd (to_string n) \<noteq> CHR ''-''" "hd (to_string n) \<noteq> CHR ''+''"
    by (auto simp: is_digit_def is_space_def Let_def)
  then have e: "dropWhile is_space (to_string n) = to_string n" by (metis dropWhile_eq_self_iff)
  have v: "digits_value (takeWhile is_digit (to_string n)) = n"
    using takeWhile_eq_all_conv [of is_digit "to_string n"] to_string_digits digits_value_to_string by metis
  show ?thesis unfolding strtoull_def Let_def e using h v by simp
qed

subsection \<open>What the loops keep of a handle\<close>

definition same_handle :: "queue \<Rightarrow> queue \<Rightarrow> bool" where
  "same_handle q q' \<longleftrightarrow> seg_m q' = seg_m q \<and> ctrl_m q' = ctrl_m q \<and> role_m q' = role_m q \<and> bound_m q' = bound_m q \<and>
     capacity_m q' = capacity_m q"

lemma same_handle_refl [simp]: "same_handle q q" by (simp add: same_handle_def)

lemma same_handle_trans: "same_handle q q1 \<Longrightarrow> same_handle q1 q2 \<Longrightarrow> same_handle q q2" by (simp add: same_handle_def)

lemma same_handle_cache [simp]: "same_handle q (q\<lparr>readIdxCache_m := x\<rparr>)" "same_handle q (q\<lparr>writeIdxCache_m := x\<rparr>)"
  by (simp_all add: same_handle_def)

definition keeps_handle :: "queue \<Rightarrow> fault + 'r \<times> queue \<times> 'm \<Rightarrow> bool" where
  "keeps_handle q res \<longleftrightarrow> (\<forall>x q' m'. res = Inr (x, q', m') \<longrightarrow> same_handle q q')"

lemma try_push_handle: "try_push v q m = Inr (ok, q', m') \<Longrightarrow> same_handle q q'"
  by (auto simp: try_push_def Let_def bindE_def split: if_splits sum.splits)

lemma pop_n_handle: "pop_n dst n q m = Inr (k, d, q', m') \<Longrightarrow> same_handle q q'"
  by (auto simp: pop_n_def pop_n_consume_def Let_def bindE_def split: if_splits sum.splits)

lemma push_turn_handle:
  "push_turn e kill c v spins i q m = Inl (Inr (ok, q', m')) \<Longrightarrow> same_handle q q'"
  "push_turn e kill c v spins i q m = Inr (spins', q', m') \<Longrightarrow> same_handle q q'"
  by (auto simp: push_turn_def Let_def dest: try_push_handle split: sum.splits prod.splits bool.splits if_splits)

lemma push_handle:
  assumes "push e kill c v q m = Some (Inr (ok, q', m'))"
  shows "same_handle q q'"
proof -
  have "keeps_handle q (Inr (ok, q', m'))"
  proof (rule push_loop.raw_induct [where P = "\<lambda>e kill c v spins i q m res.
      keeps_handle q res", OF _ assms [unfolded push_def]])
    fix loop e kill c v spins i q m res
    assume "\<And>e kill c v spins i q m res. loop e kill c v spins i q m = Some res \<Longrightarrow>
        keeps_handle q res"
      and "(case push_turn e kill c v spins i q m of Inl res \<Rightarrow> Some res
        | Inr (spins1, q1, m1) \<Rightarrow> loop e kill c v spins1 (Suc i) q1 m1) = Some res"
    then show "keeps_handle q res"
      by (cases "push_turn e kill c v spins i q m")
        (fastforce dest: push_turn_handle intro: same_handle_trans simp: keeps_handle_def split: prod.splits)+
  qed
  then show ?thesis by (simp add: keeps_handle_def)
qed

lemma producer_loop_handle:
  "producer_loop envs kills stop now n sent q m = Some (Inr (sent', q', m')) \<Longrightarrow> same_handle q q'"
proof (induction envs kills stop now n sent q m rule: producer_loop.induct)
  case (1 envs kills stop now n sent q m)
  then show ?case
    by (subst (asm) producer_loop.simps)
      (auto simp: Let_def dest!: push_handle split: if_splits option.splits sum.splits intro: same_handle_trans)
qed

lemma consumer_turn_handle:
  "consumer_turn room e kill stop now i buf r q m = Inl (Inr (r', q', m')) \<Longrightarrow> same_handle q q'"
  "consumer_turn room e kill stop now i buf r q m = Inr (buf', r', q', m') \<Longrightarrow> same_handle q q'"
  by (auto simp: consumer_turn_def Let_def dest: pop_n_handle split: sum.splits if_splits)

lemma consumer_loop_handle:
  assumes "consumer_loop room e kill stop now i buf r q m = Some (Inr (r', q', m'))"
  shows "same_handle q q'"
proof -
  have "keeps_handle q (Inr (r', q', m'))"
  proof (rule consumer_loop.raw_induct [where P = "\<lambda>room e kill stop now i buf r q m res.
      keeps_handle q res", OF _ assms])
    fix loop room e kill stop now i buf r q m res
    assume "\<And>room e kill stop now i buf r q m res. loop room e kill stop now i buf r q m = Some res \<Longrightarrow>
        keeps_handle q res"
      and "(case consumer_turn room e kill stop now i buf r q m of Inl res \<Rightarrow> Some res
        | Inr (buf1, r1, q1, m1) \<Rightarrow> loop room e kill stop now (Suc i) buf1 r1 q1 m1) = Some res"
    then show "keeps_handle q res"
      by (cases "consumer_turn room e kill stop now i buf r q m")
        (fastforce dest: consumer_turn_handle intro: same_handle_trans simp: keeps_handle_def split: prod.splits)+
  qed
  then show ?thesis by (simp add: keeps_handle_def)
qed

subsection \<open>Waiting for the producer\<close>

text \<open>What clock readings and sleeps keep, waiting keeps.\<close>

locale waiting_keeps = shm_host +
  fixes I :: "'a world \<Rightarrow> bool"
  assumes now_keeps: "I w \<Longrightarrow> steady_now H (kern w) = (t, k) \<Longrightarrow> I (w\<lparr>kern := k\<rparr>)"
    and usleep_keeps: "I w \<Longrightarrow> I (usleep H us w)"
begin

lemma wait_loop_keeps:
  assumes run: "wait_loop H d q w = Some res" and I: "I w"
  shows "I (snd res)"
proof -
  have "H = H \<longrightarrow> I w \<longrightarrow> I (snd res)"
  proof (rule wait_loop.raw_induct [where P = "\<lambda>G d q w res. G = H \<longrightarrow> I w \<longrightarrow> I (snd res)", OF _ run], intro impI)
    fix loop G d q w res
    assume IH: "\<And>G d q w res. loop G d q w = Some res \<Longrightarrow> G = H \<longrightarrow> I w \<longrightarrow> I (snd res)"
      and body: "(case deref G q w of Inl e \<Rightarrow> Some (Inl e, w)
        | Inr (ob, c) \<Rightarrow> if 0 < sint (peer_slot (role_m q) c) then Some (Inr True, w)
            else let (t, k) = steady_now G (kern w); w1 = w\<lparr>kern := k\<rparr>
                 in if d \<le> t then Some (Inr False, w1) else loop G d q (usleep G 1000 w1)) = Some res"
      and G: "G = H" and w: "I w"
    obtain t k where now: "steady_now H (kern w) = (t, k)" by force
    note k = now_keeps [OF w now]
    then show "I (snd res)"
      using body G now w IH [of H d q "usleep H 1000 (w\<lparr>kern := k\<rparr>)" res] usleep_keeps [OF k]
      by (auto simp: Let_def split: sum.splits if_splits)
  qed
  then show ?thesis using I by simp
qed

lemma waitForPeer_keeps:
  assumes "waitForPeer H t q w = Some res" and "I w"
  shows "I (snd res)"
proof -
  obtain t0 k where now: "steady_now H (kern w) = (t0, k)" by force
  then show ?thesis using wait_loop_keeps [OF _ now_keeps [OF assms(2) now]] assms(1) by (simp add: waitForPeer_def)
qed

lemma waitForPeer_outcome:
  assumes h: "handle_ok (V w) q" "bound_m q" and w: "I w"
  obtains r w1 where "waitForPeer H ms q w = Some (Inr r, w1)" "I w1"
    "r \<longrightarrow> (\<exists>ob. reaches H q w1 = Some ob \<and> 0 < sint (peer_slot (role_m q) (objs w1 ob)))"
proof -
  obtain t k where now: "steady_now H (kern w) = (t, k)" by force
  have c: "ctrl_m q \<noteq> None" using h unfolding handle_ok_def by blast
  have "handle_ok (V (w\<lparr>kern := k\<rparr>)) q" using h(1) now_law [OF now] by simp
  from wait_loop_ends [OF shm_host_axioms c this, of "t + unat ms * 1000000"] obtain r w1 where
    r: "waitForPeer H ms q w = Some (Inr r, w1)"
       "if r then \<exists>ob. reaches H q w1 = Some ob \<and> 0 < sint (peer_slot (role_m q) (objs w1 ob))
        else t + unat ms * 1000000 \<le> time (kern w1)"
    using now unfolding waitForPeer_def by auto
  then show ?thesis using that waitForPeer_keeps [OF r(1) w] by simp
qed

lemma consumer_wait_keeps:
  assumes run: "consumer_wait H stop i q w = Some res" and I: "I w" and h: "\<And>w. I w \<Longrightarrow> handle_ok (V w) q" "bound_m q"
  shows "I (snd res) \<and> (\<exists>n. fst res = Inr n)"
proof -
  have "H = H \<longrightarrow> q = q \<longrightarrow> I w \<longrightarrow> I (snd res) \<and> (\<exists>n. fst res = Inr n)"
  proof (rule consumer_wait.raw_induct [where P = "\<lambda>G stop i q' w res. G = H \<longrightarrow> q' = q \<longrightarrow> I w \<longrightarrow> I (snd res) \<and> (\<exists>n. fst res = Inr n)", OF _ run], intro impI)
    fix loop G stop i q' w res
    assume IH: "\<And>G stop i q' w res. loop G stop i q' w = Some res \<Longrightarrow> G = H \<longrightarrow> q' = q \<longrightarrow> I w \<longrightarrow> I (snd res) \<and> (\<exists>n. fst res = Inr n)"
      and body: "(if stop i then Some (Inr (Suc i), w)
        else case waitForPeer G 1000 q' w of None \<Rightarrow> None | Some (Inl e, w1) \<Rightarrow> Some (Inl e, w1)
          | Some (Inr there, w1) \<Rightarrow> if there then Some (Inr (Suc i), w1) else loop G stop (Suc i) q' w1) = Some res"
      and G: "G = H" "q' = q" and w: "I w"
    obtain r w1 where "waitForPeer H 1000 q w = Some (Inr r, w1)" "I w1" by (rule waitForPeer_outcome [OF h(1) [OF w] h(2) w])
    then show "I (snd res) \<and> (\<exists>n. fst res = Inr n)"
      using body G w IH [of H stop "Suc i" q w1 res] by (auto split: if_splits)
  qed
  then show ?thesis using I by simp
qed

text \<open>A signal ends the wait, which never faults.\<close>

lemma consumer_wait_stops:
  assumes h: "\<And>w. I w \<Longrightarrow> handle_ok (V w) q" "bound_m q" and w: "I w" and s: "stop (i + n)"
  shows "\<exists>j w'. consumer_wait H stop i q w = Some (Inr j, w') \<and> i < j \<and> j \<le> Suc (i + n) \<and> I w'"
  using w s
proof (induction n arbitrary: i w)
  case 0
  then show ?case by (simp add: consumer_wait.simps)
next
  case (Suc n)
  obtain r w1 where p: "waitForPeer H 1000 q w = Some (Inr r, w1)" and w1: "I w1"
    by (rule waitForPeer_outcome [OF h(1) [OF Suc.prems(1)] h(2) Suc.prems(1)])
  show ?case
  proof (cases "stop i \<or> r")
    case True
    then show ?thesis using p w1 Suc.prems(1) by (auto simp: consumer_wait.simps [of H stop i])
  next
    case False
    then show ?thesis
      using p Suc.IH [OF w1, of "Suc i"] Suc.prems(2) by (fastforce simp: consumer_wait.simps [of H stop i])
  qed
qed

text \<open>If no look at the slot finds a producer, the wait goes on for ever.\<close>

lemma consumer_wait_blind:
  assumes "\<And>w ob. I w \<Longrightarrow> reaches H q w = Some ob \<Longrightarrow> sint (peer_slot (role_m q) (objs w ob)) \<le> 0"
    and h: "\<And>w. I w \<Longrightarrow> handle_ok (V w) q" "bound_m q" and w: "I w" and s: "\<And>i. \<not> stop i"
  shows "consumer_wait H stop i q w = None"
proof (rule ccontr)
  assume "consumer_wait H stop i q w \<noteq> None"
  then obtain res where run: "consumer_wait H stop i q w = Some res" by blast
  have "H = H \<longrightarrow> stop = stop \<longrightarrow> q = q \<longrightarrow> I w \<longrightarrow> False"
  proof (rule consumer_wait.raw_induct [where P = "\<lambda>G stop' i q' w res. G = H \<longrightarrow> stop' = stop \<longrightarrow> q' = q \<longrightarrow> I w \<longrightarrow> False", OF _ run], intro impI)
    fix loop G stop' i q' w res
    assume IH: "\<And>G stop' i q' w res. loop G stop' i q' w = Some res \<Longrightarrow> G = H \<longrightarrow> stop' = stop \<longrightarrow> q' = q \<longrightarrow> I w \<longrightarrow> False"
      and body: "(if stop' i then Some (Inr (Suc i), w)
        else case waitForPeer G 1000 q' w of None \<Rightarrow> None | Some (Inl e, w1) \<Rightarrow> Some (Inl e, w1)
          | Some (Inr there, w1) \<Rightarrow> if there then Some (Inr (Suc i), w1) else loop G stop' (Suc i) q' w1) = Some res"
      and G: "G = H" "stop' = stop" "q' = q" and w: "I w"
    obtain r w1 where p: "waitForPeer H 1000 q w = Some (Inr r, w1)"
        "r \<longrightarrow> (\<exists>ob. reaches H q w1 = Some ob \<and> 0 < sint (peer_slot (role_m q) (objs w1 ob)))" and w1: "I w1"
      by (rule waitForPeer_outcome [OF h(1) [OF w] h(2) w])
    note w1
    then have "\<not> r" using p(2) assms(1) by force
    then show False using body G p(1) w1 IH s by auto
  qed
  then show False using w by simp
qed

end

text \<open>Of every lawful host: waiting costs no descriptor and no mapping.\<close>

sublocale shm_host \<subseteq> held: waiting_keeps H view time "\<lambda>w. maps (V w) = M \<and> fds (V w) = F" for M F
proof
  show "maps (V (w\<lparr>kern := k\<rparr>)) = M \<and> fds (V (w\<lparr>kern := k\<rparr>)) = F"
    if "maps (V w) = M \<and> fds (V w) = F" "steady_now H (kern w) = (t, k)" for M F w t k
    using that now_law [of "kern w" t k] by simp
  show "maps (V (usleep H us w)) = M \<and> fds (V (usleep H us w)) = F" if "maps (V w) = M \<and> fds (V w) = F" for M F us w
    using that usleep_own_law [of us w] by simp
qed

subsection \<open>Leaving cleanly\<close>

text \<open>An outcome that is an exit code, with the mappings \<open>M\<close> and descriptors \<open>F\<close> held and the role's slot of object \<open>ob\<close> given up.\<close>

definition left_cleanly :: "'k host \<Rightarrow> ('k \<Rightarrow> kview) \<Rightarrow> role \<Rightarrow> (addr \<rightharpoonup> oid \<times> u64) \<Rightarrow> (fd \<rightharpoonup> oid) \<Rightarrow> oid \<Rightarrow> outcome \<times> 'k world \<Rightarrow> bool" where
  "left_cleanly H view role M F ob = (\<lambda>(r, w). (\<exists>code \<le> 1. r = Exit code) \<and> maps (view (kern w)) = M \<and> fds (view (kern w)) = F \<and>
     pid_slot role (objs w ob) \<noteq> getpid H)"

lemma exit_code_le [simp]: "exit_code r \<le> Suc 0" by (simp add: exit_code_def)

lemma consumer_report_eq: "consumer_report r = Exit (exit_code r)"
proof (cases "latency r = []")
  case False
  then obtain x where "printLatency (latency r) = Inr x" using printLatency_nonempty(1) by blast
  then show ?thesis by (simp add: consumer_report_def)
qed (simp add: consumer_report_def)

lemma consumer_report_exits: "\<exists>code \<le> 1. consumer_report r = Exit code"
  by (simp add: consumer_report_eq)

lemma same_handle_ok: "same_handle q q' \<Longrightarrow> handle_ok v q' = handle_ok v q" "same_handle q q' \<Longrightarrow> other_maps v q' = other_maps v q"
  by (simp_all add: same_handle_def handle_ok_def other_maps_def)

lemma handle_ok_maps: "maps v' = maps v \<Longrightarrow> handle_ok v' q = handle_ok v q"
  by (cases "addr_m (seg_m q)") (simp_all add: handle_ok_def seg_mapped_def)

lemma same_handle_reaches: "same_handle q q' \<Longrightarrow> kern w' = kern w \<Longrightarrow> reaches H q' w' = reaches H q w"
  by (simp add: same_handle_def reaches_def split: option.split)

lemma kern_store [simp]: "kern (store ob c w) = kern w" by (simp add: store_def)

context shm_host
begin

text \<open>What the destructor of an attached handle leaves.\<close>

lemma detach_attached:
  assumes h: "handle_ok (V w) q" "bound_m q" "reaches H q w = Some ob" and pid: "getpid H \<noteq> - 1"
  obtains q' w' where "detach H q w = (Inr q', w')" "kern w' = snd (seg_reset (posix_of H) (seg_m q) (kern w))"
    "maps (V w') = other_maps (V w) q" "fds (V w') = fds (V w)" "pid_slot (role_m q) (objs w' ob) \<noteq> getpid H"
    "\<forall>ob'. ob' \<noteq> ob \<longrightarrow> objs w' ob' = objs w ob'"
proof -
  obtain w' where d: "detach H q w = (Inr (q\<lparr>ctrl_m := None, slots_m := None, bound_m := False, seg_m := ShmSegment\<rparr>), w')"
      "kern w' = snd (seg_reset (posix_of H) (seg_m q) (kern w))"
      "objs w' = (let c = objs w ob in if pid_slot (role_m q) c = getpid H then (objs w)(ob := set_pid_slot (role_m q) (- 1) c) else objs w)"
    using detach_ok [OF h(1)] h(2,3) by (auto simp: Let_def)
  have "maps (V w') = other_maps (V w) q" "fds (V w') = fds (V w)"
    using seg_reset_view [of "kern w" "seg_m q"] h(1) by (simp_all add: d(2) handle_ok_def other_maps_def)
  moreover have "pid_slot (role_m q) (objs w' ob) \<noteq> getpid H" using pid by (auto simp: d(3) Let_def)
  moreover have "\<forall>ob'. ob' \<noteq> ob \<longrightarrow> objs w' ob' = objs w ob'" by (simp add: d(3) Let_def)
  ultimately show ?thesis using that d(1,2) by blast
qed

lemma leave_cleanly:
  assumes h: "handle_ok (V w) q" "bound_m q" and ob: "reaches H q w = Some ob" and pid: "getpid H \<noteq> - 1"
    and r: "\<exists>code \<le> 1. r = Exit code"
  shows "left_cleanly H view (role_m q) (other_maps (V w) q) (fds (V w)) ob (leave H r q w)"
  by (rule detach_attached [OF h ob pid]) (use r in \<open>simp add: left_cleanly_def leave_def\<close>)

text \<open>Lines 39--99 on a healthy queue with a lawful producer: they end in an exit code, and do end after a signal.\<close>

lemma consumer_drain_cleanly:
  assumes h: "handle_ok (V w) q" "bound_m q" "role_m q = Consumer" and ob: "reaches H q w = Some ob" and pid: "getpid H \<noteq> - 1"
    and peer: "producing_peer env (cap q)" and ring: "cons_ok q (segment_of w ob (ring_at ob))"
  shows "consumer_drain H room env kill stop now ring_at n q w = Some res \<Longrightarrow>
           left_cleanly H view Consumer (other_maps (V w) q) (fds (V w)) ob res"
    and "stop N \<Longrightarrow> n \<le> N \<Longrightarrow> \<exists>res. consumer_drain H room env kill stop now ring_at n q w = Some res"
proof -
  have d: "deref H q w = Inr (ob, objs w ob)" using ob by (simp add: deref_def)
  have seg: "\<lparr>block = objs w ob, slots = ring_at ob\<rparr> = segment_of w ob (ring_at ob)" by (simp add: segment_of_def)
  have len: "length (replicate 256 zero_message) < 2 ^ 64" by simp
  define loop where "loop = consumer_loop room env kill (\<lambda>j. stop (Suc n + j)) now 0 (replicate 256 zero_message) receiver_init q (segment_of w ob (ring_at ob))"
  have body: "consumer_drain H room env kill stop now ring_at n q w =
     (if stop n then Some (leave H (Exit 0) q w)
      else case loop of None \<Rightarrow> None | Some (Inl f) \<Rightarrow> Some (Crash f, w)
        | Some (Inr (r, q1, m1)) \<Rightarrow> Some (leave H (consumer_report r) q1 (store ob (block m1) w)))"
    by (simp add: consumer_drain_def d seg loop_def)
  note cl = leave_cleanly [OF h(1,2) ob pid]
  show "left_cleanly H view Consumer (other_maps (V w) q) (fds (V w)) ob res"
    if run: "consumer_drain H room env kill stop now ring_at n q w = Some res"
  proof (cases "stop n")
    case True
    then show ?thesis using run body cl [of "Exit 0"] h(3) by auto
  next
    case False
    then obtain lr where l: "loop = Some lr" using run body by (cases loop) auto
    then have "drained_ok room receiver_init q (segment_of w ob (ring_at ob)) lr"
      unfolding loop_def by (rule consumer_loop_correct [OF peer _ ring refl len])
    then obtain r q1 m1 where lr: "lr = Inr (r, q1, m1)" by (auto simp: drained_ok_def)
    have same: "same_handle q q1" using l unfolding lr loop_def by (rule consumer_loop_handle)
    have "handle_ok (V (store ob (block m1) w)) q1" "bound_m q1" "reaches H q1 (store ob (block m1) w) = Some ob"
      using same h ob same_handle_ok(1) [OF same] same_handle_reaches [OF same, of "store ob (block m1) w" w H]
      by (simp_all add: same_handle_def)
    from leave_cleanly [OF this pid consumer_report_exits [of r]] show ?thesis
      using run body False l lr same h(3) same_handle_ok(2) [OF same] by (simp add: same_handle_def)
  qed
  show "\<exists>res. consumer_drain H room env kill stop now ring_at n q w = Some res" if "stop N" "n \<le> N"
  proof (cases "stop n")
    case False
    then have "stop (Suc n + (N - Suc n))" using that by (cases "n = N") simp_all
    then obtain lr where "loop = Some lr" 
      using consumer_loop_stops [OF peer, of "\<lambda>j. stop (Suc n + j)" "N - Suc n" q _ _ 0, OF _ ring refl len] unfolding loop_def by blast
    then show ?thesis using False body by (auto split: sum.splits)
  qed (use body in simp)
qed

end

subsection \<open>Properties\<close>

text \<open>What \<^verbatim>\<open>create\<close> gives the consumer to start with.\<close>


context shm_host
begin

lemma created_consumer:
  assumes b: "binary_ok b" "unat (sizeof_T b) < 2 ^ 32" and cr: "create H b name cap0 Consumer w = (Inr q, w1)"
    and len: "\<And>ob. max 1 (unat cap0) + 1 \<le> length (ring_at ob)"
  obtains ob where "reaches H q w1 = Some ob" "handle_ok (V w1) q" "bound_m q" "role_m q = Consumer" "cap q = max 1 (unat cap0) + 1"
    "other_maps (V w1) q = maps (V w)" "fds (V w1) = fds (V w)" "cons_ok q (segment_of w1 ob (ring_at ob))"
proof -
  obtain ob a bytes where c: "bytesNeeded b (clamped cap0) = Inr bytes" "0 \<le> sint bytes" "maps (V w) a = None"
    "seg_m q = \<lparr>addr_m = Some a, size_m = bytes, owner_m = True, name_m = name\<rparr>"
    "ctrl_m q = Some a" "capacity_m q = clamped cap0 + 1" "role_m q = Consumer" "bound_m q" "readIdxCache_m q = 0" "writeIdxCache_m q = 0"
    "maps (V w1) = (maps (V w))(a \<mapsto> (ob, bytes))" "fds (V w1) = fds (V w)"
    "objs w1 = (objs w)(ob := (set_pid_slot Consumer (getpid H) (created_block b (clamped cap0 + 1) bytes))\<lparr>ready := 1\<rparr>)"
    by (rule create_ok [OF cr]) (auto intro: that)
  note g = created_geometry [OF b c(1,2)]
  have cap: "cap q = max 1 (unat cap0) + 1" using c(6) g(1) by simp
  have "cons_ok q (segment_of w1 ob (ring_at ob))"
    by (rule fresh_ok(2)) (use cap g(2,3) c(9,10) len [of ob] in \<open>simp_all add: segment_of_def c(13) created_block_def\<close>)
  moreover have "other_maps (V w1) q = maps (V w)" using c(3,4,11) by (auto simp: other_maps_def)
  moreover have "reaches H q w1 = Some ob" using c(5,11) by (simp add: reaches_iff)
  moreover have "handle_ok (V w1) q" using c(4,5,11) by (simp add: handle_ok_def seg_mapped_def)
  ultimately show ?thesis using that cap c(7,8,12) by blast
qed

text \<open>The wait on a healthy queue keeps it healthy.\<close>

lemma waiting_keeps_ring:
  assumes "\<And>us w. cons_ok q (segment_of w ob xs) \<Longrightarrow> cons_ok q (segment_of (usleep H us w) ob xs)"
  shows "waiting_keeps H view time (\<lambda>w. maps (V w) = M \<and> fds (V w) = F \<and> cons_ok q (segment_of w ob xs))"
  by unfold_locales (use assms now_law usleep_own_law in \<open>auto simp: segment_of_def\<close>)

end

context shm_host
begin

lemma consumer_serves:
  assumes h: "handle_ok (V w) q" "bound_m q" "role_m q = Consumer" "reaches H q w = Some ob" and pid: "getpid H \<noteq> - 1"
    and peer: "producing_peer env (cap q)" and ring: "cons_ok q (segment_of w ob (ring_at ob))"
    and sleep: "\<forall>us w. cons_ok q (segment_of w ob (ring_at ob)) \<longrightarrow> cons_ok q (segment_of (usleep H us w) ob (ring_at ob))"
  shows "consumer_wait H stop i q w = Some (res, w2) \<Longrightarrow>
           \<exists>n. res = Inr n \<and> (\<forall>r. consumer_drain H room env kill stop now ring_at n q w2 = Some r \<longrightarrow>
             left_cleanly H view Consumer (other_maps (V w) q) (fds (V w)) ob r)"
    and "\<forall>j \<ge> N. stop j \<Longrightarrow> \<exists>n w2 r. consumer_wait H stop i q w = Some (Inr n, w2) \<and>
           consumer_drain H room env kill stop now ring_at n q w2 = Some r"
proof -
  define I where "I = (\<lambda>v. maps (V v) = maps (V w) \<and> fds (V v) = fds (V w) \<and> cons_ok q (segment_of v ob (ring_at ob)))"
  have W: "waiting_keeps H view time I" unfolding I_def using sleep by (intro waiting_keeps_ring) blast
  have I: "I w" using ring by (simp add: I_def)
  have k: "handle_ok (V v) q" "reaches H q v = Some ob" "other_maps (V v) q = other_maps (V w) q" "fds (V v) = fds (V w)"
    "cons_ok q (segment_of v ob (ring_at ob))" if "I v" for v
    using that h(1,4) maps_cong(2) [of "V v" "V w" q] handle_ok_maps [of "V v" "V w" q] by (simp_all add: I_def reaches_iff)
  note drain = consumer_drain_cleanly [where ring_at = ring_at, OF k(1) h(2,3) k(2) pid peer k(5)]
  show "\<exists>n. res = Inr n \<and> (\<forall>r. consumer_drain H room env kill stop now ring_at n q w2 = Some r \<longrightarrow>
      left_cleanly H view Consumer (other_maps (V w) q) (fds (V w)) ob r)" if "consumer_wait H stop i q w = Some (res, w2)"
  proof -
    have "I w2" "\<exists>n. res = Inr n" using waiting_keeps.consumer_wait_keeps [OF W that I k(1) h(2)] by simp_all
    then show ?thesis using drain(1) [of w2] k(3,4) by auto
  qed
  show "\<exists>n w2 r. consumer_wait H stop i q w = Some (Inr n, w2) \<and> consumer_drain H room env kill stop now ring_at n q w2 = Some r"
    if st: "\<forall>j \<ge> N. stop j"
  proof -
    obtain n w2 where w2: "consumer_wait H stop i q w = Some (Inr n, w2)" "I w2"
      using waiting_keeps.consumer_wait_stops [OF W k(1) h(2) I, of stop i N] st by auto
    then show ?thesis using drain(2) [OF w2(2) w2(2) w2(2), of stop "max n N" n] st by fastforce
  qed
qed

end

text \<open>
  C30. The demo consumer, from its command line to its exit code, leaves cleanly on every way out: with
  a lawful producer it never faults, and whatever ends it (an exception of \<^verbatim>\<open>create\<close>, a signal while it
  waits or drains, the producer gone) it returns 0 or 1, holds no descriptor or mapping it did not hold before,
  and has given its role in the segment up. A signal does end it, also if no producer ever comes.
\<close>

theorem consumer_main_exits_cleanly:
  fixes H :: "'k host"
  defines "N \<equiv> \<lambda>argv. max 1 (unat (snd (consumer_args argv))) + 1"
  assumes H: "shm_host H view time" and b: "binary_ok b" "unat (sizeof_T b) < 2 ^ 32" and pid: "0 < sint (getpid H)"
    and peer: "producing_peer env (N argv)" and len: "\<And>ob. N argv \<le> length (ring_at ob)"
    and sleep: "\<And>q ob us w. cap q = N argv \<Longrightarrow> cons_ok q (segment_of w ob (ring_at ob)) \<Longrightarrow>
       cons_ok q (segment_of (usleep H us w) ob (ring_at ob))"
  shows "(\<forall>r w'. consumer_main H b room env kill stop now ring_at argv w = Some (r, w') \<longrightarrow>
            (\<exists>code \<le> 1. r = Exit code) \<and> same_resources (view (kern w)) (view (kern w')) \<and>
            (\<forall>q w1 ob. create H b (fst (consumer_args argv)) (snd (consumer_args argv)) Consumer w = (Inr q, w1) \<longrightarrow>
               reaches H q w1 = Some ob \<longrightarrow> consumerPid (objs w' ob) \<noteq> getpid H)) \<and>
         ((\<exists>i. \<forall>j \<ge> i. stop j) \<longrightarrow> (\<exists>res. consumer_main H b room env kill stop now ring_at argv w = Some res))"
proof -
  obtain name cap0 where args: "consumer_args argv = (name, cap0)" by force
  have pid': "getpid H \<noteq> - 1" using pid by auto
  obtain cres w1 where cr: "create H b name cap0 Consumer w = (cres, w1)" by force
  show ?thesis
  proof (cases cres)
    case (Inl e)
    then show ?thesis using create_fails [OF H, of b name cap0 Consumer w e w1] cr
      by (auto simp: consumer_main_def args)
  next
    case (Inr q)
    have len': "max 1 (unat cap0) + 1 \<le> length (ring_at ob)" for ob using len [of ob] by (simp add: N_def args)
    obtain ob where c: "reaches H q w1 = Some ob" "handle_ok (view (kern w1)) q" "bound_m q" "role_m q = Consumer" "cap q = N argv"
      "other_maps (view (kern w1)) q = maps (view (kern w))" "fds (view (kern w1)) = fds (view (kern w))" "cons_ok q (segment_of w1 ob (ring_at ob))"
      by (rule shm_host.created_consumer [OF H b cr [unfolded Inr], of ring_at]) (use len' in \<open>auto simp: N_def args\<close>)
    have sl: "\<forall>us w. cons_ok q (segment_of w ob (ring_at ob)) \<longrightarrow> cons_ok q (segment_of (usleep H us w) ob (ring_at ob))"
      using sleep [OF c(5)] by blast
    note serves = shm_host.consumer_serves [where ring_at = ring_at, OF H c(2,3,4,1) pid' peer [folded c(5)] c(8) sl]
    have main: "consumer_main H b room env kill stop now ring_at argv w =
        (case bytesNeeded b cap0 of Inl x \<Rightarrow> Some (leave H (caught (Throws x)) q w1)
         | Inr _ \<Rightarrow> case consumer_wait H stop 0 q w1 of None \<Rightarrow> None | Some (Inl e, w2) \<Rightarrow> Some (caught e, w2)
             | Some (Inr n, w2) \<Rightarrow> consumer_drain H room env kill stop now ring_at n q w2)"
      using cr Inr by (simp add: consumer_main_def args)
    have lc: "left_cleanly H view Consumer (maps (view (kern w))) (fds (view (kern w))) ob (leave H (Exit 1) q w1)"
      using shm_host.leave_cleanly [OF H c(2,3,1) pid', of "Exit 1"] c(4,6,7) by simp
    have "left_cleanly H view Consumer (maps (view (kern w))) (fds (view (kern w))) ob (r, w')"
      if run: "consumer_main H b room env kill stop now ring_at argv w = Some (r, w')" for r w'
    proof (cases "bytesNeeded b cap0")
      case (Inl x)
      then show ?thesis using run main lc by simp
    next
      case bn: (Inr x)
      then obtain res w2 where "consumer_wait H stop 0 q w1 = Some (res, w2)" using run main by (auto split: option.splits)
      with serves(1) [OF this, of room kill now] run main bn c(6,7) show ?thesis by auto
    qed
    moreover have "\<exists>res. consumer_main H b room env kill stop now ring_at argv w = Some res" if "\<forall>j \<ge> i. stop j" for i
      using serves(2) [OF that, of 0 room kill now] main by (auto split: sum.splits)
    ultimately show ?thesis using cr Inr c(1) by (auto simp: left_cleanly_def same_resources_def args pid_slot_def)
  qed
qed

lemma consumer_args_4: "consumer_args [''demo_consumer'', ''/q'', ''4''] = (''/q'', 4)"
  by (simp add: consumer_args_def strtoull_def is_space_def is_digit_def digits_value_def Let_def)

theorem consumer_main_exits_cleanly_witness:
  "\<exists>code w'. consumer_main ref42 bin48 16 (pushing (\<lambda>_ _. True) 5 (\<lambda>i _. makeMessage (of_nat i) 1)) (\<lambda>_ _. None) (\<lambda>i. 3 \<le> i) (\<lambda>_. 7)
       (\<lambda>_. replicate 5 zero_message) [''demo_consumer'', ''/q'', ''4''] world_init = Some (Exit code, w') \<and>
     code \<le> 1 \<and> same_resources (kv (kern world_init)) (kv (kern w'))"
proof -
  let ?argv = "[''demo_consumer'', ''/q'', ''4'']" and ?env = "pushing (\<lambda>_ _. True) 5 (\<lambda>i _. makeMessage (of_nat i) 1)"
  have N: "max 1 (unat (snd (consumer_args ?argv))) + 1 = 5" by (simp add: consumer_args_4)
  have peer: "producing_peer ?env (max 1 (unat (snd (consumer_args ?argv))) + 1)"
    unfolding N using pushing.producing_peer_axioms [of "\<lambda>_ _. True" 5 "\<lambda>i _. makeMessage (of_nat i) 1"] by simp
  have len: "max 1 (unat (snd (consumer_args ?argv))) + 1 \<le> length (replicate 5 zero_message)" unfolding N by simp
  have pid: "0 < sint (getpid ref42)" by (simp add: ref_host_def)
  have sleep: "cons_ok q (segment_of (usleep ref42 us w) ob xs)" if "cons_ok q (segment_of w ob xs)" for q ob us w and xs :: "message list"
    using that by (simp add: ref_host_def segment_of_def)
  note ends = consumer_main_exits_cleanly [OF refh.shm_host_axioms bin48_ok pid peer len sleep, where stop = "\<lambda>i. 3 \<le> i" and w = world_init
      and room = 16 and kill = "\<lambda>_ _. None" and now = "\<lambda>_. 7"]
  have "\<exists>i. \<forall>j \<ge> i. 3 \<le> (j :: nat)" by blast
  then obtain r w' where run: "consumer_main ref42 bin48 16 ?env (\<lambda>_ _. None) (\<lambda>i. 3 \<le> i) (\<lambda>_. 7) (\<lambda>_. replicate 5 zero_message) ?argv world_init = Some (r, w')"
    using ends by fast
  then show ?thesis using ends by blast
qed

text \<open>
  C32. The demo consumer can miss a producer altogether: \<^verbatim>\<open>waitForPeer\<close> looks for a pid in the producer's
  slot once a millisecond, and a producer that has attached, sent its messages and detached between two looks
  has left \<open>- 1\<close> there. If every look finds no pid, the consumer never gets past its wait, whatever the
  producer has queued, and without a signal the program does not end.
\<close>

theorem consumer_misses_finished_producer:
  fixes H :: "'a host"
  assumes "shm_host H view time" and "consumer_args argv = (name, cap0)" and "cap0 \<noteq> 0"
    and "create H b name cap0 Consumer w = (Inr q, w1)" and "reaches H q w1 = Some ob"
    and "\<And>us v. sint (producerPid (objs (usleep H us v) ob)) \<le> 0" and "\<And>i. \<not> stop i"
  shows "consumer_main H b room env kill stop now ring_at argv w = None"
proof -
  obtain ob' a bytes where c: "bytesNeeded b (clamped cap0) = Inr bytes"
    "seg_m q = \<lparr>addr_m = Some a, size_m = bytes, owner_m = True, name_m = name\<rparr>"
    "ctrl_m q = Some a" "role_m q = Consumer" "bound_m q" "maps (view (kern w1)) = (maps (view (kern w)))(a \<mapsto> (ob', bytes))"
    "objs w1 = (objs w)(ob' := (set_pid_slot Consumer (getpid H) (created_block b (clamped cap0 + 1) bytes))\<lparr>ready := 1\<rparr>)"
    by (rule shm_host.create_ok [OF assms(1,4)]) (auto intro: that)
  have ob: "ob' = ob" using assms(5) c(3,6) shm_host.reaches_iff [OF assms(1), of q w1 ob'] by simp
  have bn: "bytesNeeded b cap0 = Inr bytes" using c(1) assms(3) by (simp add: clamped_def)
  define M where "M = maps (view (kern w1))"
  define I :: "'a world \<Rightarrow> bool" where "I = (\<lambda>v. maps (view (kern v)) = M \<and> sint (producerPid (objs v ob)) \<le> 0)"
  have W: "waiting_keeps H view time I"
    unfolding waiting_keeps_def waiting_keeps_axioms_def I_def
    using assms(1,6) shm_host.now_law [OF assms(1)] shm_host.usleep_own_law [OF assms(1)] by auto
  have h: "handle_ok (view (kern v)) q" "reaches H q v = Some ob" if "I v" for v
    using that c(2,3,5,6) shm_host.reaches_iff [OF assms(1), of q v ob] by (auto simp: I_def M_def handle_ok_def seg_mapped_def ob)
  have "consumer_wait H stop 0 q w1 = None"
    by (rule waiting_keeps.consumer_wait_blind [OF W _ h(1) c(5)])
      (use h(2) assms(7) c(4,7) in \<open>auto simp: I_def M_def peer_slot_def created_block_def set_pid_slot_def ob\<close>)
  then show ?thesis using assms(2,4) bn by (simp add: consumer_main_def)
qed

text \<open>While the consumer sleeps, a producer attaches, sends one message and detaches.\<close>

definition brief_host :: "kst host" where
  "brief_host = ref42\<lparr>usleep := \<lambda>us w. (usleep ref42 us w)\<lparr>objs := \<lambda>ob. (objs w ob)\<lparr>producerPid := - 1, writeIdx := 1\<rparr>\<rparr>\<rparr>"

lemma brief_host_fields:
  "posix_of brief_host = posix_of ref42" "steady_now brief_host = steady_now ref42" "kill0 brief_host = kill0 ref42"
  "getpid brief_host = getpid ref42" "spurious brief_host = spurious ref42"
  "kern (usleep brief_host us w) = kern (usleep ref42 us w)"
  by (simp_all add: brief_host_def)

interpretation brief: shm_host brief_host kv fresh
  using refh.shm_host_axioms [of "\<lambda>_. None" 42] unfolding shm_host_def shm_host_axioms_def brief_host_fields .

text \<open>Only \<^verbatim>\<open>usleep\<close> differs, so \<^verbatim>\<open>create\<close> is the same.\<close>

lemma brief_create: "reaches brief_host q w = reaches ref42 q w" "create brief_host b name cap0 role v = create ref42 b name cap0 role v"
proof -
  have r: "reaches brief_host q w = reaches ref42 q w" for q w unfolding reaches_def brief_host_fields ..
  have d: "deref brief_host q w = deref ref42 q w" for q w unfolding deref_def r ..
  have t: "detach brief_host q w = detach ref42 q w" for q w unfolding detach_def d brief_host_fields ..
  have u: "unwind brief_host e q w = unwind ref42 e q w" for e q w unfolding unwind_def t ..
  have b: "bind brief_host role q w = bind ref42 role q w" for role q w unfolding bind_def d brief_host_fields ..
  show "reaches brief_host q w = reaches ref42 q w" by (rule r)
  show "create brief_host b name cap0 role v = create ref42 b name cap0 role v" unfolding create_def d u b brief_host_fields ..
qed

theorem consumer_misses_finished_producer_witness:
  "consumer_main brief_host bin48 16 (\<lambda>_ _ m. m) (\<lambda>_ _. None) (\<lambda>_. False) (\<lambda>_. 7) (\<lambda>_. replicate 5 zero_message)
     [''demo_consumer'', ''/q'', ''4''] world_init = None \<and>
   (\<forall>us w ob. writeIdx (objs (usleep brief_host us w) ob) \<noteq> 0)"
proof -
  obtain q w1 ob where s: "create brief_host bin48 ''/q'' 4 Consumer world_init = (Inr q, w1)" "reaches brief_host q w1 = Some ob"
    using sample_session unfolding brief_create by metis
  show ?thesis
    using consumer_misses_finished_producer [OF brief.shm_host_axioms consumer_args_4 _ s, of "\<lambda>_. False"]
    by (simp add: brief_host_def)
qed

subsection \<open>The producer's way out\<close>

text \<open>On a full queue with a consumer that is alive but takes nothing, \<^verbatim>\<open>push\<close> spins for ever.\<close>

lemma push_stuck:
  assumes "\<And>i j. env i j m = m" and alive: "\<And>i. peer_alive (kill i) Producer m"
    and ok: "prod_ok q m" "role_m q = Producer" "length (contents q m) = cap q - 1"
  shows "push env kill c v q m = None"
proof (rule ccontr)
  assume "push env kill c v q m \<noteq> None"
  then obtain res where run: "push_loop env kill c v 0 0 q m = Some res" by (auto simp: push_def)
  let ?stuck = "\<lambda>env' kill' q m'. env' = env \<and> kill' = kill \<and> m' = m \<and> prod_ok q m \<and> role_m q = Producer \<and> length (contents q m) = cap q - 1"
  have "\<not> ?stuck env kill q m"
  proof (rule push_loop.raw_induct [where P = "\<lambda>env' kill' c v spins i q m' res. \<not> ?stuck env' kill' q m'", OF _ run], rule notI)
    fix loop env' kill' c v spins i q m' res
    assume IH: "\<And>env' kill' c v spins i q m' res. loop env' kill' c v spins i q m' = Some res \<Longrightarrow> \<not> ?stuck env' kill' q m'"
      and body: "(case push_turn env' kill' c v spins i q m' of Inl res \<Rightarrow> Some res
        | Inr (spins1, q1, m1) \<Rightarrow> loop env' kill' c v spins1 (Suc i) q1 m1) = Some res"
      and st: "?stuck env' kill' q m'"
    define q1 where "q1 = q\<lparr>readIdxCache_m := readIdx (block m)\<rparr>"
    have t: "try_push v q m = Inr (False, q1, m)"
      unfolding q1_def by (rule try_push_cases [of q m v]) (use st in auto)
    have q1: "prod_ok q1 m" "role_m q1 = Producer" "length (contents q1 m) = cap q1 - 1"
      using st by (simp_all add: q1_def prod_ok_def ring_ok_def contents_def)
    have "\<exists>spins1. push_turn env' kill' c v spins i q m' = Inr (spins1, q1, m)"
      using st t q1(2) alive assms(1) by (auto simp: push_turn_def Let_def)
    then obtain spins1 where "loop env' kill' c v spins1 (Suc i) q1 m = Some res" using body by auto
    from IH [OF this] show False using st q1 by simp
  qed
  then show False using ok by simp
qed

text \<open>
  C31. The demo producer, from its command line to its exit code: \<^verbatim>\<open>attach\<close> always returns; if it throws, the
  program exits with 1 and holds what it held before. Otherwise, on a healthy queue with a lawful consumer,
  it never faults, exits with 0, has released its mapping and given its role up; and it does end if the
  consumer keeps making room.
\<close>

theorem producer_main_exits_cleanly:
  assumes H: "shm_host H view time" and args: "producer_args argv = (total_n, name)" and pid: "0 < sint (getpid H)"
    and ring: "\<And>q w1 ob. attach H b name Producer 10000 w = Some (Inr q, w1) \<Longrightarrow> reaches H q w1 = Some ob \<Longrightarrow>
       prod_ok q (segment_of w1 ob (ring_at ob)) \<and> (\<forall>i. consuming_peer (envs i) (cap q))"
  shows "case attach H b name Producer 10000 w of
           Some (Inl e, w1) \<Rightarrow> producer_main H b envs kills stop now ring_at argv w = Some (Exit 1, w1) \<and>
             same_resources (view (kern w)) (view (kern w1))
         | Some (Inr q, w1) \<Rightarrow> \<exists>ob. reaches H q w1 = Some ob \<and>
             (\<forall>r w'. producer_main H b envs kills stop now ring_at argv w = Some (r, w') \<longrightarrow>
                r = Exit 0 \<and> same_resources (view (kern w)) (view (kern w')) \<and> producerPid (objs w' ob) \<noteq> getpid H) \<and>
             ((\<forall>i. \<exists>N. makes_room (envs i) (cap q) N) \<longrightarrow>
                (\<exists>r. producer_main H b envs kills stop now ring_at argv w = Some r))
         | None \<Rightarrow> False"
proof -
  obtain res w1 w0 where at: "attach H b name Producer 10000 w = Some (res, w1)" "fds (view (kern w0)) = fds (view (kern w))"
      "refused view (maps (view (kern w))) w0 (res, w1) \<or> attached H view (maps (view (kern w))) b name Producer w0 (res, w1)"
    using attach_ends [OF H, of b name Producer 10000 w] by (metis prod.exhaust)
  have pid': "getpid H \<noteq> - 1" using pid by auto
  show ?thesis
  proof (cases res)
    case (Inl e)
    then have "\<exists>x. e = Throws x" "same_resources (view (kern w)) (view (kern w1))"
      using at(2,3) by (auto simp: refused_def attached_def same_resources_def)
    then show ?thesis using at(1) Inl by (auto simp: producer_main_def args)
  next
    case (Inr q)
    then obtain ob where q: "reaches H q w1 = Some ob" "handle_ok (view (kern w1)) q" "bound_m q" "role_m q = Producer"
        "other_maps (view (kern w1)) q = maps (view (kern w))" "fds (view (kern w1)) = fds (view (kern w))"
      using at(2,3) by (auto simp: refused_def attached_def)
    note r = ring [OF at(1) [unfolded Inr] q(1)]
    define loop where "loop = producer_loop envs kills stop now total_n 0 q (segment_of w1 ob (ring_at ob))"
    have main: "producer_main H b envs kills stop now ring_at argv w =
        (case loop of None \<Rightarrow> None | Some (Inl f) \<Rightarrow> Some (Crash f, w1)
         | Some (Inr (sent, q1, m1)) \<Rightarrow> Some (leave H (Exit 0) q1 (store ob (block m1) w1)))"
      using at(1) Inr q(1) by (simp add: producer_main_def args deref_def loop_def segment_of_def)
    have "rr = Exit 0 \<and> same_resources (view (kern w)) (view (kern w')) \<and> producerPid (objs w' ob) \<noteq> getpid H"
      if run: "producer_main H b envs kills stop now ring_at argv w = Some (rr, w')" for rr w'
    proof -
      obtain lr where l: "loop = Some lr" using run main by (cases loop) auto
      then obtain s' q1 m1 where lr: "lr = Inr (s', q1, m1)"
        using producer_loop_correct [of envs "cap q" kills stop now total_n 0 q "segment_of w1 ob (ring_at ob)" lr] r q(4) word_zero_le [of total_n]
        unfolding loop_def by blast
      have same: "same_handle q q1" using l unfolding lr loop_def by (rule producer_loop_handle)
      have "handle_ok (view (kern (store ob (block m1) w1))) q1" "bound_m q1" "reaches H q1 (store ob (block m1) w1) = Some ob"
        using same q same_handle_ok(1) [OF same] same_handle_reaches [OF same, of "store ob (block m1) w1" w1 H]
        by (simp_all add: same_handle_def)
      from shm_host.leave_cleanly [OF H this pid', of "Exit 0"] same q(4-6) same_handle_ok(2) [OF same]
      have c: "left_cleanly H view Producer (maps (view (kern w))) (fds (view (kern w))) ob (leave H (Exit 0) q1 (store ob (block m1) w1))"
        by (simp add: same_handle_def)
      obtain q2 w2 where "detach H q1 (store ob (block m1) w1) = (Inr q2, w2)"
        using shm_host.detach_ok [OF H \<open>handle_ok (view (kern (store ob (block m1) w1))) q1\<close>] by blast
      then show ?thesis using c run main l lr by (auto simp: left_cleanly_def same_resources_def leave_def pid_slot_def)
    qed
    moreover have "\<exists>rr. producer_main H b envs kills stop now ring_at argv w = Some rr" if room: "\<forall>i. \<exists>N. makes_room (envs i) (cap q) N"
    proof -
      obtain lr where "loop = Some lr"
        unfolding loop_def using producer_loop_returns [of envs "cap q" q _ kills stop now total_n 0] room r q(4) by metis
      then show ?thesis using main by (cases lr) auto
    qed
    ultimately show ?thesis using at(1) Inr q(1) by auto
  qed
qed

text \<open>The consumer has created its queue; the producer runs against a consumer that pops before every attempt.\<close>

lemma producer_args_3: "producer_args [''demo_producer'', ''3'', ''/q''] = (3, ''/q'')"
  by (simp add: producer_args_def strtoull_def is_space_def is_digit_def digits_value_def Let_def)

theorem producer_main_exits_cleanly_witness:
  "\<exists>q w1 r w'. create ref42 bin48 ''/q'' 4 Consumer world_init = (Inr q, w1) \<and>
     producer_main (ref_host (\<lambda>_. None) 43) bin48 (\<lambda>_. popping (\<lambda>_ _. True) 5 zero_message) (\<lambda>_ _ _. None) (\<lambda>_. False) (\<lambda>_. 5)
       (\<lambda>_. replicate 5 zero_message) [''demo_producer'', ''3'', ''/q''] w1 = Some (Exit 0, w') \<and>
     same_resources (kv (kern w1)) (kv (kern w'))"
proof -
  let ?G = "ref_host (\<lambda>_. None) 43" and ?env = "popping (\<lambda>_ _. True) 5 zero_message" and ?xs = "replicate 5 zero_message"
  obtain q w1 ob where s: "create ref42 bin48 ''/q'' 4 Consumer world_init = (Inr q, w1)" "reaches ref42 q w1 = Some ob"
    "other_sees ?G kv ''/q'' ob (size_m (seg_m q)) w1" "cap q = 5" by (rule sample_session)
  obtain p w2 where at: "attach ?G bin48 ''/q'' Producer 10000 w1 = Some (Inr p, w2)" "reaches ?G p w2 = Some ob"
      "prod_ok p (segment_of w2 ob ?xs)" "cap p = 5"
    by (rule created_and_attached [OF refh.shm_host_axioms refh.shm_host_axioms bin48_ok s(1-3), of Producer ?xs 10000])
      (use s(4) in auto)
  have peer: "consuming_peer ?env 5" "\<exists>N. makes_room ?env 5 N"
    using popping.consuming_peer_axioms [of "\<lambda>_ _. True" 5 zero_message] popping_makes_room [of "\<lambda>_ _. True" 0 5 zero_message] by auto
  have pid: "0 < sint (getpid ?G)" by (simp add: ref_host_def)
  have ring: "prod_ok p' (segment_of w' ob' ?xs) \<and> (\<forall>i :: nat. consuming_peer ?env (cap p'))"
    if "attach ?G bin48 ''/q'' Producer 10000 w1 = Some (Inr p', w')" "reaches ?G p' w' = Some ob'" for p' w' ob'
    using that at peer by simp
  note main = producer_main_exits_cleanly [OF refh.shm_host_axioms producer_args_3 pid, where ring_at = "\<lambda>_. ?xs" and envs = "\<lambda>_. ?env",
      OF ring, where kills = "\<lambda>_ _ _. None" and stop = "\<lambda>_. False" and now = "\<lambda>_. 5"]
  show ?thesis using main at(1,4) peer s(1) by fastforce
qed

text \<open>
  C33. The demo producer does not look at \<^verbatim>\<open>g_stop\<close> while it is blocked: if the queue is full and the consumer
  alive but not taking anything (suspended, say), \<^verbatim>\<open>push\<close> never returns, so a signal that arrives then is
  never acted upon, whatever the flag reads later; since the program has replaced the default action
  of \<^verbatim>\<open>SIGINT\<close> and \<^verbatim>\<open>SIGTERM\<close>, it cannot be interrupted.
\<close>

theorem blocked_producer_ignores_signals:
  assumes "prod_ok q m" and "role_m q = Producer" and "length (contents q m) = cap q - 1"
    and "\<And>i j. envs (unat sent) i j m = m" and "\<And>i. peer_alive (kills (unat sent) i) Producer m"
    and "sent < total_n" and "\<not> stop (unat sent)"
  shows "producer_loop envs kills stop now total_n sent q m = None"
  by (rule producer_loop_stuck, rule assms, rule assms, rule push_stuck) (use assms in simp_all)

definition full_sample :: "queue \<times> message shm" where
  "full_sample = (fst msg_sample, (snd msg_sample)\<lparr>block := (block (snd msg_sample))\<lparr>writeIdx := 3, consumerPid := 9\<rparr>\<rparr>)"

theorem blocked_producer_ignores_signals_witness:
  "producer_loop (\<lambda>_ _ _ m. m) (\<lambda>_ _ _. None) (\<lambda>i. 0 < i) (\<lambda>_. 5) 100 0 (fst full_sample) (snd full_sample) = None"
  by (rule blocked_producer_ignores_signals)
    (simp_all add: full_sample_def msg_sample_def prod_ok_def ring_ok_def contents_def ring_def used_def ShmSpscQueue_def
      peer_alive_def peer_slot_def processAlive_def)

end
