(* ===== verification/Latency.thy ===== *)
theory Latency
  imports Throughput Stats
begin

section \<open>The latency benchmark\<close>

text \<open>
  \<^verbatim>\<open>main\<close> of \<^verbatim>\<open>src/bench_latency.cpp\<close> from the fork on: the parent sends a message on one queue and
  waits for it on the other, the child echoes it with its arrival time stamped in. A turn is one
  operation on a queue or one reading of the clock with the bookkeeping that follows; the clock
  shows \<open>clk n\<close> when \<open>n\<close> turns have been taken, in both processes, and may stand still. Afterwards the
  samples go to \<^verbatim>\<open>printLatency\<close>.
\<close>

datatype ping_pc =
    PStart u64 \<comment> \<open>loop test of line 69 with \<^verbatim>\<open>i\<close>\<close>
  | PPush u64 u64 \<comment> \<open>line 72; \<^verbatim>\<open>i\<close> and \<^verbatim>\<open>t0\<close>\<close>
  | PPop u64 u64 \<comment> \<open>line 74\<close>
  | PStamp u64 u64 \<comment> \<open>line 76\<close>
  | PDone

datatype echo_pc =
    EStart u64 \<comment> \<open>loop test of line 46\<close>
  | EPop u64 \<comment> \<open>line 47\<close>
  | EStamp u64 \<comment> \<open>line 49\<close>
  | EPush u64 \<comment> \<open>line 50\<close>
  | EDone

record pingpong =
  ping :: "message chan"
  pong :: "message chan"
  main_pc :: ping_pc
  echo_pc :: echo_pc
  reply :: message
  echo_m :: message \<comment> \<open>\<^verbatim>\<open>m\<close> of the echo side\<close>
  rtt :: "u64 list"
  oneWay :: "u64 list"
  tick :: nat

definition warmup :: "u64 \<Rightarrow> u64" where
  "warmup iters = iters div 10 + 1"

text \<open>Lines 69--85.\<close>

definition ping_turn :: "bool \<Rightarrow> (nat \<Rightarrow> u64) \<Rightarrow> u64 \<Rightarrow> pingpong \<Rightarrow> fault + pingpong" where
  "ping_turn ndebug clk iters s =
     (case main_pc s of
        PStart i \<Rightarrow> Inr (s\<lparr>main_pc := if i < iters + warmup iters then PPush i (clk (tick s)) else PDone\<rparr>)
      | PPush i t0 \<Rightarrow>
          bindE (chan_push (makeMessage i t0) (ping s)) (\<lambda>(ok, c).
            Inr (s\<lparr>ping := c, main_pc := if ok then PPop i t0 else PPush i t0\<rparr>))
      | PPop i t0 \<Rightarrow>
          bindE (chan_pop ndebug (reply s) (pong s)) (\<lambda>(ok, x, c).
            Inr (s\<lparr>pong := c, reply := x, main_pc := if ok then PStamp i t0 else PPop i t0\<rparr>))
      | PStamp i t0 \<Rightarrow>
          (let t1 = clk (tick s);
               s1 = (if i \<ge> warmup iters
                     then s\<lparr>rtt := rtt s @ [t1 - t0],
                            oneWay := oneWay s @ [if sentNs (reply s) > t0 then sentNs (reply s) - t0 else 0]\<rparr>
                     else s)
           in Inr (s1\<lparr>main_pc := PStart (i + 1)\<rparr>))
      | PDone \<Rightarrow> Inr s)"

text \<open>Lines 46--52.\<close>

definition echo_turn :: "bool \<Rightarrow> (nat \<Rightarrow> u64) \<Rightarrow> u64 \<Rightarrow> pingpong \<Rightarrow> fault + pingpong" where
  "echo_turn ndebug clk iters s =
     (case echo_pc s of
        EStart i \<Rightarrow> Inr (s\<lparr>echo_pc := if i < iters + warmup iters then EPop i else EDone\<rparr>)
      | EPop i \<Rightarrow>
          bindE (chan_pop ndebug (echo_m s) (ping s)) (\<lambda>(ok, x, c).
            Inr (s\<lparr>ping := c, echo_m := x, echo_pc := if ok then EStamp i else EPop i\<rparr>))
      | EStamp i \<Rightarrow> Inr (s\<lparr>echo_m := (echo_m s)\<lparr>sentNs := clk (tick s)\<rparr>, echo_pc := EPush i\<rparr>)
      | EPush i \<Rightarrow>
          bindE (chan_push (echo_m s) (pong s)) (\<lambda>(ok, c).
            Inr (s\<lparr>pong := c, echo_pc := if ok then EStart (i + 1) else EPush i\<rparr>))
      | EDone \<Rightarrow> Inr s)"

definition pingpong_turn :: "bool \<Rightarrow> (nat \<Rightarrow> u64) \<Rightarrow> u64 \<Rightarrow> bool \<Rightarrow> pingpong \<Rightarrow> fault + pingpong" where
  "pingpong_turn ndebug clk iters parent s =
     bindE (if parent then ping_turn ndebug clk iters s else echo_turn ndebug clk iters s)
       (\<lambda>s'. Inr (s'\<lparr>tick := Suc (tick s)\<rparr>))"

definition pingpong_init :: "message chan \<Rightarrow> message chan \<Rightarrow> pingpong" where
  "pingpong_init c d =
     \<lparr>ping = c, pong = d, main_pc = PStart 0, echo_pc = EStart 0, reply = zero_message, echo_m = zero_message,
      rtt = [], oneWay = [], tick = 0\<rparr>"

text \<open>Lines 89--90: what the program prints of the samples.\<close>

definition latency_report :: "pingpong \<Rightarrow> (fault + u64 \<times> u64 \<times> u64 \<times> u64) \<times> (fault + u64 \<times> u64 \<times> u64 \<times> u64)" where
  "latency_report s = (printLatency (rtt s), printLatency (oneWay s))"

subsection \<open>Lockstep\<close>

text \<open>
  Where the echo side can be while nothing is under way and the parent has completed \<open>i\<close> of \<open>n\<close> rounds,
  and the message of round \<open>i\<close> with its arrival time.
\<close>

definition waiting :: "u64 \<Rightarrow> u64 \<Rightarrow> echo_pc \<Rightarrow> bool" where
  "waiting n i e \<longleftrightarrow> e = EStart i \<or> (e = EPop i \<and> i < n) \<or> (e = EDone \<and> i = n)"

definition echoed :: "u64 \<Rightarrow> u64 \<Rightarrow> u64 \<Rightarrow> message \<Rightarrow> bool" where
  "echoed i t0 now m \<longleftrightarrow> (\<exists>t. m = (makeMessage i t0)\<lparr>sentNs := t\<rparr> \<and> t0 \<le> t \<and> t \<le> now)"

fun in_step :: "u64 \<Rightarrow> u64 \<Rightarrow> message list \<Rightarrow> message list \<Rightarrow> message \<Rightarrow> message \<Rightarrow> ping_pc \<Rightarrow> echo_pc \<Rightarrow> bool" where
  "in_step n now xs ys rep em (PStart i) e = (i \<le> n \<and> xs = [] \<and> ys = [] \<and> waiting n i e)"
| "in_step n now xs ys rep em (PPush i t0) e = (i < n \<and> t0 \<le> now \<and> xs = [] \<and> ys = [] \<and> waiting n i e)"
| "in_step n now xs ys rep em (PPop i t0) e =
     (i < n \<and> t0 \<le> now \<and>
      (xs = [makeMessage i t0] \<and> ys = [] \<and> waiting n i e \<or>
       xs = [] \<and> ys = [] \<and> e = EStamp i \<and> em = makeMessage i t0 \<or>
       xs = [] \<and> ys = [] \<and> e = EPush i \<and> echoed i t0 now em \<or>
       xs = [] \<and> waiting n (i + 1) e \<and> (\<exists>m. ys = [m] \<and> echoed i t0 now m)))"
| "in_step n now xs ys rep em (PStamp i t0) e =
     (i < n \<and> xs = [] \<and> ys = [] \<and> waiting n (i + 1) e \<and> echoed i t0 now rep)"
| "in_step n now xs ys rep em PDone e = (xs = [] \<and> ys = [] \<and> waiting n n e)"

text \<open>Rounds completed, and how far each side is.\<close>

fun rounds :: "u64 \<Rightarrow> ping_pc \<Rightarrow> nat" where
  "rounds n (PStart i) = unat i"
| "rounds n (PPush i t0) = unat i"
| "rounds n (PPop i t0) = unat i"
| "rounds n (PStamp i t0) = unat i"
| "rounds n PDone = unat n"

fun ping_rank :: "u64 \<Rightarrow> ping_pc \<Rightarrow> nat" where
  "ping_rank n (PStart i) = 4 * unat i"
| "ping_rank n (PPush i t0) = 4 * unat i + 1"
| "ping_rank n (PPop i t0) = 4 * unat i + 2"
| "ping_rank n (PStamp i t0) = 4 * unat i + 3"
| "ping_rank n PDone = 4 * unat n + 1"

fun echo_rank :: "u64 \<Rightarrow> echo_pc \<Rightarrow> nat" where
  "echo_rank n (EStart i) = 4 * unat i"
| "echo_rank n (EPop i) = 4 * unat i + 1"
| "echo_rank n (EStamp i) = 4 * unat i + 2"
| "echo_rank n (EPush i) = 4 * unat i + 3"
| "echo_rank n EDone = 4 * unat n + 1"

definition pingpong_inv :: "(nat \<Rightarrow> u64) \<Rightarrow> u64 \<Rightarrow> pingpong \<Rightarrow> bool" where
  "pingpong_inv clk iters s \<longleftrightarrow>
     (let n = iters + warmup iters in
      mono clk \<and> chan_ok (ping s) \<and> chan_ok (pong s) \<and>
      in_step n (clk (tick s)) (chan_items (ping s)) (chan_items (pong s)) (reply s) (echo_m s) (main_pc s) (echo_pc s) \<and>
      length (rtt s) = rounds n (main_pc s) - unat (warmup iters) \<and> list_all2 (\<le>) (oneWay s) (rtt s))"

definition pingpong_final :: "pingpong \<Rightarrow> bool" where
  "pingpong_final s \<longleftrightarrow> main_pc s = PDone \<and> echo_pc s = EDone"

definition pingpong_left :: "u64 \<Rightarrow> pingpong \<Rightarrow> nat" where
  "pingpong_left iters s =
     (let n = iters + warmup iters in 8 * unat n + 2 - (ping_rank n (main_pc s) + echo_rank n (echo_pc s)))"

subsection \<open>Turns\<close>

lemma in_step_mono: "now \<le> now' \<Longrightarrow> in_step n now xs ys rep em p e \<Longrightarrow> in_step n now' xs ys rep em p e"
  by (cases p) (auto simp: echoed_def intro: order_trans)

lemma chan_room: "chan_ok c \<Longrightarrow> 0 < chan_bound c"
  by (auto simp: chan_ok_def chan_bound_def cons_ok_def ring_ok_def)

lemma chan_push_empty:
  assumes "chan_ok c" "chan_items c = []"
  obtains c' where "chan_push v c = Inr (True, c')" "chan_ok c'" "chan_items c' = [v]"
  using chan.push_law [OF assms(1), of v] chan_room [OF assms(1)] assms(2) by auto

lemma chan_pop_one:
  assumes "chan_ok c"
  obtains (none) c' where "chan_items c = []" "chan_pop ndebug x c = Inr (False, x, c')" "chan_ok c'" "chan_items c' = []"
  | (some) c' y ys where "chan_items c = y # ys" "chan_pop ndebug x c = Inr (True, y, c')" "chan_ok c'" "chan_items c' = ys"
  using chan.pop_law [OF assms, of ndebug x] by (cases "chan_items c") auto

lemma word_diff_mono:
  assumes "(t0 :: u64) \<le> t" "t \<le> u"
  shows "t - t0 \<le> u - t0"
  using assms by (simp add: word_le_nat_alt unat_sub)

definition ping_ready :: "pingpong \<Rightarrow> bool" where
  "ping_ready s \<longleftrightarrow> (case main_pc s of PDone \<Rightarrow> False | PPop i t0 \<Rightarrow> chan_items (pong s) \<noteq> [] | _ \<Rightarrow> True)"

definition echo_ready :: "pingpong \<Rightarrow> bool" where
  "echo_ready s \<longleftrightarrow> (case echo_pc s of EDone \<Rightarrow> False | EPop i \<Rightarrow> chan_items (ping s) \<noteq> [] | _ \<Rightarrow> True)"

text \<open>What a turn of either side does: one step forward if it is ready, nothing otherwise.\<close>

definition ping_did :: "(nat \<Rightarrow> u64) \<Rightarrow> u64 \<Rightarrow> pingpong \<Rightarrow> fault + pingpong \<Rightarrow> bool" where
  "ping_did clk iters s r \<longleftrightarrow> (\<exists>s'. r = Inr s' \<and> pingpong_inv clk iters s' \<and> tick s' = tick s \<and> echo_pc s' = echo_pc s \<and>
     (let n = iters + warmup iters in ping_rank n (main_pc s') = ping_rank n (main_pc s) + (if ping_ready s then 1 else 0)) \<and>
     (\<not> ping_ready s \<longrightarrow> chan_items (ping s') = chan_items (ping s)))"

definition echo_did :: "(nat \<Rightarrow> u64) \<Rightarrow> u64 \<Rightarrow> pingpong \<Rightarrow> fault + pingpong \<Rightarrow> bool" where
  "echo_did clk iters s r \<longleftrightarrow> (\<exists>s'. r = Inr s' \<and> pingpong_inv clk iters s' \<and> tick s' = tick s \<and> main_pc s' = main_pc s \<and>
     (let n = iters + warmup iters in echo_rank n (echo_pc s') = echo_rank n (echo_pc s) + (if echo_ready s then 1 else 0)) \<and>
     (\<not> echo_ready s \<longrightarrow> chan_items (pong s') = chan_items (pong s)))"

lemma ping_turn_start:
  assumes "pingpong_inv clk iters s" "main_pc s = PStart i"
  shows "ping_did clk iters s (ping_turn ndebug clk iters s)"
proof (cases "i < iters + warmup iters")
  case True
  then show ?thesis using assms
    by (auto simp: ping_did_def ping_turn_def pingpong_inv_def ping_ready_def Let_def)
next
  case False
  moreover have "i \<le> iters + warmup iters" using assms by (simp add: pingpong_inv_def Let_def)
  ultimately have "i = iters + warmup iters" by simp
  then show ?thesis using assms
    by (auto simp: ping_did_def ping_turn_def pingpong_inv_def ping_ready_def Let_def)
qed

lemma ping_turn_push:
  assumes inv: "pingpong_inv clk iters s" and pc: "main_pc s = PPush i t0"
  shows "ping_did clk iters s (ping_turn ndebug clk iters s)"
proof -
  have "chan_ok (ping s)" "chan_items (ping s) = []" using inv pc by (simp_all add: pingpong_inv_def Let_def)
  then obtain c' where "chan_push (makeMessage i t0) (ping s) = Inr (True, c')" "chan_ok c'" "chan_items c' = [makeMessage i t0]"
    by (rule chan_push_empty)
  then show ?thesis using inv pc
    by (auto simp: ping_did_def ping_turn_def pingpong_inv_def ping_ready_def Let_def)
qed

lemma ping_turn_pop:
  assumes inv: "pingpong_inv clk iters s" and pc: "main_pc s = PPop i t0"
  shows "ping_did clk iters s (ping_turn ndebug clk iters s)"
proof -
  have ok: "chan_ok (pong s)" using inv by (simp add: pingpong_inv_def Let_def)
  show ?thesis
  proof (rule chan_pop_one [OF ok, of ndebug "reply s"])
    fix c' assume "chan_items (pong s) = []" "chan_pop ndebug (reply s) (pong s) = Inr (False, reply s, c')" "chan_ok c'" "chan_items c' = []"
    then show ?thesis using inv pc
      by (auto simp: ping_did_def ping_turn_def pingpong_inv_def ping_ready_def Let_def)
  next
    fix c' y ys assume "chan_items (pong s) = y # ys" "chan_pop ndebug (reply s) (pong s) = Inr (True, y, c')" "chan_ok c'" "chan_items c' = ys"
    then show ?thesis using inv pc
      by (auto simp: ping_did_def ping_turn_def pingpong_inv_def ping_ready_def Let_def)
  qed
qed

lemma ping_turn_stamp:
  assumes inv: "pingpong_inv clk iters s" and pc: "main_pc s = PStamp i t0"
  shows "ping_did clk iters s (ping_turn ndebug clk iters s)"
proof -
  define n where "n = iters + warmup iters"
  note I = inv [unfolded pingpong_inv_def Let_def, folded n_def]
  have i: "i < n" and e: "echoed i t0 (clk (tick s)) (reply s)" using I pc by simp_all
  have u: "unat (i + 1) = unat i + 1" using unat_succ_less [OF i] .
  then have le: "i + 1 \<le> n" using i by (simp add: word_le_nat_alt word_less_nat_alt)
  obtain t where t: "sentNs (reply s) = t" "t0 \<le> t" "t \<le> clk (tick s)" using e by (auto simp: echoed_def)
  have d: "(if t0 < t then t - t0 else 0) \<le> clk (tick s) - t0" using word_diff_mono [OF t(2,3)] by simp
  have l: "length (rtt s) = unat i - unat (warmup iters)" using I pc by simp
  have ge: "warmup iters \<le> i \<longleftrightarrow> unat (warmup iters) \<le> unat i" by (rule word_le_nat_alt)
  have w: "waiting n (i + 1) (echo_pc s)" "chan_items (ping s) = []" "chan_items (pong s) = []" "mono clk"
    "chan_ok (ping s)" "chan_ok (pong s)" "list_all2 (\<le>) (oneWay s) (rtt s)" using I pc by simp_all
  have "ping_turn ndebug clk iters s = Inr ((if warmup iters \<le> i
      then s\<lparr>rtt := rtt s @ [clk (tick s) - t0], oneWay := oneWay s @ [if t0 < t then t - t0 else 0]\<rparr> else s)\<lparr>main_pc := PStart (i + 1)\<rparr>)"
    using pc t(1) by (simp add: ping_turn_def Let_def)
  moreover have "pingpong_inv clk iters ((if warmup iters \<le> i
      then s\<lparr>rtt := rtt s @ [clk (tick s) - t0], oneWay := oneWay s @ [if t0 < t then t - t0 else 0]\<rparr> else s)\<lparr>main_pc := PStart (i + 1)\<rparr>)"
    unfolding pingpong_inv_def Let_def n_def [symmetric] using w le l u d ge by (auto intro!: list_all2_appendI)
  ultimately show ?thesis using pc u by (auto simp: ping_did_def ping_ready_def Let_def)
qed

lemma ping_turn_law: "pingpong_inv clk iters s \<Longrightarrow> ping_did clk iters s (ping_turn ndebug clk iters s)"
proof (cases "main_pc s")
  case PDone
  assume "pingpong_inv clk iters s"
  then show ?thesis using PDone by (simp add: ping_did_def ping_turn_def ping_ready_def)
qed (simp_all add: ping_turn_start ping_turn_push ping_turn_pop ping_turn_stamp)

lemma succ_le: "i < (n :: u64) \<Longrightarrow> i + 1 \<le> n"
  using unat_succ_less [of i n] by (simp add: word_le_nat_alt word_less_nat_alt)

lemma waiting_simps [simp]:
  "waiting n i (EStart j) \<longleftrightarrow> j = i" "waiting n i (EPop j) \<longleftrightarrow> j = i \<and> i < n" "waiting n i EDone \<longleftrightarrow> i = n"
  "\<not> waiting n i (EStamp j)" "\<not> waiting n i (EPush j)"
  by (auto simp: waiting_def)

lemma echo_turn_start:
  assumes inv: "pingpong_inv clk iters s" and pc: "echo_pc s = EStart j"
  shows "echo_did clk iters s (echo_turn ndebug clk iters s)"
proof -
  define n where "n = iters + warmup iters"
  define e where "e = (if j < n then EPop j else EDone)"
  note I = inv [unfolded pingpong_inv_def Let_def, folded n_def]
  have st: "in_step n (clk (tick s)) (chan_items (ping s)) (chan_items (pong s)) (reply s) (echo_m s) (main_pc s) (EStart j)"
    using I pc by simp
  then have jn: "j \<le> n" by (cases "main_pc s") (auto intro: succ_le)
  have "in_step n (clk (tick s)) (chan_items (ping s)) (chan_items (pong s)) (reply s) (echo_m s) (main_pc s) e"
    using st by (cases "main_pc s") (auto simp: e_def dest: succ_le)
  moreover have "echo_rank n e = Suc (4 * unat j)" using jn by (auto simp: e_def not_less)
  ultimately show ?thesis using I pc
    by (simp add: echo_did_def echo_turn_def pingpong_inv_def echo_ready_def Let_def e_def flip: n_def)
qed

lemma echo_turn_pop:
  assumes inv: "pingpong_inv clk iters s" and pc: "echo_pc s = EPop j"
  shows "echo_did clk iters s (echo_turn ndebug clk iters s)"
proof -
  define n where "n = iters + warmup iters"
  note I = inv [unfolded pingpong_inv_def Let_def, folded n_def]
  have ok: "chan_ok (ping s)" and st: "in_step n (clk (tick s)) (chan_items (ping s)) (chan_items (pong s)) (reply s) (echo_m s) (main_pc s) (EPop j)"
    using I pc by simp_all
  show ?thesis
  proof (rule chan_pop_one [OF ok, of ndebug "echo_m s"])
    fix c' assume "chan_items (ping s) = []" "chan_pop ndebug (echo_m s) (ping s) = Inr (False, echo_m s, c')" "chan_ok c'" "chan_items c' = []"
    then show ?thesis using I pc
      by (simp add: echo_did_def echo_turn_def pingpong_inv_def echo_ready_def Let_def flip: n_def)
  next
    fix c' y ys assume c: "chan_items (ping s) = y # ys" "chan_pop ndebug (echo_m s) (ping s) = Inr (True, y, c')" "chan_ok c'" "chan_items c' = ys"
    have "in_step n (clk (tick s)) ys (chan_items (pong s)) (reply s) y (main_pc s) (EStamp j)"
      using st c(1) by (cases "main_pc s") auto
    then show ?thesis using I pc c
      by (simp add: echo_did_def echo_turn_def pingpong_inv_def echo_ready_def Let_def flip: n_def)
  qed
qed

lemma echo_turn_stamp:
  assumes inv: "pingpong_inv clk iters s" and pc: "echo_pc s = EStamp j"
  shows "echo_did clk iters s (echo_turn ndebug clk iters s)"
proof -
  define n where "n = iters + warmup iters"
  note I = inv [unfolded pingpong_inv_def Let_def, folded n_def]
  have "in_step n (clk (tick s)) (chan_items (ping s)) (chan_items (pong s)) (reply s) ((echo_m s)\<lparr>sentNs := clk (tick s)\<rparr>) (main_pc s) (EPush j)"
    using I pc by (cases "main_pc s") (auto simp: echoed_def)
  then show ?thesis using I pc
    by (simp add: echo_did_def echo_turn_def pingpong_inv_def echo_ready_def Let_def flip: n_def)
qed

lemma echo_turn_push:
  assumes inv: "pingpong_inv clk iters s" and pc: "echo_pc s = EPush j"
  shows "echo_did clk iters s (echo_turn ndebug clk iters s)"
proof -
  define n where "n = iters + warmup iters"
  note I = inv [unfolded pingpong_inv_def Let_def, folded n_def]
  obtain t0 where p: "main_pc s = PPop j t0" "j < n" "chan_items (ping s) = []" "chan_items (pong s) = []"
    "echoed j t0 (clk (tick s)) (echo_m s)" "t0 \<le> clk (tick s)"
    using I pc by (cases "main_pc s") auto
  have "chan_ok (pong s)" using I by simp
  then obtain c' where "chan_push (echo_m s) (pong s) = Inr (True, c')" "chan_ok c'" "chan_items c' = [echo_m s]"
    using p(4) by (rule chan_push_empty)
  then show ?thesis using I pc p unat_succ_less [OF p(2)]
    by (simp add: echo_did_def echo_turn_def pingpong_inv_def echo_ready_def Let_def flip: n_def)
qed

lemma echo_turn_law: "pingpong_inv clk iters s \<Longrightarrow> echo_did clk iters s (echo_turn ndebug clk iters s)"
proof (cases "echo_pc s")
  case EDone
  assume "pingpong_inv clk iters s"
  then show ?thesis using EDone by (simp add: echo_did_def echo_turn_def echo_ready_def)
qed (simp_all add: echo_turn_start echo_turn_pop echo_turn_stamp echo_turn_push)

text \<open>A whole turn, the clock included.\<close>

lemma inv_tick: "pingpong_inv clk iters s \<Longrightarrow> pingpong_inv clk iters (s\<lparr>tick := Suc (tick s)\<rparr>)"
  unfolding pingpong_inv_def Let_def by (auto elim!: in_step_mono [rotated] simp: incseq_SucD)

lemma pingpong_turn_law:
  assumes "pingpong_inv clk iters s"
  defines "n \<equiv> iters + warmup iters"
  obtains s' where "pingpong_turn ndebug clk iters w s = Inr s'" "pingpong_inv clk iters s'"
    "ping_rank n (main_pc s') = ping_rank n (main_pc s) + (if w \<and> ping_ready s then 1 else 0)"
    "echo_rank n (echo_pc s') = echo_rank n (echo_pc s) + (if \<not> w \<and> echo_ready s then 1 else 0)"
    "w \<longrightarrow> \<not> ping_ready s \<longrightarrow> echo_ready s' = echo_ready s"
    "\<not> w \<longrightarrow> \<not> echo_ready s \<longrightarrow> ping_ready s' = ping_ready s"
proof (cases w)
  case True
  obtain s' where s: "ping_turn ndebug clk iters s = Inr s'" "pingpong_inv clk iters s'" "tick s' = tick s" "echo_pc s' = echo_pc s"
      "ping_rank n (main_pc s') = ping_rank n (main_pc s) + (if ping_ready s then 1 else 0)"
      "\<not> ping_ready s \<longrightarrow> chan_items (ping s') = chan_items (ping s)"
    using ping_turn_law [OF assms(1), of ndebug] unfolding ping_did_def Let_def n_def by blast
  show ?thesis
    by (rule that [of "s'\<lparr>tick := Suc (tick s)\<rparr>"])
      (use True s inv_tick [OF s(2)] in \<open>simp_all add: pingpong_turn_def echo_ready_def split: echo_pc.splits\<close>)
next
  case False
  obtain s' where s: "echo_turn ndebug clk iters s = Inr s'" "pingpong_inv clk iters s'" "tick s' = tick s" "main_pc s' = main_pc s"
      "echo_rank n (echo_pc s') = echo_rank n (echo_pc s) + (if echo_ready s then 1 else 0)"
      "\<not> echo_ready s \<longrightarrow> chan_items (pong s') = chan_items (pong s)"
    using echo_turn_law [OF assms(1), of ndebug] unfolding echo_did_def Let_def n_def by blast
  show ?thesis
    by (rule that [of "s'\<lparr>tick := Suc (tick s)\<rparr>"])
      (use False s inv_tick [OF s(2)] in \<open>simp_all add: pingpong_turn_def ping_ready_def split: ping_pc.splits\<close>)
qed

lemma rank_bounds:
  assumes "pingpong_inv clk iters s"
  defines "n \<equiv> iters + warmup iters"
  shows "ping_rank n (main_pc s) \<le> 4 * unat n + 1" "echo_rank n (echo_pc s) \<le> 4 * unat n + 1"
proof -
  have st: "in_step n (clk (tick s)) (chan_items (ping s)) (chan_items (pong s)) (reply s) (echo_m s) (main_pc s) (echo_pc s)"
    using assms(1) by (simp add: pingpong_inv_def Let_def n_def)
  show "ping_rank n (main_pc s) \<le> 4 * unat n + 1"
    using st by (cases "main_pc s") (auto simp: word_le_nat_alt word_less_nat_alt)
  have le: "4 * unat (i + 1) \<le> Suc (4 * unat n)" if "unat i < unat n" for i :: u64
    using succ_le [of i n] that by (simp add: word_le_nat_alt word_less_nat_alt)
  show "echo_rank n (echo_pc s) \<le> 4 * unat n + 1"
    using st le by (cases "main_pc s"; cases "echo_pc s") (auto simp: word_le_nat_alt word_less_nat_alt)
qed

lemma somebody_ready:
  assumes "pingpong_inv clk iters s" "\<not> pingpong_final s"
  shows "ping_ready s \<or> echo_ready s"
  using assms unfolding pingpong_inv_def Let_def pingpong_final_def
  by (cases "main_pc s"; cases "echo_pc s") (auto simp: ping_ready_def echo_ready_def)

interpretation pingpong: ready_pair "pingpong_turn ndebug clk iters" "pingpong_inv clk iters" pingpong_final "pingpong_left iters"
    "\<lambda>w. if w then ping_ready else echo_ready"
  for ndebug clk iters
proof
  fix s w assume inv: "pingpong_inv clk iters s"
  define n where "n = iters + warmup iters"
  obtain s1 where t: "pingpong_turn ndebug clk iters w s = Inr s1" "pingpong_inv clk iters s1"
    "ping_rank n (main_pc s1) = ping_rank n (main_pc s) + (if w \<and> ping_ready s then 1 else 0)"
    "echo_rank n (echo_pc s1) = echo_rank n (echo_pc s) + (if \<not> w \<and> echo_ready s then 1 else 0)"
    "w \<longrightarrow> \<not> ping_ready s \<longrightarrow> echo_ready s1 = echo_ready s"
    "\<not> w \<longrightarrow> \<not> echo_ready s \<longrightarrow> ping_ready s1 = ping_ready s"
    unfolding n_def by (rule pingpong_turn_law [OF inv, of ndebug w])
  note b = rank_bounds [OF t(2), folded n_def]
  have "if (if w then ping_ready else echo_ready) s then pingpong_left iters s1 < pingpong_left iters s
        else pingpong_left iters s1 = pingpong_left iters s \<and>
          ((if \<not> w then ping_ready else echo_ready) s1 = (if \<not> w then ping_ready else echo_ready) s)"
    using t(3-6) b unfolding pingpong_left_def Let_def n_def [symmetric] by (cases w) auto
  then show "\<exists>s'. pingpong_turn ndebug clk iters w s = Inr s' \<and> pingpong_inv clk iters s' \<and>
      (if (if w then ping_ready else echo_ready) s then pingpong_left iters s' < pingpong_left iters s
       else pingpong_left iters s' = pingpong_left iters s \<and>
         ((if \<not> w then ping_ready else echo_ready) s' = (if \<not> w then ping_ready else echo_ready) s))"
    using t(1,2) by blast
next
  fix s assume "pingpong_inv clk iters s" "\<not> pingpong_final s"
  then have "ping_ready s \<or> echo_ready s" by (rule somebody_ready)
  then show "\<exists>w. (if w then ping_ready else echo_ready) s" by (metis (full_types))
qed

subsection \<open>Properties\<close>

lemma pingpong_init_inv:
  "chan_ok c \<Longrightarrow> chan_items c = [] \<Longrightarrow> chan_ok d \<Longrightarrow> chan_items d = [] \<Longrightarrow> mono clk \<Longrightarrow>
   pingpong_inv clk iters (pingpong_init c d)"
  by (simp add: pingpong_inv_def pingpong_init_def Let_def)

lemma final_samples:
  assumes "pingpong_inv clk iters s" "main_pc s = PDone" "unat iters + unat iters div 10 + 1 < 2 ^ 64"
  shows "length (rtt s) = unat iters" "length (oneWay s) = unat iters"
proof -
  have "unat (warmup iters) = unat iters div 10 + 1"
    using assms(3) by (simp add: warmup_def unat_word_ariths(1) unat_div)
  then have "unat (iters + warmup iters) - unat (warmup iters) = unat iters"
    using assms(3) by (simp add: unat_word_ariths(1))
  then show "length (rtt s) = unat iters" "length (oneWay s) = unat iters"
    using assms(1,2) by (auto simp: pingpong_inv_def Let_def dest: list_all2_lengthD)
qed

text \<open>A clock for examples: it advances with every turn and stops at 1000.\<close>

definition slow_clock :: "nat \<Rightarrow> u64" where
  "slow_clock n = of_nat (min n 1000)"

lemma slow_clock_mono: "mono slow_clock"
proof (rule monoI)
  have u: "unat (slow_clock n) = min n 1000" for n
    unfolding slow_clock_def by (rule unat_of_nat_u64) simp
  show "slow_clock m \<le> slow_clock n" if "m \<le> n" for m n using that by (simp add: word_le_nat_alt u)
qed

text \<open>
  The latency benchmark over two empty queues never faults under any schedule, and under every fair
  schedule both processes come to their ends with both queues empty. The parent then holds exactly
  \<^verbatim>\<open>iters\<close> round trips and as many one-way times (the warm-up rounds are discarded), and with a clock
  that does not run backwards no one-way time exceeds its round trip.
\<close>

theorem latency_run_completes:
  assumes "chan_ok c" and "chan_items c = []" and "chan_ok d" and "chan_items d = []" and "mono clk"
    and "unat iters + unat iters div 10 + 1 < 2 ^ 64"
  shows "(\<forall>n. \<exists>s. run_pair (pingpong_turn ndebug clk iters) sched n (pingpong_init c d) = Inr s) \<and>
         (fair sched \<longrightarrow>
            (\<exists>n s. run_pair (pingpong_turn ndebug clk iters) sched n (pingpong_init c d) = Inr s \<and>
               main_pc s = PDone \<and> echo_pc s = EDone \<and> chan_items (ping s) = [] \<and> chan_items (pong s) = [] \<and>
               length (rtt s) = unat iters \<and> length (oneWay s) = unat iters \<and>
               (\<forall>k < unat iters. oneWay s ! k \<le> rtt s ! k)))"
proof (intro conjI allI impI)
  note inv = pingpong_init_inv [OF assms(1-5), of iters]
  show "\<exists>s. run_pair (pingpong_turn ndebug clk iters) sched n (pingpong_init c d) = Inr s" for n
    using pingpong.run_safe [OF inv, of ndebug sched n] by blast
  assume "fair sched"
  from pingpong.completes [OF this inv, of ndebug] obtain n s where
    run: "run_pair (pingpong_turn ndebug clk iters) sched n (pingpong_init c d) = Inr s"
    and s: "pingpong_inv clk iters s" and f: "main_pc s = PDone" "echo_pc s = EDone"
    by (auto simp: pingpong_final_def)
  note l = final_samples [OF s f(1) assms(6)]
  have r: "list_all2 (\<le>) (oneWay s) (rtt s)" "chan_items (ping s) = []" "chan_items (pong s) = []"
    using s f by (simp_all add: pingpong_inv_def Let_def)
  then have "\<forall>k < unat iters. oneWay s ! k \<le> rtt s ! k" using l by (auto simp: list_all2_conv_all_nth)
  then show "\<exists>n s. run_pair (pingpong_turn ndebug clk iters) sched n (pingpong_init c d) = Inr s \<and>
      main_pc s = PDone \<and> echo_pc s = EDone \<and> chan_items (ping s) = [] \<and> chan_items (pong s) = [] \<and>
      length (rtt s) = unat iters \<and> length (oneWay s) = unat iters \<and> (\<forall>k < unat iters. oneWay s ! k \<le> rtt s ! k)"
    using run f r l by blast
qed

theorem latency_run_completes_witness:
  "\<exists>n s. run_pair (pingpong_turn True slow_clock 5) even n (pingpong_init msg_chan msg_chan) = Inr s \<and>
     length (rtt s) = 5 \<and> (\<forall>k < 5. oneWay s ! k \<le> rtt s ! k)"
  using latency_run_completes [OF msg_chan_ok msg_chan_ok slow_clock_mono, of 5 True even] fair_even by auto

text \<open>
  A run with zero iterations, which the command line allows, ends in undefined behaviour: its final
  state has no samples, and \<^verbatim>\<open>printLatency\<close> reads the last element of an empty vector for both reports;
  with at least one iteration neither report faults.
\<close>

theorem latency_report_needs_samples:
  assumes "chan_ok c" and "chan_items c = []" and "chan_ok d" and "chan_items d = []" and "mono clk"
    and "unat iters + unat iters div 10 + 1 < 2 ^ 64" and "main_pc s = PDone"
    and "run_pair (pingpong_turn ndebug clk iters) sched n (pingpong_init c d) = Inr s"
  shows "if iters = 0 then latency_report s = (Inl OutOfBounds, Inl OutOfBounds)
         else \<exists>a b. latency_report s = (Inr a, Inr b)"
proof -
  have inv: "pingpong_inv clk iters s"
    using pingpong.run_safe [OF pingpong_init_inv [OF assms(1-5), of iters], of ndebug sched n] assms(8) by simp
  note l = final_samples [OF inv assms(7,6)]
  show ?thesis
  proof (cases "iters = 0")
    case True
    then show ?thesis using l by (simp add: latency_report_def printLatency_nonempty(2))
  next
    case False
    then have "unat iters \<noteq> 0" by (simp add: unsigned_eq_0_iff)
    then have "rtt s \<noteq> []" "oneWay s \<noteq> []" using l by auto
    then show ?thesis using False printLatency_nonempty(1) by (simp add: latency_report_def)
  qed
qed

theorem latency_report_needs_samples_witness:
  "\<exists>n s. run_pair (pingpong_turn True slow_clock 0) even n (pingpong_init msg_chan msg_chan) = Inr s \<and>
     latency_report s = (Inl OutOfBounds, Inl OutOfBounds)"
proof -
  obtain n s where "run_pair (pingpong_turn True slow_clock 0) even n (pingpong_init msg_chan msg_chan) = Inr s" "main_pc s = PDone"
    using pingpong.completes [OF fair_even pingpong_init_inv [OF msg_chan_ok msg_chan_ok slow_clock_mono], of True 0]
    by (auto simp: pingpong_final_def)
  then show ?thesis
    using latency_report_needs_samples [OF msg_chan_ok msg_chan_ok slow_clock_mono, of 0 s True even n] by auto
qed

end
