(* ===== verification/Benches.thy ===== *)
theory Benches
  imports Programs Latency
begin

section \<open>The main functions of the benchmarks\<close>

text \<open>
  \<^verbatim>\<open>src/bench_throughput.cpp\<close> and \<^verbatim>\<open>src/bench_latency.cpp\<close> around the loops of \<open>Throughput\<close> and \<open>Latency\<close>:
  command line, \<^verbatim>\<open>create\<close> in the parent, \<^verbatim>\<open>attach\<close> in the forked child, the parent's wait for it, the end of both
  processes, the sequence of runs, the removal of the names and the exit code. Parent and child are two
  hosts over one world. How long the child takes until it attaches is a parameter: the number of polls the
  parent's \<^verbatim>\<open>waitForPeer\<close> has made by then, so that a slow child makes the wait time out. No handler
  catches what these calls throw, so an exception of the parent is the outcome \<open>Inl\<close>; a child that fails to
  attach dies. The other outcome is the parent's handles, whether it has seen a peer, and the child's handles.
\<close>

definition bench_total :: "string list \<Rightarrow> u64" where
  "bench_total argv = (if 1 < length argv then strtoull (argv ! 1) else 10000000)"

text \<open>The runs of \<^verbatim>\<open>main\<close>: capacity and batch.\<close>

definition bench_configs :: "(u64 \<times> u64) list" where
  "bench_configs = map (\<lambda>batch. (8192, batch)) [1, 8, 32, 128] @ map (\<lambda>cap. (cap, 32)) [64, 1024, 65536]"

definition latency_iters :: "string list \<Rightarrow> u64" where
  "latency_iters argv = (if 1 < length argv then strtoull (argv ! 1) else 200000)"

definition kName :: string where "kName = ''/shmspsc_bench''"
definition kPing :: string where "kPing = ''/shmspsc_ping''"
definition kPong :: string where "kPong = ''/shmspsc_pong''"

subsection \<open>A wait during which another process acts\<close>

text \<open>
  \<open>n\<close> turns of the loop of \<^verbatim>\<open>waitForPeer\<close>: the result, if it has returned by then, or the world in which it goes on.
\<close>

primrec wait_rounds :: "'k host \<Rightarrow> nat \<Rightarrow> nat \<Rightarrow> queue \<Rightarrow> 'k world \<Rightarrow> ((err + bool) \<times> 'k world) + 'k world" where
  "wait_rounds H deadline 0 q w = Inr w"
| "wait_rounds H deadline (Suc n) q w =
     (case deref H q w of
        Inl e \<Rightarrow> Inl (Inl e, w)
      | Inr (ob, c) \<Rightarrow>
          (if 0 < sint (peer_slot (role_m q) c) then Inl (Inr True, w)
           else let (t, k) = steady_now H (kern w); w1 = w\<lparr>kern := k\<rparr>
                in if t \<ge> deadline then Inl (Inr False, w1)
                   else wait_rounds H deadline n q (usleep H 1000 w1)))"

text \<open>The same from the call of \<^verbatim>\<open>waitForPeer\<close> on, with the deadline it goes on with.\<close>

definition polls :: "'k host \<Rightarrow> u32 \<Rightarrow> nat \<Rightarrow> queue \<Rightarrow> 'k world \<Rightarrow> ((err + bool) \<times> 'k world) + nat \<times> 'k world" where
  "polls H timeoutMs n q w =
     (let (t, k) = steady_now H (kern w);
          deadline = t + unat timeoutMs * 1000000
      in case wait_rounds H deadline n q (w\<lparr>kern := k\<rparr>) of Inl res \<Rightarrow> Inl res | Inr w1 \<Rightarrow> Inr (deadline, w1))"

text \<open>A \<^verbatim>\<open>waitForPeer\<close> in which another process does \<open>act\<close> after \<open>n\<close> polls, unless the wait has returned before.\<close>

definition wait_with :: "'k host \<Rightarrow> u32 \<Rightarrow> nat \<Rightarrow> ('k world \<Rightarrow> ('r \<times> 'k world) option) \<Rightarrow> queue \<Rightarrow> 'k world \<Rightarrow>
    ((err + bool) \<times> 'r option \<times> 'k world) option" where
  "wait_with H timeoutMs n act q w =
     (case polls H timeoutMs n q w of
        Inl (r, w1) \<Rightarrow> Some (r, None, w1)
      | Inr (deadline, w1) \<Rightarrow>
          (case act w1 of
             None \<Rightarrow> None
           | Some (x, w2) \<Rightarrow>
               (case wait_loop H deadline q w2 of
                  None \<Rightarrow> None
                | Some (r, w3) \<Rightarrow> Some (r, Some x, w3))))"

subsection \<open>The programs\<close>

text \<open>Lines 24--51 of \<^verbatim>\<open>bench_throughput.cpp\<close>; the child attaches when the parent has polled \<open>late\<close> times.\<close>

definition tput_start :: "'k host \<Rightarrow> 'k host \<Rightarrow> binary \<Rightarrow> nat \<Rightarrow> u64 \<Rightarrow> 'k world \<Rightarrow> ((err + queue \<times> bool \<times> queue option) \<times> 'k world) option" where
  "tput_start H G b late cap0 w =
     (case create H b kName cap0 Producer w of
        (Inl e, w1) \<Rightarrow> Some (Inl e, w1)
      | (Inr q, w1) \<Rightarrow>
          (case wait_with H 5000 late (attach G b kName Consumer 5000) q w1 of
             None \<Rightarrow> None
           | Some (Inl e, _, w2) \<Rightarrow> Some (Inl e, w2)
           | Some (Inr there, child, w2) \<Rightarrow>
               Some (Inr (q, there, case child of Some (Inr c) \<Rightarrow> Some c | _ \<Rightarrow> None), w2)))"

text \<open>Line 44 of \<^verbatim>\<open>bench_latency.cpp\<close>, in a child whose first \<^verbatim>\<open>attach\<close> has returned; the child's handles, if it has both.\<close>

definition latency_child :: "'k host \<Rightarrow> binary \<Rightarrow> (err + queue) option \<Rightarrow> 'k world \<Rightarrow> ((queue \<times> queue) option \<times> 'k world) option" where
  "latency_child G b first w =
     (case first of
        Some (Inr inq) \<Rightarrow>
          (case attach G b kPong Producer 5000 w of
             None \<Rightarrow> None
           | Some (Inl _, w1) \<Rightarrow> Some (None, w1)
           | Some (Inr outq, w1) \<Rightarrow> Some (Some (inq, outq), w1))
      | _ \<Rightarrow> Some (None, w))"

text \<open>
  Lines 37--56, with the handles of both processes on \<^verbatim>\<open>ping\<close> and \<^verbatim>\<open>pong\<close>. The child attaches to \<^verbatim>\<open>ping\<close> when the parent has polled
  there \<open>late\<close> times, and to \<^verbatim>\<open>pong\<close> when the parent has polled there \<open>late'\<close> times;
  a child that is through with both before the parent looks at \<^verbatim>\<open>pong\<close> is found by the first poll there, as with \<open>late' = 0\<close>.
\<close>

definition latency_start :: "'k host \<Rightarrow> 'k host \<Rightarrow> binary \<Rightarrow> nat \<Rightarrow> nat \<Rightarrow> 'k world \<Rightarrow>
    ((err + (queue \<times> queue) \<times> bool \<times> (queue \<times> queue) option) \<times> 'k world) option" where
  "latency_start H G b late late' w =
     (case create H b kPing 64 Producer w of
        (Inl e, w1) \<Rightarrow> Some (Inl e, w1)
      | (Inr p, w1) \<Rightarrow>
          (case create H b kPong 64 Consumer w1 of
             (Inl e, w2) \<Rightarrow> Some (Inl e, w2)
           | (Inr q, w2) \<Rightarrow>
               (case wait_with H 5000 late (attach G b kPing Consumer 5000) p w2 of
                  None \<Rightarrow> None
                | Some (Inl e, _, w3) \<Rightarrow> Some (Inl e, w3)
                | Some (Inr False, _, w3) \<Rightarrow> Some (Inr ((p, q), False, None), w3)
                | Some (Inr True, first, w3) \<Rightarrow>
                    (case wait_with H 5000 late' (latency_child G b first) q w3 of
                       None \<Rightarrow> None
                     | Some (Inl e, _, w4) \<Rightarrow> Some (Inl e, w4)
                     | Some (Inr there, child, w4) \<Rightarrow>
                         Some (Inr ((p, q), there, case child of Some c \<Rightarrow> c | None \<Rightarrow> None), w4)))))"

text \<open>
  \<^verbatim>\<open>std::vector<std::uint64_t>::reserve\<close> on an empty vector: more than \<^verbatim>\<open>max_size()\<close> elements are a \<^verbatim>\<open>std::length_error\<close>,
  a request the allocator refuses a \<^verbatim>\<open>std::bad_alloc\<close>; \<open>max_sz\<close> and \<open>alloc\<close> belong to the library. Lines 63--66.
\<close>

definition vector_reserve :: "u64 \<Rightarrow> (u64 \<Rightarrow> bool) \<Rightarrow> u64 \<Rightarrow> exn + unit" where
  "vector_reserve max_sz alloc n =
     (if n > max_sz then Inl (Length_error ''vector::reserve'')
      else if n = 0 \<or> alloc (n * 8) then Inr () else Inl Bad_alloc)"

definition latency_reserve :: "u64 \<Rightarrow> (nat \<Rightarrow> u64 \<Rightarrow> bool) \<Rightarrow> u64 \<Rightarrow> exn + unit" where
  "latency_reserve max_sz alloc iters =
     bindE (vector_reserve max_sz (alloc 0) iters) (\<lambda>_. vector_reserve max_sz (alloc 1) iters)"

text \<open>The kernel after \<open>n\<close> readings of the clock.\<close>

definition after_reads :: "'k host \<Rightarrow> nat \<Rightarrow> 'k \<Rightarrow> 'k" where
  "after_reads H n = (\<lambda>k. snd (steady_now H k)) ^^ n"

text \<open>Handles that go out of scope.\<close>

fun drop_all :: "'k host \<Rightarrow> queue list \<Rightarrow> 'k world \<Rightarrow> (err + unit) \<times> 'k world" where
  "drop_all H [] w = (Inr (), w)"
| "drop_all H (q # qs) w = (case detach H q w of (Inl e, w1) \<Rightarrow> (Inl e, w1) | (Inr _, w1) \<Rightarrow> drop_all H qs w1)"

text \<open>
  All of \<^verbatim>\<open>run\<close> (lines 23--84). The transfer takes \<open>n\<close> turns under \<open>sched\<close>; \<open>None\<close> says that they are not enough
  (\<^verbatim>\<open>waitpid\<close> of line 72 returns once the child has left its loop; the child ends in \<^verbatim>\<open>_exit\<close>, which runs no
  destructor). The pages of a new object read as zero. A parent that sees no peer kills the child and gives
  the run up, \<open>Inr None\<close>; one that sees some other process's consumer is left out.
\<close>

definition tput_run :: "'k host \<Rightarrow> 'k host \<Rightarrow> binary \<Rightarrow> bool \<Rightarrow> u64 \<Rightarrow> u64 \<Rightarrow> u64 \<Rightarrow> nat \<Rightarrow> (nat \<Rightarrow> bool) \<Rightarrow> nat \<Rightarrow> 'k world \<Rightarrow>
    ((err + tput option) \<times> 'k world) option" where
  "tput_run H G b ndebug total_n cap0 batch late sched n w =
     (case tput_start H G b late cap0 w of
        None \<Rightarrow> None
      | Some (Inl e, w1) \<Rightarrow> Some (Inl e, w1)
      | Some (Inr (q, there, child), w1) \<Rightarrow>
          if \<not> there then (case drop_all H [q] w1 of (Inl e, w2) \<Rightarrow> Some (Inl e, w2) | (Inr _, w2) \<Rightarrow> Some (Inr None, w2))
          else case (child, reaches H q w1) of
                 (Some c, Some ob) \<Rightarrow>
                   (case run_pair (tput_turn ndebug total_n batch) sched n
                           (tput_init batch \<lparr>pend = q, cend = c, mem = segment_of w1 ob (replicate (cap q) zero_message)\<rparr>) of
                      Inl f \<Rightarrow> Some (Inl (Faults f), w1)
                    | Inr s \<Rightarrow>
                        if sentCount s < total_n \<or> gotCount s < total_n then None
                        else case drop_all H [pend (link s)] (store ob (block (mem (link s))) w1) of
                               (Inl e, w2) \<Rightarrow> Some (Inl e, w2)
                             | (Inr _, w2) \<Rightarrow> Some (Inr (Some s), w2))
               | _ \<Rightarrow> None)"

text \<open>Lines 95--106: the runs one after the other, then the name removed; run \<open>i\<close> from the end takes \<open>turns i\<close> turns under \<open>scheds i\<close>, its child \<open>lates i\<close> polls.\<close>

fun tput_runs :: "'k host \<Rightarrow> 'k host \<Rightarrow> binary \<Rightarrow> bool \<Rightarrow> u64 \<Rightarrow> (nat \<Rightarrow> nat) \<Rightarrow> (nat \<Rightarrow> nat \<Rightarrow> bool) \<Rightarrow> (nat \<Rightarrow> nat) \<Rightarrow> (u64 \<times> u64) list \<Rightarrow> 'k world \<Rightarrow>
    ((err + tput option list) \<times> 'k world) option" where
  "tput_runs H G b ndebug total_n lates scheds turns [] w = Some (Inr [], w)"
| "tput_runs H G b ndebug total_n lates scheds turns ((cap0, batch) # cs) w =
     (case tput_run H G b ndebug total_n cap0 batch (lates (length cs)) (scheds (length cs)) (turns (length cs)) w of
        None \<Rightarrow> None
      | Some (Inl e, w1) \<Rightarrow> Some (Inl e, w1)
      | Some (Inr r, w1) \<Rightarrow>
          (case tput_runs H G b ndebug total_n lates scheds turns cs w1 of
             None \<Rightarrow> None
           | Some (Inl e, w2) \<Rightarrow> Some (Inl e, w2)
           | Some (Inr rs, w2) \<Rightarrow> Some (Inr (r # rs), w2)))"

definition tput_main :: "'k host \<Rightarrow> 'k host \<Rightarrow> binary \<Rightarrow> bool \<Rightarrow> (nat \<Rightarrow> nat) \<Rightarrow> (nat \<Rightarrow> nat \<Rightarrow> bool) \<Rightarrow> (nat \<Rightarrow> nat) \<Rightarrow> string list \<Rightarrow> 'k world \<Rightarrow>
    ((err + tput option list) \<times> 'k world) option" where
  "tput_main H G b ndebug lates scheds turns argv w =
     (case tput_runs H G b ndebug (bench_total argv) lates scheds turns bench_configs w of
        None \<Rightarrow> None
      | Some (Inl e, w1) \<Rightarrow> Some (Inl e, w1)
      | Some (Inr rs, w1) \<Rightarrow> Some (Inr rs, w1\<lparr>kern := seg_remove (posix_of H) kName (kern w1)\<rparr>))"

text \<open>
  All of \<^verbatim>\<open>main\<close> of \<^verbatim>\<open>bench_latency.cpp\<close> (lines 24--98), read in the same way: exit code and the samples. The names
  are removed before the handles are destroyed, in the reverse order of their creation. An exception of one of the
  \<^verbatim>\<open>reserve\<close>s is not caught: the program is terminated with its handles as they are.
\<close>

definition latency_end :: "'k host \<Rightarrow> pingpong \<Rightarrow> 'k world \<Rightarrow> (err + nat \<times> pingpong option) \<times> 'k world" where
  "latency_end H s w =
     (case latency_report s of
        (Inr _, Inr _) \<Rightarrow>
          (let k = seg_remove (posix_of H) kPong (seg_remove (posix_of H) kPing (kern w))
           in case drop_all H [cend (pong s), pend (ping s)] (w\<lparr>kern := k\<rparr>) of
                (Inl e, w1) \<Rightarrow> (Inl e, w1)
              | (Inr _, w1) \<Rightarrow> (Inr (0, Some s), w1))
      | (Inl f, _) \<Rightarrow> (Inl (Faults f), w)
      | (_, Inl f) \<Rightarrow> (Inl (Faults f), w))"

definition latency_main :: "'k host \<Rightarrow> 'k host \<Rightarrow> binary \<Rightarrow> bool \<Rightarrow> u64 \<Rightarrow> (nat \<Rightarrow> u64 \<Rightarrow> bool) \<Rightarrow> nat \<Rightarrow> nat \<Rightarrow> (nat \<Rightarrow> u64) \<Rightarrow> (nat \<Rightarrow> bool) \<Rightarrow> nat \<Rightarrow>
    string list \<Rightarrow> 'k world \<Rightarrow> ((err + nat \<times> pingpong option) \<times> 'k world) option" where
  "latency_main H G b ndebug max_sz alloc late late' clk sched n argv w =
     (let iters = latency_iters argv;
          now = (\<lambda>j. of_nat (fst (steady_now H (after_reads H j (kern w)))));
          w0 = w\<lparr>kern := after_reads H 200002 (kern w)\<rparr>
      in case clockOverheadNs now 200000 of
           None \<Rightarrow> Some (Inl (Faults DivByZero), w0)
         | Some clockNs \<Rightarrow>
             (case latency_start H G b late late' w0 of
                None \<Rightarrow> None
              | Some (Inl e, w1) \<Rightarrow> Some (Inl e, w1)
              | Some (Inr ((p, q), there, child), w1) \<Rightarrow>
                  if \<not> there then (case drop_all H [q, p] w1 of (Inl e, w2) \<Rightarrow> Some (Inl e, w2) | (Inr _, w2) \<Rightarrow> Some (Inr (1, None), w2))
                  else case latency_reserve max_sz alloc iters of
                         Inl x \<Rightarrow> Some (Inl (Throws x), w1)
                       | Inr _ \<Rightarrow>
                           (case (child, reaches H p w1, reaches H q w1) of
                              (Some (i, out), Some ob, Some ob') \<Rightarrow>
                                (case run_pair (pingpong_turn ndebug clk iters) sched n
                                        (pingpong_init \<lparr>pend = p, cend = i, mem = segment_of w1 ob (replicate (cap p) zero_message)\<rparr>
                                           \<lparr>pend = out, cend = q, mem = segment_of w1 ob' (replicate (cap q) zero_message)\<rparr>) of
                                   Inl f \<Rightarrow> Some (Inl (Faults f), w1)
                                 | Inr s \<Rightarrow>
                                     if main_pc s \<noteq> PDone \<or> echo_pc s \<noteq> EDone then None
                                     else Some (latency_end H s (store ob' (block (mem (pong s))) (store ob (block (mem (ping s))) w1))))
                            | _ \<Rightarrow> None)))"

subsection \<open>A handle in good standing\<close>

text \<open>The name is not linked, or linked to an object of this process.\<close>

definition own_name :: "('k \<Rightarrow> kview) \<Rightarrow> string \<Rightarrow> 'k world \<Rightarrow> bool" where
  "own_name view n w \<longleftrightarrow> (\<forall>ob. links (view (kern w)) n = Some ob \<longrightarrow> ob \<in> owned (view (kern w)))"

text \<open>The handle of a creator: bound, its mapping alive, its name its own.\<close>

definition sound :: "'k host \<Rightarrow> ('k \<Rightarrow> kview) \<Rightarrow> oid \<Rightarrow> queue \<Rightarrow> 'k world \<Rightarrow> bool" where
  "sound H view ob q w \<longleftrightarrow> handle_ok (view (kern w)) q \<and> bound_m q \<and> reaches H q w = Some ob \<and>
     owner_m (seg_m q) \<and> name_m (seg_m q) \<noteq> [] \<and> own_name view (c_str (name_m (seg_m q))) w"

text \<open>What others do leaves the mappings of this process alone and does not take its names.\<close>

definition undisturbed :: "('k \<Rightarrow> kview) \<Rightarrow> 'k world \<Rightarrow> 'k world \<Rightarrow> bool" where
  "undisturbed view w w' \<longleftrightarrow> (\<forall>a x. maps (view (kern w)) a = Some x \<longrightarrow> maps (view (kern w')) a = Some x) \<and>
     (\<forall>n. own_name view n w \<longrightarrow> own_name view n w')"

text \<open>While this process sleeps, nobody but the process modelled with it touches the blocks in \<open>S\<close> or takes a name.\<close>

definition quiet :: "'k host \<Rightarrow> ('k \<Rightarrow> kview) \<Rightarrow> oid set \<Rightarrow> bool" where
  "quiet H view S \<longleftrightarrow> (\<forall>us w. (\<forall>ob \<in> S. objs (usleep H us w) ob = objs w ob) \<and>
     (\<forall>n. own_name view n w \<longrightarrow> own_name view n (usleep H us w)))"

text \<open>The handle has gone out of scope: unmapped, name unlinked, pid slot given up.\<close>

definition released :: "'k host \<Rightarrow> ('k \<Rightarrow> kview) \<Rightarrow> oid \<Rightarrow> queue \<Rightarrow> 'k world \<Rightarrow> bool" where
  "released H view ob q w \<longleftrightarrow> maps (view (kern w)) (the (ctrl_m q)) = None \<and>
     links (view (kern w)) (c_str (name_m (seg_m q))) = None \<and> pid_slot (role_m q) (objs w ob) \<noteq> getpid H"

lemma undisturbed_trans: "undisturbed view w w1 \<Longrightarrow> undisturbed view w1 w2 \<Longrightarrow> undisturbed view w w2"
  by (simp add: undisturbed_def)

lemma undisturbed_same: "view (kern w') = view (kern w) \<Longrightarrow> undisturbed view w w'"
  by (simp add: undisturbed_def own_name_def)

lemma sound_same: "sound H view ob q w \<Longrightarrow> same_handle q q' \<Longrightarrow> kern w' = kern w \<Longrightarrow> sound H view ob q' w'"
  using same_handle_ok(1) [of q q'] same_handle_reaches [of q q' w' w H] by (simp add: sound_def same_handle_def own_name_def)

context shm_host
begin

lemma sound_undisturbed:
  assumes "sound H view ob q w" "undisturbed view w w'"
  shows "sound H view ob q w'"
  using assms by (auto simp: sound_def undisturbed_def handle_ok_def seg_mapped_def reaches_iff split: option.splits)

lemma sound_created:
  assumes "create H b name cap0 role w = (Inr q, w1)" "reaches H q w1 = Some ob" "name \<noteq> []"
  shows "sound H view ob q w1" "undisturbed view w w1" "name_m (seg_m q) = name" "role_m q = role"
proof -
  obtain ob' a bytes where c: "maps (V w) a = None" "seg_m q = \<lparr>addr_m = Some a, size_m = bytes, owner_m = True, name_m = name\<rparr>"
    "ctrl_m q = Some a" "role_m q = role" "bound_m q" "maps (V w1) = (maps (V w))(a \<mapsto> (ob', bytes))"
    "links (V w1) = (links (V w))(c_str name \<mapsto> ob')" "owned (V w1) = insert ob' (owned (V w))"
    by (rule create_ok [OF assms(1)]) (auto intro: that)
  have own: "own_name view n w \<Longrightarrow> own_name view n w1" "own_name view (c_str name) w1" for n
    using c(7,8) by (auto simp: own_name_def)
  show "sound H view ob q w1" using c assms(2,3) own(2) by (simp add: sound_def handle_ok_def seg_mapped_def)
  show "undisturbed view w w1" using c(1,6) own(1) by (auto simp: undisturbed_def)
  show "name_m (seg_m q) = name" "role_m q = role" using c by simp_all
qed

lemma unlink_own_name: "own_name view n w \<Longrightarrow> own_name view n (w\<lparr>kern := sys_shm_unlink (posix_of H) m (kern w)\<rparr>)"
  by (rule unlink_cases [of m "kern w"]) (auto simp: own_name_def unlinked_def split: if_splits)

lemma remove_undisturbed: "undisturbed view w (w\<lparr>kern := seg_remove (posix_of H) n (kern w)\<rparr>)"
  using unlink_own_name by (simp add: undisturbed_def seg_remove_def)

text \<open>The destructor of such a handle.\<close>

lemma detach_sound:
  assumes q: "sound H view ob q w" and pid: "getpid H \<noteq> - 1"
  obtains q' w' where "detach H q w = (Inr q', w')" "released H view ob q w'" "time (kern w) \<le> time (kern w')"
    "kern w' = snd (seg_reset (posix_of H) (seg_m q) (kern w))"
    "maps (V w') = other_maps (V w) q" "\<forall>n. n \<noteq> c_str (name_m (seg_m q)) \<longrightarrow> links (V w') n = links (V w) n" "owned (V w') = owned (V w)"
    "\<forall>ob'. ob' \<noteq> ob \<longrightarrow> objs w' ob' = objs w ob'"
proof -
  obtain a where a: "addr_m (seg_m q) = Some a" "ctrl_m q = Some a" and s: "seg_mapped (V w) (seg_m q)" "owner_m (seg_m q)" "name_m (seg_m q) \<noteq> []"
    using q unfolding sound_def handle_ok_def by (metis not_None_eq)
  obtain q' w' where d: "detach H q w = (Inr q', w')" "kern w' = snd (seg_reset (posix_of H) (seg_m q) (kern w))"
      "maps (V w') = other_maps (V w) q" "pid_slot (role_m q) (objs w' ob) \<noteq> getpid H" "\<forall>ob'. ob' \<noteq> ob \<longrightarrow> objs w' ob' = objs w ob'"
    by (rule detach_attached [of w q ob]) (use q pid in \<open>auto simp: sound_def intro: that\<close>)
  define k1 where "k1 = sys_munmap (posix_of H) a (size_m (seg_m q)) (kern w)"
  obtain ob1 where "maps (V w) a = Some (ob1, size_m (seg_m q))" using s(1) a(1) by (auto simp: seg_mapped_def)
  then have v1: "view k1 = (V w)\<lparr>maps := (maps (V w))(a := None)\<rparr>" unfolding k1_def by (rule munmap_law)
  have k2: "kern w' = sys_shm_unlink (posix_of H) (c_str (name_m (seg_m q))) k1" using a(1) s by (simp add: d(2) seg_reset_def Let_def k1_def)
  have own: "\<forall>ob. links (view k1) (c_str (name_m (seg_m q))) = Some ob \<longrightarrow> ob \<in> owned (view k1)"
    using q by (simp add: sound_def own_name_def v1)
  have gone: "links (V w') (c_str (name_m (seg_m q))) = None"
  proof (cases "links (view k1) (c_str (name_m (seg_m q)))")
    case None
    then show ?thesis unfolding k2 by (cases rule: unlink_cases [of "c_str (name_m (seg_m q))" k1]) (simp_all add: unlinked_def)
  next
    case (Some ob2)
    then show ?thesis unfolding k2 using unlink_own_law [OF Some] own by (simp add: unlinked_def)
  qed
  have others: "\<forall>n. n \<noteq> c_str (name_m (seg_m q)) \<longrightarrow> links (V w') n = links (V w) n" "owned (V w') = owned (V w)"
    unfolding k2 using v1 by simp_all
  have "maps (V w') (the (ctrl_m q)) = None" using d(3) a by (simp add: other_maps_def)
  then have "released H view ob q w'" using gone d(4) by (simp add: released_def)
  then show ?thesis using that [OF d(1)] d others reset_time [of "kern w" "seg_m q"] by simp
qed

text \<open>Two handles on different mappings go out of scope.\<close>

lemma drop_two:
  assumes q: "sound H view ob' q w" and p: "sound H view ob p w" and ne: "ctrl_m p \<noteq> ctrl_m q" "ob \<noteq> ob'"
    "c_str (name_m (seg_m p)) \<noteq> c_str (name_m (seg_m q))" and pid: "getpid H \<noteq> - 1"
  obtains w' where "drop_all H [q, p] w = (Inr (), w')" "released H view ob p w'" "released H view ob' q w'" "time (kern w) \<le> time (kern w')"
proof -
  have om: "other_maps v r = (maps v)(the (ctrl_m r) := None)" if "sound H view o' r u" for v r o' u
    using that by (auto simp: sound_def handle_ok_def other_maps_def split: option.splits)
  obtain q' w1 where d1: "detach H q w = (Inr q', w1)" "released H view ob' q w1" "time (kern w) \<le> time (kern w1)" "maps (V w1) = other_maps (V w) q"
      "\<forall>n. n \<noteq> c_str (name_m (seg_m q)) \<longrightarrow> links (V w1) n = links (V w) n" "owned (V w1) = owned (V w)"
    by (rule detach_sound [OF q pid]) (rule that)
  have p1: "sound H view ob p w1"
    using p q ne(1,3) d1(4-6) om [OF q] by (auto simp: sound_def handle_ok_def seg_mapped_def reaches_iff own_name_def split: option.splits)
  obtain p' w2 where d2: "detach H p w1 = (Inr p', w2)" "released H view ob p w2" "time (kern w1) \<le> time (kern w2)" "maps (V w2) = other_maps (V w1) p"
      "\<forall>n. n \<noteq> c_str (name_m (seg_m p)) \<longrightarrow> links (V w2) n = links (V w1) n" "\<forall>ob'. ob' \<noteq> ob \<longrightarrow> objs w2 ob' = objs w1 ob'"
    by (rule detach_sound [OF p1 pid]) (rule that)
  have "released H view ob' q w2" using d1(2) d2(4-6) ne(2,3) om [OF p1] by (simp add: released_def)
  then show ?thesis using that [of w2] d1(1,3) d2(1-3) by simp
qed

end

subsection \<open>Waiting for a child\<close>

lemma wait_rounds_loop: "wait_loop H d q w = (case wait_rounds H d n q w of Inl res \<Rightarrow> Some res | Inr w1 \<Rightarrow> wait_loop H d q w1)"
proof (induction n arbitrary: w)
  case (Suc n)
  obtain t k where now: "steady_now H (kern w) = (t, k)" by force
  show ?case
    using Suc.IH [of "usleep H 1000 (w\<lparr>kern := k\<rparr>)"]
    by (subst wait_loop.simps, cases "deref H q w") (auto simp: Let_def now)
qed simp

text \<open>A wait in which nobody else acts is \<^verbatim>\<open>waitForPeer\<close>, wherever it is cut.\<close>

lemma wait_with_alone: "map_option (\<lambda>(r, x, w). (r, w)) (wait_with H ms n (\<lambda>w. Some (x, w)) q w) = waitForPeer H ms q w"
proof -
  obtain t k where now: "steady_now H (kern w) = (t, k)" by force
  show ?thesis
    using wait_rounds_loop [of H "t + unat ms * 1000000" q "w\<lparr>kern := k\<rparr>" n]
    by (cases "wait_rounds H (t + unat ms * 1000000) n q (w\<lparr>kern := k\<rparr>)")
      (auto simp: wait_with_def polls_def waitForPeer_def now Let_def split: option.splits)
qed

definition kept :: "('k \<Rightarrow> kview) \<Rightarrow> oid set \<Rightarrow> 'k world \<Rightarrow> 'k world \<Rightarrow> bool" where
  "kept view S w w' \<longleftrightarrow> undisturbed view w w' \<and> (\<forall>ob \<in> S. objs w' ob = objs w ob)"

lemma kept_trans: "kept view S w w1 \<Longrightarrow> kept view S w1 w2 \<Longrightarrow> kept view S w w2"
  using undisturbed_trans by (auto simp: kept_def)

context shm_host
begin

text \<open>Polls that find nobody: they sleep until the deadline, and change nothing of this process's.\<close>

lemma wait_rounds_quiet:
  assumes quiet: "quiet H view S" "ob \<in> S"
  shows "sound H view ob q w \<Longrightarrow> \<not> 0 < sint (peer_slot (role_m q) (objs w ob)) \<Longrightarrow>
    (case wait_rounds H d n q w of Inl (r, w') \<Rightarrow> r = Inr False \<and> d \<le> time (kern w') \<and> kept view S w w' | Inr w' \<Rightarrow> kept view S w w')"
proof (induction n arbitrary: w)
  case 0
  then show ?case by (simp add: kept_def undisturbed_same)
next
  case (Suc n)
  have dr: "deref H q w = Inr (ob, objs w ob)" using Suc.prems(1) by (simp add: sound_def deref_def)
  obtain t k where now: "steady_now H (kern w) = (t, k)" by force
  define w1 where "w1 = w\<lparr>kern := k\<rparr>"
  have k1: "kept view S w w1" "t \<le> time (kern w1)"
    using now_law [OF now] by (simp_all add: w1_def kept_def undisturbed_same)
  show ?case
  proof (cases "d \<le> t")
    case True
    then show ?thesis using dr now Suc.prems(2) k1 by (simp add: w1_def Let_def)
  next
    case False
    define w2 where "w2 = usleep H 1000 w1"
    have m2: "maps (V w2) = maps (V w1)" using usleep_own_law [of 1000 w1] by (simp add: w2_def)
    have n2: "\<forall>n. own_name view n w1 \<longrightarrow> own_name view n w2" "\<forall>ob \<in> S. objs w2 ob = objs w1 ob"
      using quiet(1) unfolding quiet_def w2_def by blast+
    have "undisturbed view w1 w2" unfolding undisturbed_def m2 using n2(1) by blast
    then have "kept view S w1 w2" using n2(2) unfolding kept_def by blast
    then have k2: "kept view S w w2" by (rule kept_trans [OF k1(1)])
    have s2: "sound H view ob q w2" "objs w2 ob = objs w ob"
      using sound_undisturbed [OF Suc.prems(1), of w2] k2 quiet(2) unfolding kept_def by blast+
    then have p2: "\<not> 0 < sint (peer_slot (role_m q) (objs w2 ob))" using Suc.prems(2) by simp
    have step: "wait_rounds H d (Suc n) q w = wait_rounds H d n q w2"
      using dr now Suc.prems(2) False by (simp add: w2_def w1_def Let_def)
    show ?thesis unfolding step using Suc.IH [OF s2(1) p2] kept_trans [OF k2] by (auto split: sum.splits prod.splits)
  qed
qed

lemma polls_quiet:
  assumes quiet: "quiet H view S" "ob \<in> S" and q: "sound H view ob q w" "\<not> 0 < sint (peer_slot (role_m q) (objs w ob))"
  shows "case polls H ms n q w of Inl (r, w') \<Rightarrow> r = Inr False \<and> time (kern w) + unat ms * 1000000 \<le> time (kern w') \<and> kept view S w w'
    | Inr (d, w') \<Rightarrow> kept view S w w'"
proof -
  obtain t k where now: "steady_now H (kern w) = (t, k)" by force
  define w1 where "w1 = w\<lparr>kern := k\<rparr>"
  have k1: "kept view S w w1" "time (kern w) \<le> t" using now_law [OF now] by (simp_all add: w1_def kept_def undisturbed_same)
  have s1: "sound H view ob q w1" "\<not> 0 < sint (peer_slot (role_m q) (objs w1 ob))"
    using sound_undisturbed [OF q(1)] k1(1) q(2) by (simp_all add: kept_def w1_def)
  show ?thesis
    using wait_rounds_quiet [OF quiet s1, of "t + unat ms * 1000000" n] kept_trans [OF k1(1)] k1(2)
    by (fastforce simp: polls_def now Let_def simp flip: w1_def split: sum.splits prod.splits)
qed

lemma wait_with_there:
  assumes "polls H ms n q w = Inr (d, w1)" "act w1 = Some (x, w2)" "sound H view ob q w2" "0 < sint (peer_slot (role_m q) (objs w2 ob))"
  shows "wait_with H ms n act q w = Some (Inr True, Some x, w2)"
  using assms by (simp add: wait_with_def wait_loop.simps deref_def sound_def)

end

text \<open>The operations of the two loops change only the caches of a handle.\<close>

lemma push_n_handle: "push_n src n q m = Inr (k, q', m') \<Longrightarrow> same_handle q q'"
  by (auto simp: push_n_def push_n_publish_def Let_def bindE_def split: if_splits sum.splits)

lemma try_pop_handle: "try_pop ndebug out q m = Inr (ok, x, q', m') \<Longrightarrow> same_handle q q'"
  by (auto simp: try_pop_def front_def Let_def bindE_def split: if_splits sum.splits option.splits prod.splits)

definition same_ends :: "'a chan \<Rightarrow> 'a chan \<Rightarrow> bool" where
  "same_ends c d \<longleftrightarrow> same_handle (pend c) (pend d) \<and> same_handle (cend c) (cend d)"

lemma same_ends_trans: "same_ends c d \<Longrightarrow> same_ends d e \<Longrightarrow> same_ends c e"
  by (auto simp: same_ends_def intro: same_handle_trans)

lemma same_ends_refl [simp]: "same_ends c c" by (simp add: same_ends_def)

lemma chan_ops_ends:
  "chan_push v c = Inr (ok, d) \<Longrightarrow> same_ends c d" "chan_push_n src n c = Inr (k, d) \<Longrightarrow> same_ends c d"
  "chan_pop ndebug out c = Inr (ok, x, d) \<Longrightarrow> same_ends c d" "chan_pop_n dst n c = Inr (k, xs, d) \<Longrightarrow> same_ends c d"
  by (auto simp: same_ends_def chan_push_def chan_push_n_def chan_pop_def chan_pop_n_def bindE_def
      dest: try_push_handle push_n_handle try_pop_handle pop_n_handle split: sum.splits)

lemma run_pair_keeps:
  assumes "\<And>p s s'. turn p s = Inr s' \<Longrightarrow> R s s'" "\<And>s. R s s" "\<And>s t u. R s t \<Longrightarrow> R t u \<Longrightarrow> R s u"
  shows "run_pair turn sched n s = Inr t \<Longrightarrow> R s t"
proof (induction n arbitrary: t)
  case (Suc n)
  then obtain u where "run_pair turn sched n s = Inr u" "turn (sched n) u = Inr t" by (auto simp: bindE_def split: sum.splits)
  then show ?case using Suc.IH assms(1,3) by blast
qed (use assms(2) in simp)

lemma tput_ends:
  assumes "run_pair (tput_turn ndebug total_n batch) sched n s = Inr t"
  shows "same_ends (link s) (link t)"
  by (rule run_pair_keeps [where R = "\<lambda>s t. same_ends (link s) (link t)", OF _ _ _ assms])
    (auto simp: tput_turn_def parent_turn_def child_turn_def Let_def bindE_def dest: chan_ops_ends
      intro: same_ends_trans split: if_splits sum.splits)

lemma pingpong_ends:
  assumes "run_pair (pingpong_turn ndebug clk iters) sched n s = Inr t"
  shows "same_ends (ping s) (ping t) \<and> same_ends (pong s) (pong t)"
  by (rule run_pair_keeps [where R = "\<lambda>s t. same_ends (ping s) (ping t) \<and> same_ends (pong s) (pong t)", OF _ _ _ assms])
    (auto simp: pingpong_turn_def ping_turn_def echo_turn_def Let_def bindE_def dest: chan_ops_ends
      intro: same_ends_trans split: if_splits sum.splits ping_pc.splits echo_pc.splits)

subsection \<open>Both processes in place\<close>

text \<open>A pair of handles on a fresh block, whatever pids have been entered since.\<close>

lemma fresh_chan:
  assumes "fresh_handle cap0 r p" "fresh_handle cap0 r' q" "fresh_block b cap0 bytes role pid c"
    "writeIdx (objs w ob) = writeIdx c" "readIdx (objs w ob) = readIdx c" "max 1 (unat cap0) + 1 \<le> length xs"
  shows "chan_ok \<lparr>pend = p, cend = q, mem = segment_of w ob xs\<rparr>" "chan_items \<lparr>pend = p, cend = q, mem = segment_of w ob xs\<rparr> = []"
proof -
  have caps: "cap p = max 1 (unat cap0) + 1" "cap q = max 1 (unat cap0) + 1" using assms(1,2) by (simp_all add: fresh_handle_def)
  note inv = fresh_invariants [where m = "segment_of w ob xs", unfolded segment_of_def shm.select_convs, OF _ assms(3-5)]
  show "chan_ok \<lparr>pend = p, cend = q, mem = segment_of w ob xs\<rparr>" "chan_items \<lparr>pend = p, cend = q, mem = segment_of w ob xs\<rparr> = []"
    using inv(1) [OF assms(1)] inv(2,3) [OF assms(2)] caps assms(6) by (simp_all add: chan_ok_def chan_items_def segment_of_def)
qed

text \<open>
  The child gets through: it can open the object under the name and its calls leave the parent's
  mappings and names alone.
\<close>

definition child_can :: "'k host \<Rightarrow> ('k \<Rightarrow> kview) \<Rightarrow> ('k \<Rightarrow> kview) \<Rightarrow> binary \<Rightarrow> string \<Rightarrow> role \<Rightarrow> oid \<Rightarrow> queue \<Rightarrow> 'k world \<Rightarrow> bool" where
  "child_can G view' view b name role ob q w \<longleftrightarrow> other_sees G view' name ob (size_m (seg_m q)) w \<and>
     (\<forall>r w'. attach G b name role 5000 w = Some (r, w') \<longrightarrow> undisturbed view w w')"

lemma child_attaches:
  assumes H: "shm_host H view time" and G: "shm_host G view' time'"
    and f: "fresh_block b cap0 (size_m (seg_m q)) role pid (objs w2 ob)" "fresh_handle cap0 role q" and q: "sound H view ob q w2"
    and can: "child_can G view' view b name role' ob q w2" and role: "role' \<noteq> role" and pid: "0 < sint (getpid G)"
  obtains c w3 where "attach G b name role' 5000 w2 = Some (Inr c, w3)" "sound H view ob q w3" "undisturbed view w2 w3"
    "0 < sint (peer_slot (role_m q) (objs w3 ob))" "fresh_handle cap0 role' c"
    "objs w3 = (objs w2)(ob := set_pid_slot role' (getpid G) (objs w2 ob))"
proof -
  have sees: "other_sees G view' name ob (size_m (seg_m q)) w2" using can by (simp add: child_can_def)
  obtain c w3 where at: "attach G b name role' 5000 w2 = Some (Inr c, w3)" "fresh_handle cap0 role' c"
      "objs w3 = (objs w2)(ob := set_pid_slot role' (getpid G) (objs w2 ob))"
    by (rule attach_fresh [OF G f(1) sees role, of 5000])
  have u: "undisturbed view w2 w3" using can at(1) by (simp add: child_can_def)
  have "peer_slot (role_m q) (objs w3 ob) = getpid G"
    using f(2) role slot_of_role [OF role, of "objs w3 ob"] by (simp add: fresh_handle_def at(3))
  then show ?thesis using that [OF at(1) shm_host.sound_undisturbed [OF H q u] u] at pid by simp
qed

lemma no_peer_yet: "fresh_block b cap0 bytes role pid c \<Longrightarrow> fresh_handle cap0 role q \<Longrightarrow> \<not> 0 < sint (peer_slot (role_m q) c)"
  by (simp add: fresh_block_def fresh_handle_def)

lemma tput_started:
  assumes H: "shm_host H view time" and G: "shm_host G view' time'" and b: "binary_ok b" "unat (sizeof_T b) < 2 ^ 32"
    and cr: "create H b kName cap0 Producer w = (Inr q, w1)" "reaches H q w1 = Some ob" and quiet: "quiet H view {ob}"
    and can: "\<forall>d w2. polls H 5000 late q w1 = Inr (d, w2) \<longrightarrow> child_can G view' view b kName Consumer ob q w2" and pid: "0 < sint (getpid G)"
  obtains (late) r w2 where "polls H 5000 late q w1 = Inl r" "tput_start H G b late cap0 w = Some (Inr (q, False, None), w2)" "sound H view ob q w2"
      "time (kern w1) + 5000 * 1000000 \<le> time (kern w2)"
  | (there) c d w2 w3 where "polls H 5000 late q w1 = Inr (d, w2)" "attach G b kName Consumer 5000 w2 = Some (Inr c, w3)"
      "tput_start H G b late cap0 w = Some (Inr (q, True, Some c), w3)" "sound H view ob q w3"
      "chan_ok \<lparr>pend = q, cend = c, mem = segment_of w3 ob (replicate (cap q) zero_message)\<rparr>"
      "chan_items \<lparr>pend = q, cend = c, mem = segment_of w3 ob (replicate (cap q) zero_message)\<rparr> = []"
proof -
  note f = created_fresh [OF H b cr]
  have s1: "sound H view ob q w1" by (rule shm_host.sound_created(1) [OF H cr]) (simp add: kName_def)
  note p1 = shm_host.polls_quiet [OF H quiet insertI1 s1 no_peer_yet [OF f(1,2)], of 5000 late]
  show ?thesis
  proof (cases "polls H 5000 late q w1")
    case (Inl r)
    obtain w2 where r: "r = (Inr False, w2)" "kept view {ob} w1 w2" "time (kern w1) + 5000 * 1000000 \<le> time (kern w2)"
      using p1 Inl by (cases r) auto
    have "sound H view ob q w2" using shm_host.sound_undisturbed [OF H s1] r(2) by (simp add: kept_def)
    moreover have "tput_start H G b late cap0 w = Some (Inr (q, False, None), w2)"
      using cr(1) Inl r(1) by (simp add: tput_start_def wait_with_def)
    ultimately show ?thesis using late [OF Inl] r(3) by blast
  next
    case (Inr dw)
    obtain d w2 where dw: "dw = (d, w2)" by force
    have k2: "kept view {ob} w1 w2" using p1 Inr dw by simp
    then have s2: "sound H view ob q w2" and o2: "objs w2 ob = objs w1 ob" using shm_host.sound_undisturbed [OF H s1] by (simp_all add: kept_def)
    note pl = Inr [unfolded dw]
    obtain c w3 where at: "attach G b kName Consumer 5000 w2 = Some (Inr c, w3)" "sound H view ob q w3"
        "0 < sint (peer_slot (role_m q) (objs w3 ob))" "fresh_handle cap0 Consumer c"
        "objs w3 = (objs w2)(ob := set_pid_slot Consumer (getpid G) (objs w2 ob))"
      by (rule child_attaches [OF H G f(1) [folded o2] f(2) s2]) (use can pl pid in auto)
    have st: "tput_start H G b late cap0 w = Some (Inr (q, True, Some c), w3)"
      using cr(1) shm_host.wait_with_there [where act = "attach G b kName Consumer 5000", OF H pl at(1-3)] by (simp add: tput_start_def)
    have "cap q = max 1 (unat cap0) + 1" using f(2) by (simp add: fresh_handle_def)
    then show ?thesis
      using there [OF pl at(1) st at(2)] fresh_chan [OF f(2) at(4) f(1), of w3 ob "replicate (cap q) zero_message"] at(5) o2 by simp
  qed
qed

text \<open>The end of a transfer: every message has arrived.\<close>

lemma tput_ended:
  assumes c: "chan_ok c" "chan_items c = []" "batch \<noteq> 0"
    and run: "run_pair (tput_turn ndebug total_n batch) sched n (tput_init batch c) = Inr s"
    and fin: "\<not> (sentCount s < total_n \<or> gotCount s < total_n)"
  shows "taken s = pushed s" "length (taken s) = unat total_n"
proof -
  have inv: "tput_inv total_n batch s" using tput.run_safe [OF tput_init_inv [OF c, of total_n], of ndebug sched n] run by simp
  then have "sentCount s \<le> total_n" "gotCount s \<le> total_n"
    by (auto simp: tput_inv_def word_le_nat_alt)
  then have "tput_final total_n s" using fin by (simp add: tput_final_def)
  then have l: "length (pushed s) = unat total_n" "length (taken s) = unat total_n" using tput_final_iff [OF inv] by auto
  then show "taken s = pushed s" "length (taken s) = unat total_n" using inv by (auto simp: tput_inv_def)
qed

lemma bench_batch: "(cap0, batch) \<in> set bench_configs \<Longrightarrow> batch \<noteq> 0"
  by (auto simp: bench_configs_def)

text \<open>A run that has begun ends in one way only, and does end under a fair schedule.\<close>

definition transferred :: "u64 \<Rightarrow> tput \<Rightarrow> bool" where
  "transferred total_n s \<longleftrightarrow> taken s = pushed s \<and> length (taken s) = unat total_n"

definition tput_done :: "'k host \<Rightarrow> ('k \<Rightarrow> kview) \<Rightarrow> oid \<Rightarrow> queue \<Rightarrow> u64 \<Rightarrow> (err + tput option) \<times> 'k world \<Rightarrow> bool" where
  "tput_done H view ob q total_n = (\<lambda>(r, w). \<exists>s. r = Inr (Some s) \<and> transferred total_n s \<and> released H view ob q w)"

text \<open>The run was given up, when the clock had reached \<open>t\<close>.\<close>

definition tput_given_up :: "'k host \<Rightarrow> ('k \<Rightarrow> kview) \<Rightarrow> ('k \<Rightarrow> nat) \<Rightarrow> oid \<Rightarrow> queue \<Rightarrow> nat \<Rightarrow> (err + tput option) \<times> 'k world \<Rightarrow> bool" where
  "tput_given_up H view time ob q t = (\<lambda>(r, w). r = Inr None \<and> released H view ob q w \<and> t \<le> time (kern w))"

lemma released_same: "same_handle q q' \<Longrightarrow> released H view ob q' w = released H view ob q w"
  by (simp add: released_def same_handle_def)

lemma tput_run_ends:
  assumes H: "shm_host H view time" and pid: "getpid H \<noteq> - 1" and batch: "batch \<noteq> 0"
    and st: "tput_start H G b late cap0 w = Some (Inr (q, True, Some c), w1)" and q: "sound H view ob q w1"
    and ok: "chan_ok \<lparr>pend = q, cend = c, mem = segment_of w1 ob (replicate (cap q) zero_message)\<rparr>"
      "chan_items \<lparr>pend = q, cend = c, mem = segment_of w1 ob (replicate (cap q) zero_message)\<rparr> = []"
  shows "tput_run H G b ndebug total_n cap0 batch late sched n w = Some res \<Longrightarrow> tput_done H view ob q total_n res \<and>
      kern (snd res) = snd (seg_reset (posix_of H) (seg_m q) (kern w1))"
    and "fair sched \<Longrightarrow> \<exists>n res. tput_run H G b ndebug total_n cap0 batch late sched n w = Some res"
proof -
  define s0 where "s0 = tput_init batch \<lparr>pend = q, cend = c, mem = segment_of w1 ob (replicate (cap q) zero_message)\<rparr>"
  have reach: "reaches H q w1 = Some ob" using q by (simp add: sound_def)
  have run: "tput_run H G b ndebug total_n cap0 batch late sched n w =
      (case run_pair (tput_turn ndebug total_n batch) sched n s0 of
         Inl f \<Rightarrow> Some (Inl (Faults f), w1)
       | Inr s \<Rightarrow> if sentCount s < total_n \<or> gotCount s < total_n then None
           else case drop_all H [pend (link s)] (store ob (block (mem (link s))) w1) of
                  (Inl e, w2) \<Rightarrow> Some (Inl e, w2) | (Inr _, w2) \<Rightarrow> Some (Inr (Some s), w2))" for n
    by (simp add: tput_run_def st reach s0_def)
  have ends: "(\<exists>w2. drop_all H [pend (link s)] (store ob (block (mem (link s))) w1) = (Inr (), w2) \<and>
       tput_done H view ob q total_n (Inr (Some s), w2) \<and> kern w2 = snd (seg_reset (posix_of H) (seg_m q) (kern w1)))"
    if r: "run_pair (tput_turn ndebug total_n batch) sched n s0 = Inr s" and fin: "\<not> (sentCount s < total_n \<or> gotCount s < total_n)" for n s
  proof -
    have same: "same_handle q (pend (link s))" using tput_ends [OF r] by (simp add: s0_def tput_init_def same_ends_def)
    have "sound H view ob (pend (link s)) (store ob (block (mem (link s))) w1)" by (rule sound_same [OF q same]) simp
    then obtain q' w2 where d: "detach H (pend (link s)) (store ob (block (mem (link s))) w1) = (Inr q', w2)" "released H view ob (pend (link s)) w2"
        "kern w2 = snd (seg_reset (posix_of H) (seg_m (pend (link s))) (kern (store ob (block (mem (link s))) w1)))"
      by (rule shm_host.detach_sound [OF H _ pid]) (rule that)
    moreover have "seg_m (pend (link s)) = seg_m q" using same by (simp add: same_handle_def)
    ultimately show ?thesis using iffD1 [OF released_same [OF same] d(2)] tput_ended [OF ok batch r [unfolded s0_def] fin] by (simp add: tput_done_def transferred_def)
  qed
  show "tput_done H view ob q total_n res \<and> kern (snd res) = snd (seg_reset (posix_of H) (seg_m q) (kern w1))"
    if "tput_run H G b ndebug total_n cap0 batch late sched n w = Some res"
  proof -
    obtain s where s: "run_pair (tput_turn ndebug total_n batch) sched n s0 = Inr s"
      using tput.run_safe [OF tput_init_inv [OF ok batch, of total_n], of ndebug sched n] by (auto simp: s0_def)
    then have "\<not> (sentCount s < total_n \<or> gotCount s < total_n)" using that by (auto simp: run)
    from ends [OF s this] show ?thesis using that s by (auto simp: run split: if_splits)
  qed
  show "\<exists>n res. tput_run H G b ndebug total_n cap0 batch late sched n w = Some res" if fair: "fair sched"
  proof -
    obtain n s where s: "run_pair (tput_turn ndebug total_n batch) sched n s0 = Inr s" "tput_final total_n s"
      using tput.completes [OF fair tput_init_inv [OF ok batch, of total_n], of ndebug] by (auto simp: s0_def)
    then have "\<not> (sentCount s < total_n \<or> gotCount s < total_n)" by (simp add: tput_final_def)
    from ends [OF s(1) this] this s(1) show ?thesis by (auto simp: run intro!: exI [of _ n])
  qed
qed

text \<open>Lines 47--51: a parent that has waited in vain for its child gives the run up, having released what it held.\<close>

lemma tput_run_gives_up:
  assumes H: "shm_host H view time" and pid: "getpid H \<noteq> - 1"
    and st: "tput_start H G b late cap0 w = Some (Inr (q, False, child), w1)" and q: "sound H view ob q w1" and t: "t \<le> time (kern w1)"
  shows "\<exists>res. tput_run H G b ndebug total_n cap0 batch late sched n w = Some res \<and> tput_given_up H view time ob q t res"
  by (rule shm_host.detach_sound [OF H q pid]) (use t in \<open>simp add: tput_run_def st tput_given_up_def\<close>)

text \<open>Both ways a run of the throughput benchmark can end.\<close>

lemma tput_outcomes:
  assumes H: "shm_host H view time" and G: "shm_host G view' time'" and b: "binary_ok b" "unat (sizeof_T b) < 2 ^ 32" and batch: "batch \<noteq> 0"
    and cr: "create H b kName cap0 Producer w = (Inr q, w1)" "reaches H q w1 = Some ob" and quiet: "quiet H view {ob}"
    and can: "\<forall>d w2. polls H 5000 late q w1 = Inr (d, w2) \<longrightarrow> child_can G view' view b kName Consumer ob q w2"
    and pid: "getpid H \<noteq> - 1" "0 < sint (getpid G)"
  shows "tput_run H G b ndebug total_n cap0 batch late sched n w = Some res \<Longrightarrow>
      (case polls H 5000 late q w1 of
         Inl _ \<Rightarrow> tput_given_up H view time ob q (time (kern w1) + 5000 * 1000000) res
       | Inr _ \<Rightarrow> tput_done H view ob q total_n res)"
    and "fair sched \<Longrightarrow> \<exists>n res. tput_run H G b ndebug total_n cap0 batch late sched n w = Some res"
proof -
  have "(tput_run H G b ndebug total_n cap0 batch late sched n w = Some res \<longrightarrow>
      (case polls H 5000 late q w1 of
         Inl _ \<Rightarrow> tput_given_up H view time ob q (time (kern w1) + 5000 * 1000000) res
       | Inr _ \<Rightarrow> tput_done H view ob q total_n res)) \<and>
    (fair sched \<longrightarrow> (\<exists>n res. tput_run H G b ndebug total_n cap0 batch late sched n w = Some res))" for n res
  proof (rule tput_started [OF H G b cr quiet can pid(2)])
    fix r w2 assume pl: "polls H 5000 late q w1 = Inl r" and st: "tput_start H G b late cap0 w = Some (Inr (q, False, None), w2)" "sound H view ob q w2"
      "time (kern w1) + 5000 * 1000000 \<le> time (kern w2)"
    have "\<exists>res. tput_run H G b ndebug total_n cap0 batch late sched n w = Some res \<and>
        tput_given_up H view time ob q (time (kern w1) + 5000 * 1000000) res" for n by (rule tput_run_gives_up [OF H pid(1) st])
    then show ?thesis unfolding pl sum.case by (metis option.inject)
  next
    fix c d w2 w3 assume pl: "polls H 5000 late q w1 = Inr (d, w2)"
      and st: "tput_start H G b late cap0 w = Some (Inr (q, True, Some c), w3)" "sound H view ob q w3"
      "chan_ok \<lparr>pend = q, cend = c, mem = segment_of w3 ob (replicate (cap q) zero_message)\<rparr>"
      "chan_items \<lparr>pend = q, cend = c, mem = segment_of w3 ob (replicate (cap q) zero_message)\<rparr> = []"
    show ?thesis using tput_run_ends [OF H pid(1) batch st] pl by auto
  qed
  then show "tput_run H G b ndebug total_n cap0 batch late sched n w = Some res \<Longrightarrow>
      (case polls H 5000 late q w1 of
         Inl _ \<Rightarrow> tput_given_up H view time ob q (time (kern w1) + 5000 * 1000000) res
       | Inr _ \<Rightarrow> tput_done H view ob q total_n res)"
    and "fair sched \<Longrightarrow> \<exists>n res. tput_run H G b ndebug total_n cap0 batch late sched n w = Some res" by blast+
qed

subsection \<open>The latency benchmark in place\<close>

lemma created_apart:
  assumes H: "shm_host H view time" and p: "sound H view ob p w1"
    and q: "create H b name cap0 role w1 = (Inr q, w2)" "reaches H q w2 = Some ob'" and known: "ob \<in> known (view (kern w1))"
  shows "ctrl_m p \<noteq> ctrl_m q" "ob \<noteq> ob'"
proof -
  obtain ob1 a bytes where c: "ob1 \<notin> known (view (kern w1))" "maps (view (kern w1)) a = None" "ctrl_m q = Some a"
      "maps (view (kern w2)) = (maps (view (kern w1)))(a \<mapsto> (ob1, bytes))"
    by (rule shm_host.create_ok [OF H q(1)]) (auto intro: that)
  have "reaches H p w1 = Some ob" using p by (simp add: sound_def)
  then show "ctrl_m p \<noteq> ctrl_m q" using c by (auto simp: shm_host.reaches_iff [OF H])
  show "ob \<noteq> ob'" using c q(2) known by (auto simp: shm_host.reaches_iff [OF H])
qed

text \<open>The two queues of the parent, as it has created them.\<close>

definition two_queues :: "'k host \<Rightarrow> ('k \<Rightarrow> kview) \<Rightarrow> oid \<Rightarrow> queue \<Rightarrow> oid \<Rightarrow> queue \<Rightarrow> 'k world \<Rightarrow> bool" where
  "two_queues H view ob p ob' q w \<longleftrightarrow> sound H view ob p w \<and> sound H view ob' q w \<and> ctrl_m p \<noteq> ctrl_m q \<and> ob \<noteq> ob' \<and>
     name_m (seg_m p) = kPing \<and> name_m (seg_m q) = kPong \<and> role_m p = Producer \<and> role_m q = Consumer"

lemma names_ok [simp]: "validateName kName = Inr ()" "validateName kPing = Inr ()" "validateName kPong = Inr ()" "c_str kPing \<noteq> c_str kPong"
  by (simp_all add: validateName_ok_iff kName_def kPing_def kPong_def c_str_def)

lemma two_queues_created:
  assumes H: "shm_host H view time" and b: "binary_ok b" "unat (sizeof_T b) < 2 ^ 32"
    and cp: "create H b kPing 64 Producer w = (Inr p, w1)" "reaches H p w1 = Some ob"
    and cq: "create H b kPong 64 Consumer w1 = (Inr q, w2)" "reaches H q w2 = Some ob'"
  shows "two_queues H view ob p ob' q w2"
proof -
  have n: "kPing \<noteq> []" "kPong \<noteq> []" by (simp_all add: kPing_def kPong_def)
  note p = shm_host.sound_created [OF H cp n(1)] and q = shm_host.sound_created [OF H cq n(2)]
  show ?thesis
    using p q shm_host.sound_undisturbed [OF H p(1) q(2)] created_apart [OF H p(1) cq created_fresh(5) [OF H b cp]] by (simp add: two_queues_def)
qed

lemma two_queues_undisturbed:
  "shm_host H view time \<Longrightarrow> two_queues H view ob p ob' q w \<Longrightarrow> undisturbed view w w' \<Longrightarrow> two_queues H view ob p ob' q w'"
  unfolding two_queues_def using shm_host.sound_undisturbed by blast

lemma drop_both:
  assumes H: "shm_host H view time" and t: "two_queues H view ob p ob' q w" and pid: "getpid H \<noteq> - 1"
    and same: "same_handle p p'" "same_handle q q'"
  obtains w' where "drop_all H [q', p'] w = (Inr (), w')" "released H view ob p w'" "released H view ob' q w'" "time (kern w) \<le> time (kern w')"
proof -
  have s: "sound H view ob p w" "sound H view ob' q w" using t by (simp_all add: two_queues_def)
  have ne: "ctrl_m p' \<noteq> ctrl_m q'" "ob \<noteq> ob'" "c_str (name_m (seg_m p')) \<noteq> c_str (name_m (seg_m q'))"
    using t same by (simp_all add: two_queues_def same_handle_def)
  show ?thesis
    by (rule shm_host.drop_two [OF H sound_same [OF s(2) same(2) refl] sound_same [OF s(1) same(1) refl] ne pid])
      (use that released_same [OF same(1), of H view ob] released_same [OF same(2), of H view ob'] in auto)
qed

text \<open>How the two waits can go.\<close>

lemma latency_started:
  assumes H: "shm_host H view time" and G: "shm_host G view' time'" and b: "binary_ok b" "unat (sizeof_T b) < 2 ^ 32"
    and cp: "create H b kPing 64 Producer w = (Inr p, w1)" "reaches H p w1 = Some ob"
    and cq: "create H b kPong 64 Consumer w1 = (Inr q, w2)" "reaches H q w2 = Some ob'" and quiet: "quiet H view {ob, ob'}"
    and can: "\<forall>d w3. polls H 5000 late p w2 = Inr (d, w3) \<longrightarrow> child_can G view' view b kPing Consumer ob p w3"
      "\<forall>d w3 i w4 d' w5. polls H 5000 late p w2 = Inr (d, w3) \<and> attach G b kPing Consumer 5000 w3 = Some (Inr i, w4) \<and>
         polls H 5000 late' q w4 = Inr (d', w5) \<longrightarrow> child_can G view' view b kPong Producer ob' q w5"
    and pid: "0 < sint (getpid G)"
  defines "xs \<equiv> replicate (cap p) zero_message" and "ys \<equiv> replicate (cap q) zero_message"
  obtains (late) r w3 where "polls H 5000 late p w2 = Inl r" "latency_start H G b late late' w = Some (Inr ((p, q), False, None), w3)"
      "two_queues H view ob p ob' q w3" "time (kern w2) + 5000 * 1000000 \<le> time (kern w3)"
  | (later) d w3 i w4 r w5 where "polls H 5000 late p w2 = Inr (d, w3)" "attach G b kPing Consumer 5000 w3 = Some (Inr i, w4)"
      "polls H 5000 late' q w4 = Inl r" "latency_start H G b late late' w = Some (Inr ((p, q), False, None), w5)"
      "two_queues H view ob p ob' q w5" "time (kern w4) + 5000 * 1000000 \<le> time (kern w5)"
  | (there) d w3 i w4 d' w5 out w6 where "polls H 5000 late p w2 = Inr (d, w3)" "attach G b kPing Consumer 5000 w3 = Some (Inr i, w4)"
      "polls H 5000 late' q w4 = Inr (d', w5)" "latency_start H G b late late' w = Some (Inr ((p, q), True, Some (i, out)), w6)"
      "two_queues H view ob p ob' q w6"
      "chan_ok \<lparr>pend = p, cend = i, mem = segment_of w6 ob xs\<rparr>" "chan_items \<lparr>pend = p, cend = i, mem = segment_of w6 ob xs\<rparr> = []"
      "chan_ok \<lparr>pend = out, cend = q, mem = segment_of w6 ob' ys\<rparr>" "chan_items \<lparr>pend = out, cend = q, mem = segment_of w6 ob' ys\<rparr> = []"
proof -
  note fp = created_fresh [OF H b cp] and fq = created_fresh [OF H b cq]
  have t2: "two_queues H view ob p ob' q w2" by (rule two_queues_created [OF H b cp cq])
  have ne: "ob \<noteq> ob'" and s2: "sound H view ob p w2" using t2 by (simp_all add: two_queues_def)
  have o2: "objs w2 ob = objs w1 ob" using fq(3) ne by (metis fun_upd_other)
  have in2: "ob \<in> {ob, ob'}" "ob' \<in> {ob, ob'}" by simp_all
  note p1 = shm_host.polls_quiet [OF H quiet in2(1) s2 no_peer_yet [OF fp(1) [folded o2] fp(2)], of 5000 late]
  show ?thesis
  proof (cases "polls H 5000 late p w2")
    case (Inl r)
    obtain w3 where r: "r = (Inr False, w3)" "undisturbed view w2 w3" "time (kern w2) + 5000 * 1000000 \<le> time (kern w3)"
      using p1 Inl by (cases r) (auto simp: kept_def)
    have "latency_start H G b late late' w = Some (Inr ((p, q), False, None), w3)"
      using cp(1) cq(1) Inl r(1) by (simp add: latency_start_def wait_with_def)
    then show ?thesis using late [OF Inl] two_queues_undisturbed [OF H t2 r(2)] r(3) by blast
  next
    case (Inr dw)
    obtain d w3 where dw: "dw = (d, w3)" by force
    note pl = Inr [unfolded dw]
    have k3: "undisturbed view w2 w3" "objs w3 ob = objs w1 ob" "objs w3 ob' = objs w2 ob'" using p1 pl o2 by (simp_all add: kept_def)
    note t3 = two_queues_undisturbed [OF H t2 k3(1)]
    have s3: "sound H view ob p w3" using t3 by (simp add: two_queues_def)
    obtain i w4 where at: "attach G b kPing Consumer 5000 w3 = Some (Inr i, w4)" "sound H view ob p w4" "undisturbed view w3 w4"
        "0 < sint (peer_slot (role_m p) (objs w4 ob))" "fresh_handle 64 Consumer i"
        "objs w4 = (objs w3)(ob := set_pid_slot Consumer (getpid G) (objs w3 ob))"
      by (rule child_attaches [OF H G fp(1) [folded k3(2)] fp(2) s3]) (use can(1) pl pid in auto)
    note t4 = two_queues_undisturbed [OF H t3 at(3)]
    have s4: "sound H view ob' q w4" and o4: "objs w4 ob' = objs w2 ob'" using t4 at(6) k3(3) ne by (simp_all add: two_queues_def)
    have wait1: "wait_with H 5000 late (attach G b kPing Consumer 5000) p w2 = Some (Inr True, Some (Inr i), w4)"
      by (rule shm_host.wait_with_there [where act = "attach G b kPing Consumer 5000", OF H pl at(1,2,4)])
    note p2 = shm_host.polls_quiet [OF H quiet in2(2) s4 no_peer_yet [OF fq(1) [folded o4] fq(2)], of 5000 late']
    show ?thesis
    proof (cases "polls H 5000 late' q w4")
      case (Inl r)
      obtain w5 where r: "r = (Inr False, w5)" "undisturbed view w4 w5" "time (kern w4) + 5000 * 1000000 \<le> time (kern w5)"
        using p2 Inl by (cases r) (auto simp: kept_def)
      have "latency_start H G b late late' w = Some (Inr ((p, q), False, None), w5)"
        using cp(1) cq(1) wait1 Inl r(1) by (simp add: latency_start_def wait_with_def [of H 5000 late' "latency_child G b (Some (Inr i))"])
      then show ?thesis using later [OF pl at(1) Inl] two_queues_undisturbed [OF H t4 r(2)] r(3) by blast
    next
      case (Inr dw')
      obtain d' w5 where dw': "dw' = (d', w5)" by force
      note pl' = Inr [unfolded dw']
      have k5: "undisturbed view w4 w5" "objs w5 ob' = objs w2 ob'" "objs w5 ob = objs w4 ob" using p2 pl' o4 by (simp_all add: kept_def)
      note t5 = two_queues_undisturbed [OF H t4 k5(1)]
      have s5: "sound H view ob' q w5" using t5 by (simp add: two_queues_def)
      obtain out w6 where at': "attach G b kPong Producer 5000 w5 = Some (Inr out, w6)" "sound H view ob' q w6" "undisturbed view w5 w6"
          "0 < sint (peer_slot (role_m q) (objs w6 ob'))" "fresh_handle 64 Producer out"
          "objs w6 = (objs w5)(ob' := set_pid_slot Producer (getpid G) (objs w5 ob'))"
        by (rule child_attaches [OF H G fq(1) [folded k5(2)] fq(2) s5]) (use can(2) pl at(1) pl' pid in auto)
      have act: "latency_child G b (Some (Inr i)) w5 = Some (Some (i, out), w6)" using at'(1) by (simp add: latency_child_def)
      have "wait_with H 5000 late' (latency_child G b (Some (Inr i))) q w4 = Some (Inr True, Some (Some (i, out)), w6)"
        by (rule shm_host.wait_with_there [where act = "latency_child G b (Some (Inr i))", OF H pl' act at'(2,4)])
      then have st: "latency_start H G b late late' w = Some (Inr ((p, q), True, Some (i, out)), w6)"
        using cp(1) cq(1) wait1 by (simp add: latency_start_def)
      have o6: "objs w6 ob = set_pid_slot Consumer (getpid G) (objs w1 ob)" "objs w6 ob' = set_pid_slot Producer (getpid G) (objs w2 ob')"
        using at'(6) at(6) ne k3 k5 by simp_all
      have caps: "max 1 (unat (64 :: u64)) + 1 \<le> length xs" "max 1 (unat (64 :: u64)) + 1 \<le> length ys"
        using fp(2) fq(2) by (simp_all add: fresh_handle_def xs_def ys_def)
      show ?thesis
        by (rule there [OF pl at(1) pl' st two_queues_undisturbed [OF H t5 at'(3)]];
            (rule fresh_chan [OF fp(2) at(5) fp(1)] | rule fresh_chan [OF at'(5) fq(2) fq(1)])) (use o6 caps in \<open>simp_all\<close>)
    qed
  qed
qed

subsection \<open>How the latency benchmark ends\<close>

text \<open>With the memory for the samples granted: the measurement.\<close>

definition latency_done :: "'k host \<Rightarrow> ('k \<Rightarrow> kview) \<Rightarrow> oid \<Rightarrow> queue \<Rightarrow> oid \<Rightarrow> queue \<Rightarrow> u64 \<Rightarrow> (err + nat \<times> pingpong option) \<times> 'k world \<Rightarrow> bool" where
  "latency_done H view ob p ob' q iters = (\<lambda>(r, w).
     if iters = 0 then r = Inl (Faults OutOfBounds)
     else \<exists>s. r = Inr (0, Some s) \<and> length (rtt s) = unat iters \<and> length (oneWay s) = unat iters \<and>
            (\<forall>k < unat iters. oneWay s ! k \<le> rtt s ! k) \<and> chan_items (ping s) = [] \<and> chan_items (pong s) = [] \<and>
            released H view ob p w \<and> released H view ob' q w)"

text \<open>After both waits have seen the child: an exception of \<^verbatim>\<open>reserve\<close>, or the measurement.\<close>

definition latency_ran :: "'k host \<Rightarrow> ('k \<Rightarrow> kview) \<Rightarrow> oid \<Rightarrow> queue \<Rightarrow> oid \<Rightarrow> queue \<Rightarrow> u64 \<Rightarrow> (nat \<Rightarrow> u64 \<Rightarrow> bool) \<Rightarrow> u64 \<Rightarrow>
    (err + nat \<times> pingpong option) \<times> 'k world \<Rightarrow> bool" where
  "latency_ran H view ob p ob' q max_sz alloc iters res \<longleftrightarrow>
     (if max_sz < iters then fst res = Inl (Throws (Length_error ''vector::reserve''))
      else if iters \<noteq> 0 \<and> \<not> (alloc 0 (iters * 8) \<and> alloc 1 (iters * 8)) then fst res = Inl (Throws Bad_alloc)
      else latency_done H view ob p ob' q iters res)"

text \<open>Exit with 1, when the clock had reached \<open>t\<close>.\<close>

definition latency_given_up :: "'k host \<Rightarrow> ('k \<Rightarrow> kview) \<Rightarrow> ('k \<Rightarrow> nat) \<Rightarrow> oid \<Rightarrow> queue \<Rightarrow> oid \<Rightarrow> queue \<Rightarrow> nat \<Rightarrow> (err + nat \<times> pingpong option) \<times> 'k world \<Rightarrow> bool" where
  "latency_given_up H view time ob p ob' q t =
     (\<lambda>(r, w). r = Inr (1, None) \<and> released H view ob p w \<and> released H view ob' q w \<and> t \<le> time (kern w))"

lemma latency_ended:
  assumes H: "shm_host H view time" and pid: "getpid H \<noteq> - 1" and t: "two_queues H view ob p ob' q w"
    and inv: "pingpong_inv clk iters s" "main_pc s = PDone" "unat iters + unat iters div 10 + 1 < 2 ^ 64"
    and same: "same_handle p (pend (ping s))" "same_handle q (cend (pong s))"
  shows "latency_done H view ob p ob' q iters (latency_end H s w)"
proof -
  note l = final_samples [OF inv]
  have r: "list_all2 (\<le>) (oneWay s) (rtt s)" "chan_items (ping s) = []" "chan_items (pong s) = []"
    using inv(1,2) by (simp_all add: pingpong_inv_def Let_def)
  show ?thesis
  proof (cases "iters = 0")
    case True
    then show ?thesis using l by (simp add: latency_done_def latency_end_def latency_report_def printLatency_nonempty(2))
  next
    case False
    then have "unat iters \<noteq> 0" by (simp add: unsigned_eq_0_iff)
    then have "rtt s \<noteq> []" "oneWay s \<noteq> []" using l by auto
    then obtain a b where rep: "latency_report s = (Inr a, Inr b)"
      using printLatency_nonempty(1) [of "rtt s"] printLatency_nonempty(1) [of "oneWay s"] by (auto simp: latency_report_def)
    define w0 w1 where "w0 = w\<lparr>kern := seg_remove (posix_of H) kPing (kern w)\<rparr>" and "w1 = w0\<lparr>kern := seg_remove (posix_of H) kPong (kern w0)\<rparr>"
    have "undisturbed view w w0" "undisturbed view w0 w1" unfolding w0_def w1_def by (rule shm_host.remove_undisturbed [OF H])+
    note t1 = two_queues_undisturbed [OF H two_queues_undisturbed [OF H t this(1)] this(2)]
    obtain w2 where d: "drop_all H [cend (pong s), pend (ping s)] w1 = (Inr (), w2)" "released H view ob p w2" "released H view ob' q w2"
      by (rule drop_both [OF H t1 pid same]) (rule that)
    have "latency_end H s w = (Inr (0, Some s), w2)" using rep d(1) by (simp add: latency_end_def Let_def w1_def w0_def)
    moreover have "\<forall>k < unat iters. oneWay s ! k \<le> rtt s ! k" using r(1) l by (auto simp: list_all2_conv_all_nth)
    ultimately show ?thesis using False l r d by (simp add: latency_done_def)
  qed
qed

lemma latency_reserve_eq:
  "latency_reserve max_sz alloc iters =
     (if max_sz < iters then Inl (Length_error ''vector::reserve'')
      else if iters \<noteq> 0 \<and> \<not> (alloc 0 (iters * 8) \<and> alloc 1 (iters * 8)) then Inl Bad_alloc else Inr ())"
  by (simp add: latency_reserve_def vector_reserve_def)

text \<open>The clock overhead is measured over a fixed number of readings.\<close>

lemma latency_main_begins:
  "latency_main H G b ndebug max_sz alloc late late' clk sched n argv w =
     (case latency_start H G b late late' (w\<lparr>kern := after_reads H 200002 (kern w)\<rparr>) of
        None \<Rightarrow> None
      | Some (Inl e, w1) \<Rightarrow> Some (Inl e, w1)
      | Some (Inr ((p, q), there, child), w1) \<Rightarrow>
          if \<not> there then (case drop_all H [q, p] w1 of (Inl e, w2) \<Rightarrow> Some (Inl e, w2) | (Inr _, w2) \<Rightarrow> Some (Inr (1, None), w2))
          else case latency_reserve max_sz alloc (latency_iters argv) of
                 Inl x \<Rightarrow> Some (Inl (Throws x), w1)
               | Inr _ \<Rightarrow>
                   (case (child, reaches H p w1, reaches H q w1) of
                      (Some (i, out), Some ob, Some ob') \<Rightarrow>
                        (case run_pair (pingpong_turn ndebug clk (latency_iters argv)) sched n
                                (pingpong_init \<lparr>pend = p, cend = i, mem = segment_of w1 ob (replicate (cap p) zero_message)\<rparr>
                                   \<lparr>pend = out, cend = q, mem = segment_of w1 ob' (replicate (cap q) zero_message)\<rparr>) of
                           Inl f \<Rightarrow> Some (Inl (Faults f), w1)
                         | Inr s \<Rightarrow>
                             if main_pc s \<noteq> PDone \<or> echo_pc s \<noteq> EDone then None
                             else Some (latency_end H s (store ob' (block (mem (pong s))) (store ob (block (mem (ping s))) w1))))
                    | _ \<Rightarrow> None))"
proof -
  have "(scast (200000 :: i32) :: u64) \<noteq> 0" by simp
  then obtain ns where "clockOverheadNs (\<lambda>j. of_nat (fst (steady_now H (after_reads H j (kern w))))) 200000 = Some ns"
    by (simp add: clockOverheadNs_def Let_def)
  then show ?thesis unfolding latency_main_def Let_def by (simp only: option.case)
qed

lemma latency_main_ends:
  assumes H: "shm_host H view time" and pid: "getpid H \<noteq> - 1"
    and st: "latency_start H G b late late' (w\<lparr>kern := after_reads H 200002 (kern w)\<rparr>) = Some (Inr ((p, q), True, Some (i, out)), w1)"
    and t: "two_queues H view ob p ob' q w1" and clk: "mono clk" and max_sz: "unat max_sz < 2 ^ 61"
  defines "c \<equiv> \<lparr>pend = p, cend = i, mem = segment_of w1 ob (replicate (cap p) zero_message)\<rparr>"
    and "d \<equiv> \<lparr>pend = out, cend = q, mem = segment_of w1 ob' (replicate (cap q) zero_message)\<rparr>"
  assumes ok: "chan_ok c" "chan_items c = []" "chan_ok d" "chan_items d = []"
  shows "latency_main H G b ndebug max_sz alloc late late' clk sched n argv w = Some res \<Longrightarrow>
      latency_ran H view ob p ob' q max_sz alloc (latency_iters argv) res"
    and "fair sched \<Longrightarrow> \<exists>n res. latency_main H G b ndebug max_sz alloc late late' clk sched n argv w = Some res"
proof -
  let ?main = "latency_main H G b ndebug max_sz alloc late late' clk sched"
  define iters where "iters = latency_iters argv"
  let ?run = "\<lambda>n. run_pair (pingpong_turn ndebug clk iters) sched n (pingpong_init c d)"
  have reach: "reaches H p w1 = Some ob" "reaches H q w1 = Some ob'" using t by (simp_all add: two_queues_def sound_def)
  have run: "?main n argv w =
      (case latency_reserve max_sz alloc iters of Inl x \<Rightarrow> Some (Inl (Throws x), w1)
       | Inr _ \<Rightarrow> (case ?run n of Inl f \<Rightarrow> Some (Inl (Faults f), w1)
           | Inr s \<Rightarrow> if main_pc s \<noteq> PDone \<or> echo_pc s \<noteq> EDone then None
               else Some (latency_end H s (store ob' (block (mem (pong s))) (store ob (block (mem (ping s))) w1)))))" for n
    unfolding latency_main_begins st iters_def
    by (cases "latency_reserve max_sz alloc (latency_iters argv)") (simp_all add: reach c_def d_def)
  note inv = pingpong_init_inv [OF ok clk, of iters]
  have fin: "latency_done H view ob p ob' q iters res"
    if res: "?main n argv w = Some res" and ok: "latency_reserve max_sz alloc iters = Inr ()" and le: "\<not> max_sz < iters" for n res
  proof -
    have len: "unat iters + unat iters div 10 + 1 < 2 ^ 64" using le max_sz by (simp add: word_less_nat_alt)
    obtain s where s: "?run n = Inr s" "pingpong_inv clk iters s" using pingpong.run_safe [OF inv, of ndebug sched n] by blast
    have same: "same_handle p (pend (ping s))" "same_handle q (cend (pong s))"
      using pingpong_ends [OF s(1)] by (simp_all add: pingpong_init_def same_ends_def c_def d_def)
    define w2 where "w2 = store ob' (block (mem (pong s))) (store ob (block (mem (ping s))) w1)"
    have "undisturbed view w1 w2" by (rule undisturbed_same) (simp add: w2_def)
    note t2 = two_queues_undisturbed [OF H t this]
    show ?thesis
      using res s(1) ok latency_ended [OF H pid t2 s(2) _ len same] by (auto simp: run w2_def split: if_splits)
  qed
  show "latency_ran H view ob p ob' q max_sz alloc (latency_iters argv) res" if "?main n argv w = Some res" for n
    using that fin [OF that] run [of n] unfolding latency_reserve_eq latency_ran_def iters_def [symmetric] by (auto split: if_splits)
  show "\<exists>n res. ?main n argv w = Some res" if fair: "fair sched"
  proof -
    obtain n s where "?run n = Inr s" "pingpong_final s" using pingpong.completes [OF fair inv, of ndebug] by blast
    then show ?thesis by (intro exI [of _ n]) (auto simp: run pingpong_final_def split: sum.splits)
  qed
qed

text \<open>Lines 56--61: a parent that has waited in vain exits with 1, having released both queues.\<close>

lemma latency_main_gives_up:
  assumes H: "shm_host H view time" and pid: "getpid H \<noteq> - 1"
    and st: "latency_start H G b late late' (w\<lparr>kern := after_reads H 200002 (kern w)\<rparr>) = Some (Inr ((p, q), False, child), w1)"
    and t: "two_queues H view ob p ob' q w1" "tm \<le> time (kern w1)"
  shows "\<exists>res. latency_main H G b ndebug max_sz alloc late late' clk sched n argv w = Some res \<and> latency_given_up H view time ob p ob' q tm res"
  by (rule drop_both [OF H t(1) pid, of p q]) (use t(2) in \<open>simp_all add: latency_main_begins st latency_given_up_def same_handle_def\<close>)

subsection \<open>Properties\<close>

text \<open>
  C34. Every run of the throughput benchmark, from \<^verbatim>\<open>create\<close> to the destructor, for every schedule and however long the
  child takes to attach. Once the parent's \<^verbatim>\<open>create\<close> has returned, and provided the child, when it gets there, can open the
  object and nobody else meddles with it: if the child attaches before the parent's \<^verbatim>\<open>waitForPeer(5000)\<close> has
  returned, then no schedule makes either process fault, and when the run ends, the child has received exactly the
  \<^verbatim>\<open>total\<close> messages the parent pushed, in order; otherwise the run is given up, and that not before 5000
  milliseconds have passed since \<^verbatim>\<open>create\<close>. In both cases the parent has unmapped the segment, unlinked the name and given up its
  pid slot; and under every fair schedule the run ends.
\<close>

theorem bench_throughput_completes:
  assumes "shm_host H view time" "shm_host G view' time'" "binary_ok b" "unat (sizeof_T b) < 2 ^ 32" "(cap0, batch) \<in> set bench_configs"
    and "create H b kName cap0 Producer w = (Inr q, w1)" "reaches H q w1 = Some ob" and "quiet H view {ob}"
    and "\<forall>d w2. polls H 5000 late q w1 = Inr (d, w2) \<longrightarrow> child_can G view' view b kName Consumer ob q w2"
    and "getpid H \<noteq> - 1" "0 < sint (getpid G)"
  shows "(\<forall>sched n res. tput_run H G b ndebug (bench_total argv) cap0 batch late sched n w = Some res \<longrightarrow>
            (case polls H 5000 late q w1 of
               Inr _ \<Rightarrow> tput_done H view ob q (bench_total argv) res
             | Inl _ \<Rightarrow> tput_given_up H view time ob q (time (kern w1) + 5000 * 1000000) res)) \<and>
         (\<forall>sched. fair sched \<longrightarrow> (\<exists>n res. tput_run H G b ndebug (bench_total argv) cap0 batch late sched n w = Some res))"
  using tput_outcomes [OF assms(1-4) bench_batch [OF assms(5)] assms(6-11)] by blast

text \<open>
  C35. The latency benchmark from the command line to its exit code, for every schedule and however long the child takes
  for each of its two attaches. Once the parent has created both queues, and provided the child can open them
  when it gets there and nobody else meddles: if the parent's two waits of 5000 milliseconds see the child, no
  schedule makes a queue operation fault, and the program ends in one of these ways. With more iterations than a vector can hold
  (\<^verbatim>\<open>max_size()\<close>), or without the memory for the samples, \<^verbatim>\<open>reserve\<close> throws and nobody catches it. Otherwise, after at least one
  iteration, it exits with 0 with exactly \<^verbatim>\<open>iters\<close> round trips and one-way times measured, no one-way time above
  its round trip and both queues empty; with zero iterations, which the command line allows, it ends in undefined
  behaviour, as \<^verbatim>\<open>printLatency\<close> reads the last element of an empty vector. If a wait does not see the child, the program exits with
  1, not before the 5000 milliseconds of that wait have passed. At each exit both segments are unmapped, both names
  unlinked and both pid slots given up; and under every fair schedule the program ends.
\<close>

theorem bench_latency_completes:
  assumes "shm_host H view time" "shm_host G view' time'" "binary_ok b" "unat (sizeof_T b) < 2 ^ 32"
    and "create H b kPing 64 Producer (w\<lparr>kern := after_reads H 200002 (kern w)\<rparr>) = (Inr p, w1)" "reaches H p w1 = Some ob"
    and "create H b kPong 64 Consumer w1 = (Inr q, w2)" "reaches H q w2 = Some ob'" and "quiet H view {ob, ob'}"
    and "\<forall>d w3. polls H 5000 late p w2 = Inr (d, w3) \<longrightarrow> child_can G view' view b kPing Consumer ob p w3"
    and "\<forall>d w3 i w4 d' w5. polls H 5000 late p w2 = Inr (d, w3) \<and> attach G b kPing Consumer 5000 w3 = Some (Inr i, w4) \<and>
           polls H 5000 late' q w4 = Inr (d', w5) \<longrightarrow> child_can G view' view b kPong Producer ob' q w5"
    and "getpid H \<noteq> - 1" "0 < sint (getpid G)" "mono clk" "unat max_sz < 2 ^ 61"
  shows "(\<forall>sched n res. latency_main H G b ndebug max_sz alloc late late' clk sched n argv w = Some res \<longrightarrow>
            (case polls H 5000 late p w2 of
               Inl _ \<Rightarrow> latency_given_up H view time ob p ob' q (time (kern w2) + 5000 * 1000000) res
             | Inr (d, w3) \<Rightarrow> (\<exists>i w4. attach G b kPing Consumer 5000 w3 = Some (Inr i, w4) \<and>
                 (case polls H 5000 late' q w4 of
                    Inl _ \<Rightarrow> latency_given_up H view time ob p ob' q (time (kern w4) + 5000 * 1000000) res
                  | Inr _ \<Rightarrow> latency_ran H view ob p ob' q max_sz alloc (latency_iters argv) res)))) \<and>
         (\<forall>sched. fair sched \<longrightarrow> (\<exists>n res. latency_main H G b ndebug max_sz alloc late late' clk sched n argv w = Some res))"
proof (rule latency_started [OF assms(1-11,13)])
  fix r w3 assume pl: "polls H 5000 late p w2 = Inl r"
    and st: "latency_start H G b late late' (w\<lparr>kern := after_reads H 200002 (kern w)\<rparr>) = Some (Inr ((p, q), False, None), w3)"
      "two_queues H view ob p ob' q w3" "time (kern w2) + 5000 * 1000000 \<le> time (kern w3)"
  have "\<exists>res. latency_main H G b ndebug max_sz alloc late late' clk sched n argv w = Some res \<and>
      latency_given_up H view time ob p ob' q (time (kern w2) + 5000 * 1000000) res" for sched n
    by (rule latency_main_gives_up [OF assms(1,12) st])
  then show ?thesis unfolding pl sum.case by (metis option.inject)
next
  fix d w3 i w4 r w5 assume pl: "polls H 5000 late p w2 = Inr (d, w3)" "attach G b kPing Consumer 5000 w3 = Some (Inr i, w4)" "polls H 5000 late' q w4 = Inl r"
    and st: "latency_start H G b late late' (w\<lparr>kern := after_reads H 200002 (kern w)\<rparr>) = Some (Inr ((p, q), False, None), w5)"
      "two_queues H view ob p ob' q w5" "time (kern w4) + 5000 * 1000000 \<le> time (kern w5)"
  have up: "\<exists>res. latency_main H G b ndebug max_sz alloc late late' clk sched n argv w = Some res \<and>
      latency_given_up H view time ob p ob' q (time (kern w4) + 5000 * 1000000) res" for sched n
    by (rule latency_main_gives_up [OF assms(1,12) st])
  then have "latency_given_up H view time ob p ob' q (time (kern w4) + 5000 * 1000000) res"
    if "latency_main H G b ndebug max_sz alloc late late' clk sched n argv w = Some res" for sched n res using that by (metis option.inject)
  then show ?thesis unfolding pl(1) sum.case prod.case using pl(2,3) up by (metis (no_types, lifting) old.sum.simps(5))
next
  fix d w3 i w4 d' w5 out w6 assume pl: "polls H 5000 late p w2 = Inr (d, w3)" "attach G b kPing Consumer 5000 w3 = Some (Inr i, w4)"
      "polls H 5000 late' q w4 = Inr (d', w5)"
    and st: "latency_start H G b late late' (w\<lparr>kern := after_reads H 200002 (kern w)\<rparr>) = Some (Inr ((p, q), True, Some (i, out)), w6)"
      "two_queues H view ob p ob' q w6"
    and ok: "chan_ok \<lparr>pend = p, cend = i, mem = segment_of w6 ob (replicate (cap p) zero_message)\<rparr>"
      "chan_items \<lparr>pend = p, cend = i, mem = segment_of w6 ob (replicate (cap p) zero_message)\<rparr> = []"
      "chan_ok \<lparr>pend = out, cend = q, mem = segment_of w6 ob' (replicate (cap q) zero_message)\<rparr>"
      "chan_items \<lparr>pend = out, cend = q, mem = segment_of w6 ob' (replicate (cap q) zero_message)\<rparr> = []"
  note ends = latency_main_ends [OF assms(1,12) st assms(14,15) ok]
  show ?thesis unfolding pl(1) sum.case prod.case using pl(2,3) ends by (metis (no_types, lifting) old.sum.simps(6))
qed

text \<open>
  C36. Counts survive the command line: a decimal count that fits 64 bits is the number of messages, the
  capacity or the number of iterations the programs work with, whatever the other arguments are; a
  larger one is taken as \<open>2 ^ 64 - 1\<close>, and without the argument the default holds.
\<close>

theorem command_line_counts:
  "let v = (if n < 2 ^ 64 then of_nat n else - 1) in
     fst (producer_args (prog # to_string n # rest)) = v \<and> snd (consumer_args (prog # name # to_string n # rest)) = v \<and>
     bench_total (prog # to_string n # rest) = v \<and> latency_iters (prog # to_string n # rest) = v \<and>
     producer_args [prog] = (5000000, ''/shmspsc_demo'') \<and> consumer_args [prog] = (''/shmspsc_demo'', 8192) \<and>
     bench_total [prog] = 10000000 \<and> latency_iters [prog] = 200000"
  by (simp add: producer_args_def consumer_args_def bench_total_def latency_iters_def strtoull_to_string Let_def)

subsection \<open>Runs on the reference host\<close>

text \<open>Process 42 forks process 43. There each sleep takes the time asked for, so that 5000 polls find the wait still going on.\<close>

lemma ref_pids [simp]: "getpid (ref self) = self" by (simp add: ref_host_def)

lemma ref_quiet [simp]: "quiet (ref self) kv S"
  by (simp add: quiet_def own_name_def ref_host_def)

lemma tidy_reset: "tidy k \<Longrightarrow> tidy (snd (seg_reset (posix_of (ref self)) s k))"
  by (simp add: tidy_def seg_reset_def Let_def ref_host_def ref_posix_def unlinked_def split: option.splits)

definition slept :: "nat \<Rightarrow> kst world \<Rightarrow> kst world" where
  "slept n w = w\<lparr>kern := (kern w)\<lparr>fresh := fresh (kern w) + n * 1000000\<rparr>\<rparr>"

lemma slept_simps [simp]: "kv (kern (slept n w)) = kv (kern w)" "objs (slept n w) = objs w" "tidy (kern w) \<Longrightarrow> tidy (kern (slept n w))"
  by (simp_all add: slept_def tidy_def)

lemma ref_wait_rounds:
  "reaches (ref self) q w = Some ob \<Longrightarrow> \<not> 0 < sint (peer_slot (role_m q) (objs w ob)) \<Longrightarrow> fresh (kern w) + n * 1000000 \<le> d \<Longrightarrow>
   wait_rounds (ref self) d n q w = Inr (slept n w)"
proof (induction n arbitrary: w)
  case (Suc n)
  have u: "usleep (ref self) 1000 w = slept 1 w" "steady_now (ref self) (kern w) = (fresh (kern w), kern w)"
    by (simp_all add: ref_host_def slept_def)
  have r: "reaches (ref self) q (slept 1 w) = Some ob" using Suc.prems(1) by (simp add: refh.reaches_iff)
  have "wait_rounds (ref self) d n q (slept 1 w) = Inr (slept n (slept 1 w))"
    by (rule Suc.IH [OF r]) (use Suc.prems(2,3) in \<open>simp_all add: slept_def\<close>)
  moreover have "slept n (slept 1 w) = slept (Suc n) w" by (simp add: slept_def)
  ultimately show ?case using Suc.prems u by (simp add: deref_def Let_def)
qed (simp add: slept_def)

lemma ref_polls:
  assumes "reaches (ref self) q w = Some ob" "\<not> 0 < sint (peer_slot (role_m q) (objs w ob))" "n \<le> 5000"
  shows "polls (ref self) 5000 n q w = Inr (fresh (kern w) + 5000000000, slept n w)"
proof -
  have "steady_now (ref self) (kern w) = (fresh (kern w), kern w)" by (simp add: ref_host_def)
  then show ?thesis using ref_wait_rounds [OF assms(1,2), of n "fresh (kern w) + 5000000000"] assms(3) by (simp add: polls_def)
qed

text \<open>A child on this host gets through to a fresh object.\<close>

lemma ref_child_can:
  assumes k: "tidy (kern w)" "validateName name = Inr ()" "links (kv (kern w)) (c_str name) = Some ob" "osize (kv (kern w)) ob = sint bytes" "0 < sint bytes"
    and c: "fresh_block b cap0 bytes role pid (objs w ob)" "role' \<noteq> role" "size_m (seg_m q) = bytes"
  shows "child_can (ref self) kv kv b name role' ob q w"
    and "attach (ref self) b name role' 5000 w = Some (r, w2) \<Longrightarrow> tidy (kern w2)"
proof -
  note at = ref_attach [OF k c(1,2)]
  have "undisturbed kv w w2" if "attach (ref self) b name role' 5000 w = Some (r, w2)" for r w2
    using at(2,4,5) [OF that] by (simp add: undisturbed_def own_name_def)
  then show "child_can (ref self) kv kv b name role' ob q w" using ref_sees [OF k] c(3) by (simp add: child_can_def)
  show "attach (ref self) b name role' 5000 w = Some (r, w2) \<Longrightarrow> tidy (kern w2)" by (rule at(1))
qed

lemma bench_sizes:
  assumes "(cap0, batch) \<in> set bench_configs"
  obtains bytes where "bytesNeeded bin48 (clamped cap0) = Inr bytes" "0 < sint bytes"
proof -
  have "0 < cap0" "unat cap0 < 2 ^ 32" "clamped cap0 = cap0" using assms by (auto simp: bench_configs_def clamped_def)
  then show ?thesis using bin48_bytes [of cap0] that by auto
qed

lemma ref_tput:
  assumes "tidy (kern w)" "(cap0, batch) \<in> set bench_configs" "late \<le> 5000"
  obtains q w1 ob d where "create (ref 42) bin48 kName cap0 Producer w = (Inr q, w1)" "reaches (ref 42) q w1 = Some ob"
    "polls (ref 42) 5000 late q w1 = Inr (d, slept late w1)" "child_can (ref 43) kv kv bin48 kName Consumer ob q (slept late w1)"
    "\<forall>r w2. attach (ref 43) bin48 kName Consumer 5000 (slept late w1) = Some (r, w2) \<longrightarrow> tidy (kern w2)"
proof -
  obtain bytes where bn: "bytesNeeded bin48 (clamped cap0) = Inr bytes" "0 < sint bytes" by (rule bench_sizes [OF assms(2)])
  obtain q w1 ob where s: "create (ref 42) bin48 kName cap0 Producer w = (Inr q, w1)" "reaches (ref 42) q w1 = Some ob"
      "size_m (seg_m q) = bytes" "tidy (kern w1)" "links (kv (kern w1)) (c_str kName) = Some ob" "osize (kv (kern w1)) ob = sint bytes"
    by (rule ref_create [OF assms(1) names_ok(1) bn, of 42 Producer])
  note f = created_fresh [OF refh.shm_host_axioms bin48_ok s(1,2), unfolded s(3)]
  have pl: "polls (ref 42) 5000 late q w1 = Inr (fresh (kern w1) + 5000000000, slept late w1)"
    by (rule ref_polls [OF s(2) no_peer_yet [OF f(1,2)] assms(3)])
  have k: "tidy (kern (slept late w1))" "links (kv (kern (slept late w1))) (c_str kName) = Some ob" "osize (kv (kern (slept late w1))) ob = sint bytes"
    "fresh_block bin48 cap0 bytes Producer (getpid (ref 42)) (objs (slept late w1) ob)" using s f(1) by simp_all
  note can = ref_child_can [OF k(1) names_ok(1) k(2,3) bn(2) k(4) role.distinct(2) s(3), of 43]
  then show ?thesis using that [OF s(1,2) pl] by blast
qed

theorem bench_throughput_completes_witness:
  "\<exists>n s w'. tput_run (ref 42) (ref 43) bin48 True 10000000 8192 128 300 even n world_init = Some (Inr (Some s), w') \<and>
     length (taken s) = 10000000 \<and> taken s = pushed s"
proof -
  have conf: "(8192, 128) \<in> set bench_configs" by (simp add: bench_configs_def)
  obtain q w1 ob d where s: "create (ref 42) bin48 kName 8192 Producer world_init = (Inr q, w1)" "reaches (ref 42) q w1 = Some ob"
    "polls (ref 42) 5000 300 q w1 = Inr (d, slept 300 w1)" "child_can (ref 43) kv kv bin48 kName Consumer ob q (slept 300 w1)"
    by (rule ref_tput [OF tidy_init conf, of 300]) auto
  have can: "\<forall>d w2. polls (ref 42) 5000 300 q w1 = Inr (d, w2) \<longrightarrow> child_can (ref 43) kv kv bin48 kName Consumer ob q w2" using s(3,4) by simp
  have pids: "getpid (ref 42) \<noteq> - 1" "0 < sint (getpid (ref 43))" by simp_all
  have tot: "bench_total [] = 10000000" by (simp add: bench_total_def)
  note t = bench_throughput_completes [OF refh.shm_host_axioms refh.shm_host_axioms bin48_ok conf s(1,2) ref_quiet can pids, of True "[]", unfolded tot s(3) sum.case]
  then obtain n res where run: "tput_run (ref 42) (ref 43) bin48 True 10000000 8192 128 300 even n world_init = Some res"
    using fair_even by blast
  then have "tput_done (ref 42) kv ob q 10000000 res" using t by blast
  then show ?thesis using run by (cases res) (auto simp: tput_done_def transferred_def)
qed

text \<open>
  All seven runs one after the other. On the reference host every world is left tidy, so the next run's
  \<^verbatim>\<open>create\<close> succeeds again.
\<close>

lemma ref_tput_run:
  assumes "tidy (kern w)" "(cap0, batch) \<in> set bench_configs" "fair sched" "late \<le> 5000"
  obtains n s w' where "tput_run (ref 42) (ref 43) bin48 ndebug total_n cap0 batch late sched n w = Some (Inr (Some s), w')"
    "transferred total_n s" "tidy (kern w')"
proof -
  note H = refh.shm_host_axioms
  obtain q w1 ob d where s: "create (ref 42) bin48 kName cap0 Producer w = (Inr q, w1)" "reaches (ref 42) q w1 = Some ob"
    "polls (ref 42) 5000 late q w1 = Inr (d, slept late w1)" "child_can (ref 43) kv kv bin48 kName Consumer ob q (slept late w1)"
    "\<forall>r w2. attach (ref 43) bin48 kName Consumer 5000 (slept late w1) = Some (r, w2) \<longrightarrow> tidy (kern w2)"
    by (rule ref_tput [OF assms(1,2,4)])
  have can: "\<forall>d w2. polls (ref 42) 5000 late q w1 = Inr (d, w2) \<longrightarrow> child_can (ref 43) kv kv bin48 kName Consumer ob q w2" using s(3,4) by simp
  obtain c w3 where st: "attach (ref 43) bin48 kName Consumer 5000 (slept late w1) = Some (Inr c, w3)"
    "tput_start (ref 42) (ref 43) bin48 late cap0 w = Some (Inr (q, True, Some c), w3)" "sound (ref 42) kv ob q w3"
    "chan_ok \<lparr>pend = q, cend = c, mem = segment_of w3 ob (replicate (cap q) zero_message)\<rparr>"
    "chan_items \<lparr>pend = q, cend = c, mem = segment_of w3 ob (replicate (cap q) zero_message)\<rparr> = []"
    by (rule tput_started [OF H H bin48_ok s(1,2) ref_quiet can]) (use s(3) in auto)
  have pid: "getpid (ref 42) \<noteq> - 1" by simp
  note run = tput_run_ends [OF H pid bench_batch [OF assms(2)] st(2-5)]
  obtain n res where res: "tput_run (ref 42) (ref 43) bin48 ndebug total_n cap0 batch late sched n w = Some res" using run(2) [OF assms(3)] by blast
  have "tidy (kern w3)" using s(5) st(1) by blast
  then have "tidy (kern (snd res))" using run(1) [OF res] tidy_reset [of "kern w3" 42 "seg_m q"] by simp
  then show ?thesis using that res run(1) [OF res] by (cases res) (auto simp: tput_done_def transferred_def)
qed


lemma tput_runs_cong:
  "(\<And>i. i < length cs \<Longrightarrow> turns i = turns' i) \<Longrightarrow>
   tput_runs H G b ndebug total_n lates scheds turns cs w = tput_runs H G b ndebug total_n lates scheds turns' cs w"
proof (induction cs arbitrary: w)
  case (Cons a cs)
  then have eq: "tput_runs H G b ndebug total_n lates scheds turns cs = tput_runs H G b ndebug total_n lates scheds turns' cs" by (simp add: fun_eq_iff)
  have t: "turns (length cs) = turns' (length cs)" using Cons.prems by simp
  obtain cap0 batch where a: "a = (cap0, batch)" by (cases a)
  show ?case unfolding a tput_runs.simps t eq ..
qed simp

lemma ref_tput_runs:
  assumes "\<forall>i. fair (scheds i)" "\<forall>i. lates i \<le> 5000"
  shows "tidy (kern w) \<Longrightarrow> set cs \<subseteq> set bench_configs \<Longrightarrow>
    \<exists>turns rs w'. tput_runs (ref 42) (ref 43) bin48 ndebug total_n lates scheds turns cs w = Some (Inr (map Some rs), w') \<and> length rs = length cs \<and>
      (\<forall>s \<in> set rs. transferred total_n s)"
proof (induction cs arbitrary: w)
  case (Cons a cs)
  obtain cap0 batch where a: "a = (cap0, batch)" by (cases a)
  obtain n s w1 where r: "tput_run (ref 42) (ref 43) bin48 ndebug total_n cap0 batch (lates (length cs)) (scheds (length cs)) n w = Some (Inr (Some s), w1)"
    "transferred total_n s" "tidy (kern w1)"
    by (rule ref_tput_run [OF Cons.prems(1), of cap0 batch "scheds (length cs)" "lates (length cs)" ndebug total_n])
      (use Cons.prems(2) a assms in auto)
  obtain turns rs w' where rs: "tput_runs (ref 42) (ref 43) bin48 ndebug total_n lates scheds turns cs w1 = Some (Inr (map Some rs), w')"
    "length rs = length cs" "\<forall>s \<in> set rs. transferred total_n s"
    using Cons.IH [OF r(3)] Cons.prems(2) by auto
  define t where "t = turns(length cs := n)"
  have "tput_runs (ref 42) (ref 43) bin48 ndebug total_n lates scheds t cs w1 = Some (Inr (map Some rs), w')" "t (length cs) = n"
    using rs(1) by (subst tput_runs_cong [of cs _ turns]) (simp_all add: t_def)
  then show ?case using r(1,2) rs(2,3) by (intro exI [of _ t] exI [of _ "s # rs"] exI [of _ w']) (simp add: a)
qed simp

text \<open>
  The whole throughput benchmark on the reference host: seven runs, each with every message transferred,
  the name removed at the end, if no child takes more than 5000 polls.
\<close>

theorem bench_throughput_main:
  assumes "tidy (kern w)" "\<forall>i. fair (scheds i)" "\<forall>i. lates i \<le> 5000"
  shows "\<exists>turns rs w'. tput_main (ref 42) (ref 43) bin48 ndebug lates scheds turns argv w = Some (Inr (map Some rs), w') \<and> length rs = 7 \<and>
           (\<forall>s \<in> set rs. transferred (bench_total argv) s) \<and> links (kv (kern w')) kName = None"
proof -
  obtain turns rs w' where "tput_runs (ref 42) (ref 43) bin48 ndebug (bench_total argv) lates scheds turns bench_configs w = Some (Inr (map Some rs), w')"
    "length rs = length bench_configs" "\<forall>s \<in> set rs. transferred (bench_total argv) s"
    using ref_tput_runs [OF assms(2,3,1) subset_refl] by blast
  moreover have "length bench_configs = 7" by (simp add: bench_configs_def)
  moreover have "links (kv (seg_remove (posix_of (ref 42)) kName k)) kName = None" for k
    by (simp add: seg_remove_def ref_host_def ref_posix_def unlinked_def c_str_def kName_def)
  ultimately show ?thesis
    by (intro exI [of _ turns] exI [of _ rs] exI [of _ "w'\<lparr>kern := seg_remove (posix_of (ref 42)) kName (kern w')\<rparr>"])
      (simp add: tput_main_def)
qed


lemma ref_after_reads [simp]: "after_reads (ref self) n k = k"
proof -
  have "(\<lambda>k. snd (steady_now (ref self) k)) = id" by (simp add: ref_host_def fun_eq_iff)
  then show ?thesis by (simp add: after_reads_def)
qed

lemma ref_ping_pong:
  assumes "late \<le> 5000" "late' \<le> 5000"
  obtains p w1 ob q w2 ob' d w3 where "create (ref 42) bin48 kPing 64 Producer world_init = (Inr p, w1)" "reaches (ref 42) p w1 = Some ob"
    "create (ref 42) bin48 kPong 64 Consumer w1 = (Inr q, w2)" "reaches (ref 42) q w2 = Some ob'"
    "polls (ref 42) 5000 late p w2 = Inr (d, w3)" "child_can (ref 43) kv kv bin48 kPing Consumer ob p w3"
    "\<forall>i w4. attach (ref 43) bin48 kPing Consumer 5000 w3 = Some (Inr i, w4) \<longrightarrow>
       (\<exists>d' w5. polls (ref 42) 5000 late' q w4 = Inr (d', w5) \<and> child_can (ref 43) kv kv bin48 kPong Producer ob' q w5)"
proof -
  obtain bytes where "bytesNeeded bin48 64 = Inr bytes" and pos: "0 < sint bytes" by (rule bin48_bytes [of 64]) simp_all
  then have bn: "bytesNeeded bin48 (clamped 64) = Inr bytes" by (simp add: clamped_def)
  obtain p w1 ob where p: "create (ref 42) bin48 kPing 64 Producer world_init = (Inr p, w1)" "reaches (ref 42) p w1 = Some ob"
      "size_m (seg_m p) = bytes" "tidy (kern w1)" "links (kv (kern w1)) (c_str kPing) = Some ob" "osize (kv (kern w1)) ob = sint bytes"
      "ob \<in> known (kv (kern w1))"
    by (rule ref_create [OF tidy_init names_ok(2) bn pos, of 42 Producer])
  obtain q w2 ob' where q: "create (ref 42) bin48 kPong 64 Consumer w1 = (Inr q, w2)" "reaches (ref 42) q w2 = Some ob'"
      "size_m (seg_m q) = bytes" "tidy (kern w2)" "links (kv (kern w2)) (c_str kPong) = Some ob'" "osize (kv (kern w2)) ob' = sint bytes"
      "\<forall>n. n \<noteq> c_str kPong \<longrightarrow> links (kv (kern w2)) n = links (kv (kern w1)) n"
      "\<forall>ob' \<in> known (kv (kern w1)). osize (kv (kern w2)) ob' = osize (kv (kern w1)) ob'"
    by (rule ref_create [OF p(4) names_ok(3) bn pos, of 42 Consumer])
  note H = refh.shm_host_axioms
  note fp = created_fresh [OF H bin48_ok p(1,2), unfolded p(3)]
  note fq = created_fresh [OF H bin48_ok q(1,2), unfolded q(3)]
  have t2: "two_queues (ref 42) kv ob p ob' q w2" by (rule two_queues_created [OF H bin48_ok p(1,2) q(1,2)])
  have ne: "ob \<noteq> ob'" and s2: "sound (ref 42) kv ob p w2" "sound (ref 42) kv ob' q w2" using t2 by (simp_all add: two_queues_def)
  have o2: "objs w2 ob = objs w1 ob" using fq(3) ne by (metis fun_upd_other)
  define w3 where "w3 = slept late w2"
  have r2: "reaches (ref 42) p w2 = Some ob" "reaches (ref 42) q w2 = Some ob'" using s2 by (simp_all add: sound_def)
  have pl: "polls (ref 42) 5000 late p w2 = Inr (fresh (kern w2) + 5000000000, w3)"
    unfolding w3_def by (rule ref_polls [OF r2(1) no_peer_yet [OF fp(1) [folded o2] fp(2)] assms(1)])
  have k3: "tidy (kern w3)" "links (kv (kern w3)) (c_str kPing) = Some ob" "osize (kv (kern w3)) ob = sint bytes"
    "fresh_block bin48 64 bytes Producer (getpid (ref 42)) (objs w3 ob)"
    using q(4,7,8) p(5-7) fp(1) o2 by (simp_all add: w3_def)
  note can = ref_child_can [OF k3(1) names_ok(2) k3(2,3) pos k3(4) role.distinct(2) p(3), of 43]
  have "\<exists>d' w5. polls (ref 42) 5000 late' q w4 = Inr (d', w5) \<and> child_can (ref 43) kv kv bin48 kPong Producer ob' q w5"
    if at: "attach (ref 43) bin48 kPing Consumer 5000 w3 = Some (Inr i, w4)" for i w4
  proof -
    note k4 = ref_attach [OF k3(1) names_ok(2) k3(2,3) pos k3(4) role.distinct(2) at]
    have sees: "other_sees (ref 43) kv kPing ob bytes w3" using can(1) p(3) by (simp add: child_can_def)
    have "undisturbed kv w3 w4" using can(1) at by (simp add: child_can_def)
    then have "undisturbed kv w2 w4" using undisturbed_trans [of kv w2 w3 w4] undisturbed_same [of kv w3 w2] by (simp add: w3_def)
    then have r4: "reaches (ref 42) q w4 = Some ob'" using refh.sound_undisturbed [OF s2(2)] by (simp add: sound_def)
    obtain w4' i' where "attach (ref 43) bin48 kPing Consumer 5000 w3 = Some (Inr i', w4')"
        "objs w4' = (objs w3)(ob := set_pid_slot Consumer (getpid (ref 43)) (objs w3 ob))"
      by (rule attach_fresh [OF H k3(4) sees role.distinct(2)])
    then have o4: "objs w4 ob' = objs w2 ob'" using at ne by (simp add: w3_def)
    have "\<not> 0 < sint (peer_slot (role_m q) (objs w4 ob'))" using no_peer_yet [OF fq(1,2)] unfolding o4 .
    then have pl': "polls (ref 42) 5000 late' q w4 = Inr (fresh (kern w4) + 5000000000, slept late' w4)"
      by (rule ref_polls [OF r4 _ assms(2)])
    have k5: "tidy (kern (slept late' w4))" "links (kv (kern (slept late' w4))) (c_str kPong) = Some ob'" "osize (kv (kern (slept late' w4))) ob' = sint bytes"
      "fresh_block bin48 64 bytes Consumer (getpid (ref 42)) (objs (slept late' w4) ob')"
      using k4(1-3) q(5,6) fq(1) o4 by (simp_all add: w3_def)
    show ?thesis using pl' ref_child_can(1) [OF k5(1) names_ok(3) k5(2,3) pos k5(4) role.distinct(1) q(3), of 43] by blast
  qed
  then show ?thesis using that [OF p(1,2) q(1,2) pl can(1)] by blast
qed

theorem bench_latency_completes_witness:
  "\<exists>n s w'. latency_main (ref 42) (ref 43) bin48 True (2 ^ 60 - 1) (\<lambda>_ _. True) 300 2 slow_clock even n [] world_init = Some (Inr (0, Some s), w') \<and>
     length (rtt s) = 200000 \<and> length (oneWay s) = 200000"
proof -
  obtain p w1 ob q w2 ob' d w3 where s: "create (ref 42) bin48 kPing 64 Producer world_init = (Inr p, w1)" "reaches (ref 42) p w1 = Some ob"
    "create (ref 42) bin48 kPong 64 Consumer w1 = (Inr q, w2)" "reaches (ref 42) q w2 = Some ob'"
    "polls (ref 42) 5000 300 p w2 = Inr (d, w3)" "child_can (ref 43) kv kv bin48 kPing Consumer ob p w3"
    "\<forall>i w4. attach (ref 43) bin48 kPing Consumer 5000 w3 = Some (Inr i, w4) \<longrightarrow>
       (\<exists>d' w5. polls (ref 42) 5000 2 q w4 = Inr (d', w5) \<and> child_can (ref 43) kv kv bin48 kPong Producer ob' q w5)"
    by (rule ref_ping_pong [of 300 2]) auto
  have it: "latency_iters [] = 200000" by (simp add: latency_iters_def)
  have s1: "create (ref 42) bin48 kPing 64 Producer (world_init\<lparr>kern := after_reads (ref 42) 200002 (kern world_init)\<rparr>) = (Inr p, w1)"
    using s(1) by simp
  have can: "\<forall>d w3. polls (ref 42) 5000 300 p w2 = Inr (d, w3) \<longrightarrow> child_can (ref 43) kv kv bin48 kPing Consumer ob p w3"
    "\<forall>d w3 i w4 d' w5. polls (ref 42) 5000 300 p w2 = Inr (d, w3) \<and> attach (ref 43) bin48 kPing Consumer 5000 w3 = Some (Inr i, w4) \<and>
       polls (ref 42) 5000 2 q w4 = Inr (d', w5) \<longrightarrow> child_can (ref 43) kv kv bin48 kPong Producer ob' q w5"
    using s(5-7) by fastforce+
  have h: "getpid (ref 42) \<noteq> - 1" "0 < sint (getpid (ref 43))" "unat (2 ^ 60 - 1 :: u64) < 2 ^ 61" by simp_all
  note t = bench_latency_completes [OF refh.shm_host_axioms refh.shm_host_axioms bin48_ok s1 s(2-4) ref_quiet can h(1,2) slow_clock_mono h(3),
      of True "\<lambda>_ _. True" "[]", unfolded it s(5) sum.case prod.case]
  then obtain n res where run: "latency_main (ref 42) (ref 43) bin48 True (2 ^ 60 - 1) (\<lambda>_ _. True) 300 2 slow_clock even n [] world_init = Some res"
    using fair_even by blast
  then obtain i w4 where "attach (ref 43) bin48 kPing Consumer 5000 w3 = Some (Inr i, w4)"
      "case polls (ref 42) 5000 2 q w4 of
         Inl _ \<Rightarrow> latency_given_up (ref 42) kv fresh ob p ob' q (fresh (kern w4) + 5000 * 1000000) res
       | Inr _ \<Rightarrow> latency_ran (ref 42) kv ob p ob' q (2 ^ 60 - 1) (\<lambda>_ _. True) 200000 res" using t by blast
  then have "latency_ran (ref 42) kv ob p ob' q (2 ^ 60 - 1) (\<lambda>_ _. True) 200000 res" using s(7) by auto
  moreover have "\<not> (2 ^ 60 - 1 :: u64) < 200000" by simp
  ultimately have "latency_done (ref 42) kv ob p ob' q 200000 res" by (simp add: latency_ran_def)
  then show ?thesis using run by (cases res) (auto simp: latency_done_def)
qed

end
