(* ===== verification/Spec2Isabelle.thy ===== *)
theory Spec2Isabelle
  imports Fifo Discipline Bytes Wire Benches
begin

text \<open>
  A verification of \<^verbatim>\<open>shm-spsc\<close>: a lock-free single-producer single-consumer queue for trivially copyable
  elements in POSIX shared memory (\<^verbatim>\<open>include/shmspsc/ShmSegment.h\<close>, \<^verbatim>\<open>include/shmspsc/ShmSpscQueue.h\<close>) with two demo
  programs and two benchmarks (\<^verbatim>\<open>src/*.cpp\<close>, \<^verbatim>\<open>src/common.h\<close>).

  \<^bold>\<open>The program.\<close> A \<^verbatim>\<open>ShmSegment\<close> owns one mapping of a named shared-memory object. A \<^verbatim>\<open>ShmSpscQueue<T>\<close> is a
  process-local handle on a segment that holds a \<^verbatim>\<open>ControlBlock\<close> (identity fields, two pid slots, a ready
  flag, write and read index on cache lines of their own) and behind it a ring of slots, one more than the
  capacity. One process \<^verbatim>\<open>create\<close>s the segment in one role, another \<^verbatim>\<open>attach\<close>es in the other; each claims its
  pid slot with a compare-and-swap; the producer publishes with a release store of the write index, the
  consumer takes with one of the read index, each caching the other's index. The blocking \<^verbatim>\<open>push\<close> and \<^verbatim>\<open>pop\<close>
  spin and look now and then whether the peer still lives.

  \<^bold>\<open>The theories\<close>, with the code they model.

  \<^item> \<open>Prelude\<close>: types (64- and 32-bit words, lists as arrays), \<open>bindE\<close>, \<open>memcpy\<close> and the generic lemmas on words,
    lists, intervals of a ring and sums of errors.
  \<^item> \<open>Segment\<close> (\<^verbatim>\<open>ShmSegment.h\<close>): the class over a record of system calls; locale \<open>posix_shm\<close> states what their manual
    pages promise over an abstract view of the kernel, and is interpreted by an executable kernel in which
    any call can be made to fail. Success maps a new object of the right size, failure leaks nothing, moves and
    \<^verbatim>\<open>reset\<close> transfer and release ownership.
  \<^item> \<open>Layout\<close> (lines 26--86 and 137--148 of \<^verbatim>\<open>ShmSpscQueue.h\<close>): fields, offsets, size and byte image of the control
    block for any cache-line size, \<^verbatim>\<open>bytesNeeded\<close> with its overflow checks.
  \<^item> \<open>Ring\<close> (lines 211--321, 354--375, 506--524): the data path on one handle and the segment, every copy
    bounds-checked; the invariants \<open>prod_ok\<close> and \<open>cons_ok\<close> of a handle with its cached index, and what each operation
    does to the list of queued elements.
  \<^item> \<open>Fifo\<close>: both handles over one segment refine a bounded list (locale and interpretation), \<^verbatim>\<open>push_n\<close> and \<^verbatim>\<open>pop_n\<close> equal
    repeated \<^verbatim>\<open>try_push\<close> and \<^verbatim>\<open>try_pop\<close>.
  \<^item> \<open>Spsc\<close>: the same operations cut at their atomic accesses and interleaved on a release/acquire memory
    where a load may return stale values and unsynchronised slot accesses race; processes may crash and be
    replaced. Invariants by rule induction: FIFO order, no data race, no access outside the ring, stale
    caches are conservative; the operations of \<open>Ring\<close> are executions of these steps.
  \<^item> \<open>Lifecycle\<close> (lines 38--50, 102--209, 377--504): \<^verbatim>\<open>create\<close>, \<^verbatim>\<open>attach\<close>, \<^verbatim>\<open>validate\<close>, \<^verbatim>\<open>bind\<close>, \<^verbatim>\<open>detach\<close>, moves, peer queries over a
    host (kernel, clock, \<^verbatim>\<open>kill\<close>, \<^verbatim>\<open>usleep\<close> during which others run); locale \<open>shm_host\<close> extends \<open>posix_shm\<close>.
  \<^item> \<open>Claim\<close>: the loop of \<^verbatim>\<open>bind\<close> as a step relation over any number of competing processes that may die: at
    most one live holder per role.
  \<^item> \<open>Discipline\<close>: \<open>Claim\<close> and \<open>Spsc\<close> composed. Any number of processes attach, compete, work, detach and die, each handle
    with its own caches and in the order of \<^verbatim>\<open>bind\<close>; locale \<open>role_locals\<close>, interpreted for both sides, shows that one handle
    per role does all the work, so the whole refines one producer and one consumer. The proviso that a newcomer's
    index is no older than its predecessor's is necessary: two runs in which elements are lost show what \<^verbatim>\<open>bind\<close> allows.
  \<^item> \<open>Blocking\<close> (lines 323--352): blocking \<^verbatim>\<open>push\<close> and \<^verbatim>\<open>pop\<close> against any lawful peer (locales \<open>consuming_peer\<close>,
    \<open>producing_peer\<close>, interpreted by peers that really pop and push): partial correctness and return.
  \<^item> \<open>Wire\<close>: the bytes below the array of elements: layout of \<^verbatim>\<open>demo::Message\<close>, where \<^verbatim>\<open>create\<close> puts the slots, and that the copies
    of bytes the code makes are the copies of elements of \<open>Ring\<close>.
  \<^item> \<open>Demo\<close> (\<^verbatim>\<open>common.h\<close>, loops of \<^verbatim>\<open>demo_producer.cpp\<close> and \<^verbatim>\<open>demo_consumer.cpp\<close>): messages, checksum, send and receive loop.
  \<^item> \<open>Fair\<close>: two processes taking turns under a schedule; locales \<open>fair_pair\<close> and \<open>ready_pair\<close> prove once that safe turns
    with a decreasing measure come to an end under every fair schedule.
  \<^item> \<open>Throughput\<close>, \<open>Latency\<close>, \<open>DemoRun\<close>: the two processes of \<^verbatim>\<open>bench_throughput.cpp\<close>, of \<^verbatim>\<open>bench_latency.cpp\<close> and of the demo
    as such pairs, each an interpretation of \<open>ready_pair\<close>.
  \<^item> \<open>Stats\<close> (\<^verbatim>\<open>common.h\<close>): percentiles with their double-precision index, the report, the clock overhead.
  \<^item> \<open>RefHost\<close>: sessions on an executable host, for the concrete runs below.
  \<^item> \<open>Session\<close>: \<^verbatim>\<open>create\<close> in one process and \<^verbatim>\<open>attach\<close> in another give two handles with the invariants above.
  \<^item> \<open>Programs\<close>: the main functions of the two demo programs from command line to exit code.
  \<^item> \<open>Benches\<close>: the main functions of the two benchmarks, every run from \<^verbatim>\<open>create\<close> over the transfer to the destructors, and on
    the reference host the seven runs of \<^verbatim>\<open>bench_throughput\<close> in a row.
  \<^item> this theory: the composition of all of it, from \<^verbatim>\<open>create\<close> to the exit of both demo programs.

  \<^bold>\<open>State and errors.\<close> Records mirror the classes and structs (\<open>shm_segment\<close>, \<open>control_block\<close>, \<open>queue\<close>, \<open>message\<close>); integers
  keep their width. Exceptions are \<open>Inl (Throws x)\<close>, undefined behaviour (bad pointer, access outside the ring,
  failed assertion) is a \<open>fault\<close>, so that its absence is a theorem. A handle reaches a control block only
  through a live mapping.

  \<^bold>\<open>Loops.\<close> Bounded loops are recursive functions. Loops that may run for ever (\<^verbatim>\<open>attach\<close>, \<^verbatim>\<open>waitForPeer\<close>, \<^verbatim>\<open>push\<close>, \<^verbatim>\<open>pop\<close>, the
  receive loop, the consumer's wait) are partial functions with \<open>None\<close> for not returning, and returning is
  proved: by the deadline and a clock that advances in sleeps, by a peer that makes room or progress, or by a
  signal. Pairs of processes run for any number of turns; fair schedules finish by a decreasing measure. No fuel is used.

  \<^bold>\<open>Parameters.\<close> System calls, clock, other processes, fairness of the scheduler, and the number of spurious failures of
  a weak compare-and-swap are arguments with named laws; each law is satisfied by a concrete instance.

  \<^bold>\<open>Not modelled.\<close> The text printed and the rates computed for it; \<^verbatim>\<open>fork\<close>, \<^verbatim>\<open>kill\<close> and \<^verbatim>\<open>waitpid\<close> in the benchmarks beyond their
  effect (a second process, which has ended before the parent goes on) and a run in which a stranger takes the
  child's place; cache-line performance; \<^verbatim>\<open>src/test_queue.cpp\<close>, whose assertions are instances
  of the theorems; build files and scripts. Template instantiations other than by size and alignment of the
  element do not matter, since elements are trivially copyable.
\<close>

text \<open>
  C1. The whole program: the consumer process creates the segment and waits for a producer, the producer
  process attaches, and the two demo programs run to their ends, the consumer's polls, its receive loop and
  both destructors included. If the consumer's \<^verbatim>\<open>create\<close> returned and the producer can open the
  object under the name, then the producer's \<^verbatim>\<open>attach\<close> succeeds. From there no schedule makes either
  program fault or the consumer count an error. Under every fair schedule both end for good: the
  consumer has received the \<^verbatim>\<open>total\<close> messages of the producer, in order and undamaged, exits with 0, and both pid
  slots are given up. The one exception is a producer whose messages all fit into the queue and which has gone
  before the consumer's first poll: then all polls come too late, the consumer waits for ever and the messages
  stay in the queue.
\<close>

theorem session_runs_demo:
  assumes "shm_host H view time" "shm_host G view' time'" "binary_ok b" "unat (sizeof_T b) < 2 ^ 32"
    and "create H b name cap0 Consumer w = (Inr q, w1)" "reaches H q w1 = Some ob"
    and "other_sees G view' name ob (size_m (seg_m q)) w1" "cap q \<le> length xs"
    and "0 < sint (getpid H)" "0 < sint (getpid G)"
  shows "\<exists>p w2. attach G b name Producer timeoutMs w1 = Some (Inr p, w2) \<and>
           (let run = (\<lambda>sched k. run_pair (demo_turn room clk (getpid G) (getpid H) total_n) sched k
                         (demo_init \<lparr>pend = p, cend = q, mem = segment_of w2 ob xs\<rparr>))
            in (\<forall>sched k. \<exists>s. run sched k = Inr s \<and> consumer_report (recv s) = Exit 0) \<and>
               (\<forall>sched. fair sched \<longrightarrow>
                  (\<exists>k. \<forall>j\<ge>k. \<exists>s. run sched j = Inr s \<and> demo_delivered total_n s) \<or>
                  unat total_n \<le> max 1 (unat cap0) \<and> (\<exists>k. \<forall>j\<ge>k. \<exists>s. run sched j = Inr s \<and> demo_missed total_n s) \<and>
                  (\<forall>i s. run sched i = Inr s \<and> \<not> sched i \<longrightarrow> send_at s = SExit)))"
proof -
  obtain p w2 m where at: "attach G b name Producer timeoutMs w1 = Some (Inr p, w2)" "m = segment_of w2 ob xs"
    and ok: "cons_ok q m" "prod_ok p m" "contents q m = []" "cap q = max 1 (unat cap0) + 1" "cap p = cap q" "role_m q = Consumer" "role_m p = Producer"
    and pids: "pid_slot Consumer (block m) = getpid H" "pid_slot Producer (block m) = getpid G"
    by (rule created_and_attached [OF assms(1-7), of Producer xs timeoutMs]) (use assms(8) in simp_all)
  define c where "c = \<lparr>pend = p, cend = q, mem = m\<rparr>"
  have c: "attached_pair (getpid G) (getpid H) c" "chan_items c = []" and bound: "chan_bound c = max 1 (unat cap0)"
    using ok pids assms(9,10) by (simp_all add: attached_pair_def chan_ok_def chan_items_def chan_bound_def c_def pid_slot_def)
  have safe: "\<exists>s. run_pair (demo_turn room clk (getpid G) (getpid H) total_n) sched k (demo_init c) = Inr s \<and> consumer_report (recv s) = Exit 0" for sched k
    using demo_end_to_end(1) [OF c, of room clk total_n sched k] by (metis consumer_report_eq)
  note ends = demo_end_to_end(2) [OF c, of _ room clk total_n, unfolded bound]
  show ?thesis
    unfolding Let_def
    by (intro exI [of _ p] exI [of _ w2] conjI at(1) allI impI safe [unfolded c_def at(2)] ends [unfolded c_def at(2)])
qed

theorem session_runs_demo_witness:
  "\<exists>q w1 p w2 ob k s. create ref42 bin48 ''/q'' 4 Consumer world_init = (Inr q, w1) \<and>
     attach (ref_host (\<lambda>_. None) 43) bin48 ''/q'' Producer 10000 w1 = Some (Inr p, w2) \<and>
     run_pair (demo_turn 16 (\<lambda>_. 5) 43 42 1000) even k
       (demo_init \<lparr>pend = p, cend = q, mem = segment_of w2 ob (replicate 5 zero_message)\<rparr>) = Inr s \<and>
     length (recv_all s) = 1000 \<and> exit_code (recv s) = 0"
proof -
  obtain q w1 ob where s: "create ref42 bin48 ''/q'' 4 Consumer world_init = (Inr q, w1)" "reaches ref42 q w1 = Some ob"
    "other_sees (ref_host (\<lambda>_. None) 43) kv ''/q'' ob (size_m (seg_m q)) w1" "cap q = 5" by (rule sample_session)
  have h: "cap q \<le> length (replicate 5 zero_message)" "0 < sint (getpid ref42)" "0 < sint (getpid (ref_host (\<lambda>_. None) 43))"
    using s(4) by (simp_all add: ref_host_def)
  have "\<not> unat (1000 :: u64) \<le> max 1 (unat (4 :: u64))" by simp
  then obtain p w2 k r where "attach (ref_host (\<lambda>_. None) 43) bin48 ''/q'' Producer 10000 w1 = Some (Inr p, w2)"
     "run_pair (demo_turn 16 (\<lambda>_. 5) (getpid (ref_host (\<lambda>_. None) 43)) (getpid ref42) 1000) even k
       (demo_init \<lparr>pend = p, cend = q, mem = segment_of w2 ob (replicate 5 zero_message)\<rparr>) = Inr r"
     "demo_delivered 1000 r"
    using session_runs_demo [OF refh.shm_host_axioms refh.shm_host_axioms bin48_ok s(1-3) h, of 10000 16 "\<lambda>_. 5" 1000] fair_even
    unfolding Let_def by (metis order_refl)
  then show ?thesis using s(1) unfolding demo_delivered_def by (intro exI conjI) (auto simp: ref_host_def)
qed

end
